(* ===== verification/Prelude.thy ===== *)
theory Prelude
  imports Main "HOL-Library.Word"
begin

unbundle bit_operations_syntax

text \<open>
  Shared vocabulary of the development: the kernel's integer types
  (\<^verbatim>\<open>arch/ia32/include/kimplementation.h\<close>), the ways in which a kernel routine can fail to come
  back, sequencing of routines that may fail, and the generic lemmas on words and on little endian
  words in byte memory that the components share.
\<close>

named_theorems kernel_defs \<open>definitions a component unfolds to evaluate one of its routines\<close>

section \<open>Integer types\<close>

text \<open>
  \<^verbatim>\<open>kuint\<close> and \<^verbatim>\<open>kuint32\<close> are \<^verbatim>\<open>unsigned long int\<close> of the ia32 ABI, \<^verbatim>\<open>kint\<close> and \<^verbatim>\<open>kint32\<close> its
  signed counterpart: the same 32 bit word, read by \<open>sint\<close>. \<^verbatim>\<open>kint64\<close> is a 64 bit word.
\<close>

type_synonym u8 = "8 word"
type_synonym u16 = "16 word"
type_synonym u32 = "32 word"
type_synonym u64 = "64 word"

abbreviation KPAGESIZE :: u32 where
  "KPAGESIZE \<equiv> 4096"

section \<open>Control that does not come back\<close>

text \<open>
  A routine returns a value (\<open>Inr\<close>) or is stopped (\<open>Inl\<close>): the processor raises an exception in it,
  or it stays in a loop for ever.
\<close>

datatype stop =
    Page_Fault u32     \<comment> \<open>access to an unmapped linear address\<close>
  | Invalid_Opcode     \<comment> \<open>\<^verbatim>\<open>#UD\<close>\<close>
  | Spins              \<comment> \<open>an endless loop: \<^verbatim>\<open>while(1) {}\<close> or a lock nobody can release\<close>

fun andthen :: "'e + 'a \<Rightarrow> ('a \<Rightarrow> 'e + 'b) \<Rightarrow> 'e + 'b" where
  "andthen (Inl e) f = Inl e"
| "andthen (Inr x) f = f x"

lemma andthen_Inr_iff:
  "andthen r f = Inr y \<longleftrightarrow> (\<exists>x. r = Inr x \<and> f x = Inr y)"
  by (cases r) auto

lemma andthen_Inl_iff:
  "andthen r f = Inl e \<longleftrightarrow> r = Inl e \<or> (\<exists>x. r = Inr x \<and> f x = Inl e)"
  by (cases r) auto

lemma andthen_assoc: "andthen (andthen r f) g = andthen r (\<lambda>x. andthen (f x) g)"
  by (cases r) auto

text \<open>An endless loop found by a function that reports it as \<open>None\<close>.\<close>

fun or_spins :: "'a option \<Rightarrow> stop + 'a" where
  "or_spins None = Inl Spins"
| "or_spins (Some x) = Inr x"

lemma or_spins_Inr_iff [simp]: "or_spins r = Inr x \<longleftrightarrow> r = Some x"
  by (cases r) auto

text \<open>
  A \<^verbatim>\<open>while\<close> loop whose body either goes on with a new state (\<open>Inl\<close>) or leaves with a result
  (\<open>Inr\<close>); where no turn leaves, the loop is endless.
\<close>

partial_function (option) turns :: "('s \<Rightarrow> stop + ('s + 'r)) \<Rightarrow> 's \<Rightarrow> (stop + 'r) option" where
  "turns body s =
     (case body s of
        Inl e \<Rightarrow> Some (Inl e)
      | Inr (Inl s') \<Rightarrow> turns body s'
      | Inr (Inr r) \<Rightarrow> Some (Inr r))"

declare turns.simps [code]

definition iterate :: "('s \<Rightarrow> stop + ('s + 'r)) \<Rightarrow> 's \<Rightarrow> stop + 'r" where
  "iterate body s = (case turns body s of None \<Rightarrow> Inl Spins | Some r \<Rightarrow> r)"

lemma iterate_unfold:
  "iterate body s =
     (case body s of
        Inl e \<Rightarrow> Inl e
      | Inr (Inl s') \<Rightarrow> iterate body s'
      | Inr (Inr r) \<Rightarrow> Inr r)"
  unfolding iterate_def by (subst turns.simps) (auto split: sum.splits)

lemma iterate_go: "body s = Inr (Inl s') \<Longrightarrow> iterate body s = iterate body s'"
  by (subst iterate_unfold) simp

lemma iterate_leave: "body s = Inr (Inr r) \<Longrightarrow> iterate body s = Inr r"
  by (subst iterate_unfold) simp

lemma iterate_stop: "body s = Inl e \<Longrightarrow> iterate body s = Inl e"
  by (subst iterate_unfold) simp

text \<open>A loop that never leaves a set of states it cannot leave from is endless.\<close>

lemma turns_endless:
  assumes step: "\<And>s. P s \<Longrightarrow> \<exists>s'. body s = Inr (Inl s') \<and> P s'" and "P s"
  shows "turns body s = None"
proof (rule ccontr)
  assume "turns body s \<noteq> None"
  then obtain r where "turns body s = Some r" by blast
  then have "body = body \<longrightarrow> P s \<longrightarrow> False"
  proof (rule turns.raw_induct [of "\<lambda>b s r. b = body \<longrightarrow> P s \<longrightarrow> False", rotated])
    fix f b s y
    assume IH: "\<And>b s y. f b s = Some y \<Longrightarrow> b = body \<longrightarrow> P s \<longrightarrow> False"
      and f: "(case b s of Inl e \<Rightarrow> Some (Inl e) | Inr (Inl s') \<Rightarrow> f b s' | Inr (Inr r) \<Rightarrow> Some (Inr r)) = Some y"
    show "b = body \<longrightarrow> P s \<longrightarrow> False"
      using IH f step by fastforce
  qed
  then show False using assms(2) by blast
qed

lemma iterate_spins:
  assumes "\<And>s. P s \<Longrightarrow> \<exists>s'. body s = Inr (Inl s') \<and> P s'" "P s"
  shows "iterate body s = Inl Spins"
  using turns_endless [of P body s, OF assms] by (simp add: iterate_def)

text \<open>What every turn keeps holds of the result, if there is one.\<close>

lemma iterate_invariant:
  assumes "iterate body s = Inr r" "P s"
    and turn: "\<And>s s'. P s \<Longrightarrow> body s = Inr (Inl s') \<Longrightarrow> P s'"
    and leave: "\<And>s r. P s \<Longrightarrow> body s = Inr (Inr r) \<Longrightarrow> Q r"
  shows "Q r"
proof -
  have "turns body s = Some (Inr r)" using assms(1) by (simp add: iterate_def split: option.splits)
  then have "body = body \<longrightarrow> P s \<longrightarrow> (\<forall>r'. (Inr r :: stop + _) = Inr r' \<longrightarrow> Q r')"
  proof (rule turns.raw_induct [of "\<lambda>b s y. b = body \<longrightarrow> P s \<longrightarrow> (\<forall>r. y = Inr r \<longrightarrow> Q r)", rotated])
    fix f b s y
    assume IH: "\<And>b s y. f b s = Some y \<Longrightarrow> b = body \<longrightarrow> P s \<longrightarrow> (\<forall>r. y = Inr r \<longrightarrow> Q r)"
      and f: "(case b s of Inl e \<Rightarrow> Some (Inl e) | Inr (Inl s') \<Rightarrow> f b s' | Inr (Inr r) \<Rightarrow> Some (Inr r)) = Some y"
    show "b = body \<longrightarrow> P s \<longrightarrow> (\<forall>r. y = Inr r \<longrightarrow> Q r)"
      using IH f turn leave by (auto split: sum.splits)
  qed
  then show ?thesis using assms(2) by blast
qed

text \<open>The state after at most \<open>n\<close> turns, for the evaluation of a loop.\<close>

primrec after_turns :: "nat \<Rightarrow> ('s \<Rightarrow> stop + ('s + 'r)) \<Rightarrow> 's \<Rightarrow> 's" where
  "after_turns 0 body s = s"
| "after_turns (Suc n) body s = (case body s of Inr (Inl s') \<Rightarrow> after_turns n body s' | _ \<Rightarrow> s)"

lemma iterate_after_turns: "iterate body (after_turns n body s) = iterate body s"
proof (induction n arbitrary: s)
  case (Suc n)
  then show ?case by (subst (2) iterate_unfold) (auto split: sum.splits simp: iterate_leave iterate_stop)
qed simp

section \<open>Words\<close>

lemma unat_of_nat_small: "n < 2 ^ LENGTH('a) \<Longrightarrow> unat (of_nat n :: 'a :: len word) = n"
  by (simp add: unat_of_nat take_bit_nat_eq_self)

lemma unat_u32_less: "unat (w :: u32) < 4294967296"
proof -
  have "unat w < 2 ^ LENGTH(32)" by (rule unsigned_less)
  then show ?thesis by simp
qed

lemma word_eqI_unat: "unat a = unat b \<Longrightarrow> a = b" for a b :: "'a :: len word"
  by (rule word_unat_eq_iff [THEN iffD2])

lemma bit_unat: "bit w n \<longleftrightarrow> odd (unat w div 2 ^ n)" for w :: "'a :: len word"
proof -
  have "bit w n = bit (unat w) n" by (simp add: bit_unsigned_iff)
  also have "\<dots> = odd (unat w div 2 ^ n)" by (rule bit_iff_odd)
  finally show ?thesis .
qed

lemma and_low_mask:
  "w AND 0x7FFF = take_bit 15 w" "w AND 0xFFFF = take_bit 16 w" "w AND 0x3F = take_bit 6 w"
  "w AND 0xFFF = take_bit 12 w" "w AND 0x1F = take_bit 5 w" "w AND 0xF = take_bit 4 w"
  for w :: "'a :: len word"
  by (simp_all add: take_bit_eq_mask mask_eq_exp_minus_1)

lemma unat_take_bit_mod: "unat (take_bit n w) = unat w mod 2 ^ n" for w :: "'a :: len word"
  by (subst unsigned_take_bit_eq) (simp add: take_bit_eq_mod)

lemma take_bit_zero_iff: "take_bit n w = 0 \<longleftrightarrow> unat w mod 2 ^ n = 0" for w :: "'a :: len word"
  by (simp add: word_unat_eq_iff unat_take_bit_mod)

lemma unat_push_drop: "unat (push_bit n (drop_bit n w)) = unat w div 2 ^ n * 2 ^ n" for w :: "'a :: len word"
proof -
  have "unat w div 2 ^ n * 2 ^ n < 2 ^ LENGTH('a)"
    by (rule le_less_trans [OF div_times_less_eq_dividend]) simp
  then show ?thesis
    by (subst unsigned_push_bit_eq, subst unsigned_drop_bit_eq)
      (simp add: push_bit_eq_mult drop_bit_eq_div take_bit_nat_eq_self mult.commute)
qed
lemma high_masks: "(0xFFFF0000 :: u32) = push_bit 16 (mask 16)" "(0xFFFFF000 :: u32) = push_bit 12 (mask 20)"
  "(0x7FFF0000 :: u32) = push_bit 16 (mask 15)" "(0x7FFF7FFF :: u32) = push_bit 16 (mask 15) OR mask 15"
  by (simp_all add: mask_eq_exp_minus_1)
lemma and_high_mask:
  "w AND 0xFFFF0000 = push_bit 16 (drop_bit 16 w)" "w AND 0xFFFFF000 = push_bit 12 (drop_bit 12 w)"
  "w AND 0x7FFF0000 = push_bit 16 (take_bit 15 (drop_bit 16 w))"
  "w AND 0x7FFF7FFF = push_bit 16 (take_bit 15 (drop_bit 16 w)) OR take_bit 15 w" for w :: u32
  unfolding high_masks by (rule bit_word_eqI; auto simp: bit_simps)+

lemma unat_or_disjoint:
  fixes a b :: "'a :: len word"
  assumes "a AND b = 0"
  shows "unat (a OR b) = unat a + unat b"
proof -
  from assms have "unat a AND unat b = 0"
    by (metis unsigned_and_eq unsigned_0)
  from disjunctive_add_eq_or [OF this] show ?thesis
    by (simp add: unsigned_or_eq)
qed

lemma centred_mod:
  fixes s :: int
  assumes "- m \<le> s" and "s < m"
  shows "s = (if s mod (2 * m) < m then s mod (2 * m) else s mod (2 * m) - 2 * m)"
proof (cases "0 \<le> s")
  case True
  with assms show ?thesis by simp
next
  case False
  have "s mod (2 * m) = (s + 2 * m) mod (2 * m)" by simp
  also have "\<dots> = s + 2 * m" using assms False by (intro mod_pos_pos_trivial) auto
  finally show ?thesis using assms False by simp
qed

lemma sint_by_uint:
  "sint w = (if uint w < 2 ^ (LENGTH('a) - 1) then uint w else uint w - 2 ^ LENGTH('a))"
  for w :: "'a :: len word"
proof -
  have two: "2 * 2 ^ (LENGTH('a) - 1) = (2 :: int) ^ LENGTH('a)"
    by (simp flip: power_Suc)
  have u: "sint w mod 2 ^ LENGTH('a) = uint w"
    by (simp add: uint_sint take_bit_eq_mod)
  show ?thesis
    using centred_mod [of "2 ^ (LENGTH('a) - 1)" "sint w", OF sint_ge sint_lt]
    unfolding two u .
qed

lemma positive_kint16: "0 <s h \<longleftrightarrow> 0 < unat h \<and> unat h < 32768" for h :: u16
proof -
  obtain k where k: "unat h = k" "uint h = int k" by simp
  then have "k < 65536" using uint_lt2p [of h] by simp
  then show ?thesis
    unfolding word_sless_alt sint_by_uint [of h] k by auto
qed

section \<open>Counting threads\<close>

text \<open>How many of the threads \<open>0 .. n - 1\<close> are at a given place.\<close>

definition count_at :: "(nat \<Rightarrow> 'p) \<Rightarrow> nat \<Rightarrow> 'p \<Rightarrow> nat" where
  "count_at f n v = card {t. t < n \<and> f t = v}"

lemma count_at_zero_iff: "count_at f n v = 0 \<longleftrightarrow> (\<forall>t<n. f t \<noteq> v)"
  by (auto simp: count_at_def)

lemma count_at_le: "count_at f n v \<le> n"
  unfolding count_at_def using card_mono [of "{..<n}" "{t. t < n \<and> f t = v}"] by auto

lemma count_at_less: "t < n \<Longrightarrow> f t \<noteq> v \<Longrightarrow> count_at f n v < n"
  unfolding count_at_def using psubset_card_mono [of "{..<n}" "{t. t < n \<and> f t = v}"] by auto

lemma count_at_same: "f t \<noteq> v \<Longrightarrow> x \<noteq> v \<Longrightarrow> count_at (f(t := x)) n v = count_at f n v"
  unfolding count_at_def by (rule arg_cong [of _ _ card]) auto

lemma count_at_in: "t < n \<Longrightarrow> f t \<noteq> v \<Longrightarrow> count_at (f(t := v)) n v = count_at f n v + 1"
proof -
  assume h: "t < n" "f t \<noteq> v"
  then have "{u. u < n \<and> (f(t := v)) u = v} = insert t {u. u < n \<and> f u = v}" by auto
  with h show ?thesis by (simp add: count_at_def)
qed

lemma count_at_out:
  "t < n \<Longrightarrow> f t = v \<Longrightarrow> x \<noteq> v \<Longrightarrow> count_at (f(t := x)) n v = count_at f n v - 1"
  "t < n \<Longrightarrow> f t = v \<Longrightarrow> 0 < count_at f n v"
proof -
  assume h: "t < n" "f t = v"
  then show "0 < count_at f n v" by (auto simp: count_at_def card_gt_0_iff)
  assume "x \<noteq> v"
  with h have "{u. u < n \<and> (f(t := x)) u = v} = {u. u < n \<and> f u = v} - {t}" by auto
  with h show "count_at (f(t := x)) n v = count_at f n v - 1" by (simp add: count_at_def)
qed

lemmas count_at_update = count_at_same count_at_in count_at_out

end
