(* ===== verification/Atomic.thy ===== *)
theory Atomic
  imports Prelude
begin

unbundle bit_operations_syntax

text \<open>
  \<^verbatim>\<open>arch/ia32/atomic.c\<close>. Every routine is one read-modify-write of the word its pointer argument
  names, so it is modelled by the word before and the word after; the bit routines, whose offset may
  exceed 31, work on the bit string of words that starts at the pointer.
\<close>

section \<open>The instructions of the inline assembly\<close>

text \<open>
  The operand forms used by \<^verbatim>\<open>atomic.c\<close>. \<open>OR_from_mem\<close> and \<open>AND_from_mem\<close> are
  \<^verbatim>\<open>orl (%0), %1\<close> and \<^verbatim>\<open>andl (%0), %1\<close>: in AT&T order their destination is the register.
\<close>

datatype insn =
    INC_mem | DEC_mem | ADD_to_mem | SUB_to_mem | CMPXCHG_mem
  | OR_from_mem | AND_from_mem | BT_mem | BTS_mem | BTR_mem

text \<open>
  The processor accepts a \<^verbatim>\<open>lock\<close> prefix on a read-modify-write instruction whose destination is
  memory; on any other instruction the prefix raises an invalid opcode exception. \<^verbatim>\<open>bt\<close> writes no
  memory.
\<close>

fun lockable :: "insn \<Rightarrow> bool" where
  "lockable OR_from_mem = False"
| "lockable AND_from_mem = False"
| "lockable BT_mem = False"
| "lockable _ = True"

definition locked :: "insn \<Rightarrow> 'a \<Rightarrow> stop + 'a" where
  "locked i r = (if lockable i then Inr r else Inl Invalid_Opcode)"

text \<open>\<^verbatim>\<open>sete\<close> and \<^verbatim>\<open>setc\<close> into the low byte of a register that held zero.\<close>

definition set_cc :: "bool \<Rightarrow> u32" where
  "set_cc flag = (if flag then 1 else 0)"

text \<open>
  The bit string operands of \<^verbatim>\<open>bt\<close>, \<^verbatim>\<open>bts\<close> and \<^verbatim>\<open>btr\<close>: with the offset in a register the
  processor reads the word at distance \<open>\<lfloor>offset / 32\<rfloor>\<close> (signed) from the operand and the bit
  \<open>offset mod 32\<close> of it. \<open>ws 0\<close> is the word the pointer names.
\<close>

type_synonym bit_string = "int \<Rightarrow> u32"

definition bit_word :: "u32 \<Rightarrow> int" where
  "bit_word off = sint off div 32"

definition bit_pos :: "u32 \<Rightarrow> nat" where
  "bit_pos off = unat off mod 32"

definition bs_test :: "bit_string \<Rightarrow> u32 \<Rightarrow> bool" where
  "bs_test ws off = bit (ws (bit_word off)) (bit_pos off)"

definition bs_set :: "bit_string \<Rightarrow> u32 \<Rightarrow> bit_string" where
  "bs_set ws off = ws(bit_word off := set_bit (bit_pos off) (ws (bit_word off)))"

definition bs_reset :: "bit_string \<Rightarrow> u32 \<Rightarrow> bit_string" where
  "bs_reset ws off = ws(bit_word off := unset_bit (bit_pos off) (ws (bit_word off)))"

section \<open>The routines\<close>

definition katomic_get :: "u32 \<Rightarrow> u32" where
  "katomic_get atomic = atomic"

definition katomic_set :: "u32 \<Rightarrow> u32 \<Rightarrow> u32" where
  "katomic_set atomic value = value"

definition katomic_inc :: "u32 \<Rightarrow> stop + u32" where
  "katomic_inc atomic = locked INC_mem (atomic + 1)"

definition katomic_dec :: "u32 \<Rightarrow> stop + u32" where
  "katomic_dec atomic = locked DEC_mem (atomic - 1)"

definition katomic_add :: "u32 \<Rightarrow> u32 \<Rightarrow> stop + u32" where
  "katomic_add atomic value = locked ADD_to_mem (atomic + value)"

definition katomic_sub :: "u32 \<Rightarrow> u32 \<Rightarrow> stop + u32" where
  "katomic_sub atomic value = locked SUB_to_mem (atomic - value)"

text \<open>Results are pairs: the value returned, and the word left at the pointer.\<close>

definition katomic_dec_and_test :: "u32 \<Rightarrow> stop + (u32 \<times> u32)" where
  "katomic_dec_and_test atomic = locked DEC_mem (set_cc (atomic - 1 = 0), atomic - 1)"

definition katomic_inc_and_test :: "u32 \<Rightarrow> stop + (u32 \<times> u32)" where
  "katomic_inc_and_test atomic = locked INC_mem (set_cc (atomic + 1 = 0), atomic + 1)"

text \<open>\<^verbatim>\<open>katomic_compare\<close> uses \<^verbatim>\<open>subl\<close>, which stores the difference (\<^verbatim>\<open>cmpl\<close> would not).\<close>

definition katomic_compare :: "u32 \<Rightarrow> u32 \<Rightarrow> stop + (u32 \<times> u32)" where
  "katomic_compare atomic compare =
     locked SUB_to_mem (set_cc (atomic - compare = 0), atomic - compare)"

text \<open>
  The branch compiled when \<^verbatim>\<open>CPU\<close> is not 386 (the build defines no \<^verbatim>\<open>CPU\<close>). \<^verbatim>\<open>cmpxchgl\<close> stores
  \<open>value\<close> and sets ZF where \<open>eax\<close> equals the word, and loads the word into \<open>eax\<close> with ZF clear where
  it does not. The \<^verbatim>\<open>xor %1, %1\<close> that follows clears \<open>eax\<close> and itself sets ZF, which is the flag
  \<^verbatim>\<open>sete\<close> then reads.
\<close>

definition cmpxchg :: "u32 \<Rightarrow> u32 \<Rightarrow> u32 \<Rightarrow> u32 \<times> bool \<times> u32" where
  "cmpxchg eax word value = (if eax = word then (eax, True, value) else (word, False, word))"

definition xor_self :: "u32 \<Rightarrow> bool \<Rightarrow> u32 \<times> bool" where
  "xor_self reg zf = (reg XOR reg, reg XOR reg = 0)"

definition katomic_compare_and_set_if_equal :: "u32 \<Rightarrow> u32 \<Rightarrow> u32 \<Rightarrow> stop + (u32 \<times> u32)" where
  "katomic_compare_and_set_if_equal atomic compare value =
     (let (eax, zf, word) = cmpxchg compare atomic value;
          (eax', zf') = xor_self eax zf
      in locked CMPXCHG_mem (eax' OR set_cc zf', word))"

text \<open>
  \<^verbatim>\<open>katomic_mask_set\<close> and \<^verbatim>\<open>katomic_mask_clear\<close> compute into a register; the word at the pointer is
  not an output of the instruction.
\<close>

definition katomic_mask_set :: "u32 \<Rightarrow> u32 \<Rightarrow> stop + u32" where
  "katomic_mask_set atomic msk = locked OR_from_mem atomic"

definition katomic_mask_clear :: "u32 \<Rightarrow> u32 \<Rightarrow> stop + u32" where
  "katomic_mask_clear atomic msk = locked AND_from_mem atomic"

definition katomic_bit_get :: "bit_string \<Rightarrow> u32 \<Rightarrow> stop + u32" where
  "katomic_bit_get ws off = locked BT_mem (set_cc (bs_test ws off))"

definition katomic_bit_set :: "bit_string \<Rightarrow> u32 \<Rightarrow> stop + bit_string" where
  "katomic_bit_set ws off = locked BTS_mem (bs_set ws off)"

definition katomic_bit_reset :: "bit_string \<Rightarrow> u32 \<Rightarrow> stop + bit_string" where
  "katomic_bit_reset ws off = locked BTR_mem (bs_reset ws off)"

definition katomic_bit_test_and_set :: "bit_string \<Rightarrow> u32 \<Rightarrow> stop + (u32 \<times> bit_string)" where
  "katomic_bit_test_and_set ws off = locked BTS_mem (set_cc (bs_test ws off), bs_set ws off)"

definition katomic_bit_test_and_reset :: "bit_string \<Rightarrow> u32 \<Rightarrow> stop + (u32 \<times> bit_string)" where
  "katomic_bit_test_and_reset ws off = locked BTR_mem (set_cc (bs_test ws off), bs_reset ws off)"

lemmas katomic_defs [kernel_defs] =
  katomic_get_def katomic_set_def katomic_inc_def katomic_dec_def katomic_add_def katomic_sub_def
  katomic_dec_and_test_def katomic_inc_and_test_def katomic_compare_def
  katomic_compare_and_set_if_equal_def cmpxchg_def xor_self_def katomic_mask_set_def
  katomic_mask_clear_def katomic_bit_get_def katomic_bit_set_def katomic_bit_reset_def
  katomic_bit_test_and_set_def katomic_bit_test_and_reset_def locked_def set_cc_def

section \<open>Bit strings\<close>

text \<open>An offset is its word and its position: distinct offsets name distinct bits.\<close>

lemma bit_pos_sint: "int (bit_pos off) = sint off mod 32"
proof -
  have "sint off mod 32 = take_bit 5 (sint off)"
    by (simp add: take_bit_eq_mod)
  also have "\<dots> = take_bit 5 (uint off)"
    by (simp add: sint_uint take_bit_signed_take_bit)
  finally show ?thesis
    by (simp add: bit_pos_def take_bit_eq_mod zmod_int)
qed

lemma bit_addr_eq_iff: "bit_word a = bit_word b \<and> bit_pos a = bit_pos b \<longleftrightarrow> a = b"
proof
  assume h: "bit_word a = bit_word b \<and> bit_pos a = bit_pos b"
  have "sint a = 32 * bit_word a + int (bit_pos a)" "sint b = 32 * bit_word b + int (bit_pos b)"
    by (simp_all add: bit_pos_sint bit_word_def)
  with h have "sint a = sint b" by simp
  then show "a = b" by (simp add: signed_word_eqI)
qed simp

lemma bit_pos_less: "bit_pos off < LENGTH(32)"
  by (simp add: bit_pos_def)

lemma bs_test_set: "bs_test (bs_set ws a) b \<longleftrightarrow> a = b \<or> bs_test ws b"
  using bit_addr_eq_iff [of a b] bit_pos_less [of a]
  by (auto simp: bs_test_def bs_set_def bit_set_bit_iff)

lemma bs_test_reset: "bs_test (bs_reset ws a) b \<longleftrightarrow> a \<noteq> b \<and> bs_test ws b"
  using bit_addr_eq_iff [of a b] by (auto simp: bs_test_def bs_reset_def bit_unset_bit_iff)

text \<open>Offsets below 32 stay in the word the pointer names.\<close>

lemma small_offset:
  assumes "n < 32"
  shows "bit_word (word_of_nat n) = 0" "bit_pos (word_of_nat n) = n"
proof -
  have u: "unat (word_of_nat n :: u32) = n"
    using assms by (simp add: unat_of_nat_small)
  then show "bit_pos (word_of_nat n) = n"
    using assms by (simp add: bit_pos_def)
  have "sint (word_of_nat n :: u32) = int n"
    using assms u by (simp add: sint_uint uint_nat signed_take_bit_int_eq_self)
  then show "bit_word (word_of_nat n) = 0"
    using assms by (simp add: bit_word_def)
qed

section \<open>The contract of the bit routines\<close>

text \<open>
  What the clients of the bit routines (the spinlock and the read/write lock) rely on: a family of
  flags, each with a routine that sets it or clears it and reports its old value.
\<close>

locale flag_cells =
  fixes is_set :: "'m \<Rightarrow> 'k \<Rightarrow> bool"
    and test_and_set :: "'m \<Rightarrow> 'k \<Rightarrow> stop + (u32 \<times> 'm)"
    and test_and_reset :: "'m \<Rightarrow> 'k \<Rightarrow> stop + (u32 \<times> 'm)"
  assumes set_result: "\<exists>m'. test_and_set m k = Inr (of_bool (is_set m k), m') \<and>
      (\<forall>j. is_set m' j \<longleftrightarrow> j = k \<or> is_set m j)"
    and reset_result: "\<exists>m'. test_and_reset m k = Inr (of_bool (is_set m k), m') \<and>
      (\<forall>j. is_set m' j \<longleftrightarrow> j \<noteq> k \<and> is_set m j)"
begin

text \<open>Of two callers only the first is told that the flag was clear.\<close>

lemma second_caller_refused:
  assumes "test_and_set m k = Inr (r, m')"
  shows "\<exists>m''. test_and_set m' k = Inr (1, m'')"
  using set_result [of m k] set_result [of m' k] assms by auto

text \<open>Taking a clear flag and giving it back leaves every flag as it was.\<close>

lemma take_and_give_back:
  assumes "\<not> is_set m k" and "test_and_set m k = Inr (r, m1)" and "test_and_reset m1 k = Inr (r', m2)"
  shows "r = 0 \<and> r' = 1 \<and> (\<forall>j. is_set m2 j \<longleftrightarrow> is_set m j)"
  using assms set_result [of m k] reset_result [of m1 k] by auto

end

interpretation bits: flag_cells bs_test katomic_bit_test_and_set katomic_bit_test_and_reset
  by unfold_locales
    (auto simp: katomic_bit_test_and_set_def katomic_bit_test_and_reset_def locked_def set_cc_def
      bs_test_set bs_test_reset)

section \<open>Properties\<close>

text \<open>
  \<^verbatim>\<open>katomic_compare_and_set_if_equal\<close> stores \<open>value\<close> exactly where the word equals \<open>compare\<close>, but
  it returns 1 in every case: the \<^verbatim>\<open>xor\<close> between \<^verbatim>\<open>cmpxchgl\<close> and \<^verbatim>\<open>sete\<close> overwrites the flag that
  tells whether the exchange happened. A caller cannot learn that it lost the race.
\<close>
theorem compare_and_set_always_reports_success:
  "katomic_compare_and_set_if_equal atomic compare value =
     Inr (1, if atomic = compare then value else atomic)"
  by (auto simp: katomic_defs)

text \<open>
  \<^verbatim>\<open>katomic_compare\<close> reports equality correctly, but it is not a query: it leaves the difference
  of the two words at the pointer, so the word survives only a comparison with zero, and a comparison
  that succeeds always clears it.
\<close>
theorem compare_overwrites_the_word:
  "\<exists>w. katomic_compare atomic compare = Inr (of_bool (atomic = compare), w) \<and>
     (w = atomic \<longleftrightarrow> compare = 0) \<and> (w = 0 \<longleftrightarrow> atomic = compare)"
  by (auto simp: katomic_defs)

text \<open>
  The test-and-modify bit routines report the old value of the addressed bit and change that bit
  only, for every signed offset: no other bit of the string that starts at the pointer moves, in the
  word named by the pointer or in any other.
\<close>
theorem bit_test_and_modify_spec:
  "(\<exists>ws'. katomic_bit_test_and_set ws off = Inr (of_bool (bs_test ws off), ws') \<and>
     (\<forall>j. bs_test ws' j \<longleftrightarrow> j = off \<or> bs_test ws j)) \<and>
   (\<exists>ws'. katomic_bit_test_and_reset ws off = Inr (of_bool (bs_test ws off), ws') \<and>
     (\<forall>j. bs_test ws' j \<longleftrightarrow> j \<noteq> off \<and> bs_test ws j))"
  using bits.set_result [of ws off] bits.reset_result [of ws off] by blast

text \<open>
  The three routines whose instruction does not write memory cannot be used at all: the lock
  prefix makes \<^verbatim>\<open>katomic_mask_set\<close>, \<^verbatim>\<open>katomic_mask_clear\<close> and \<^verbatim>\<open>katomic_bit_get\<close> raise an invalid
  opcode exception on every input, while every other routine of the file returns.
\<close>
theorem locked_reads_raise_invalid_opcode:
  "katomic_mask_set a m = Inl Invalid_Opcode \<and> katomic_mask_clear a m = Inl Invalid_Opcode \<and>
   katomic_bit_get ws off = Inl Invalid_Opcode \<and>
   \<not> isl (katomic_inc a) \<and> \<not> isl (katomic_dec a) \<and> \<not> isl (katomic_add a m) \<and> \<not> isl (katomic_sub a m) \<and>
   \<not> isl (katomic_inc_and_test a) \<and> \<not> isl (katomic_dec_and_test a) \<and> \<not> isl (katomic_compare a m) \<and>
   \<not> isl (katomic_compare_and_set_if_equal a m v) \<and>
   \<not> isl (katomic_bit_set ws off) \<and> \<not> isl (katomic_bit_reset ws off)"
  by (simp add: katomic_defs split: prod.split)

end
