(* ===== verification/Spinlock.thy ===== *)
theory Spinlock
  imports Prelude
begin

unbundle bit_operations_syntax

text \<open>
  \<^verbatim>\<open>arch/ia32/spinlock.c\<close>. A spinlock is bit 31 of a word; the other bits belong to the owner of the
  word (the read/write lock keeps its counts there). The theory also states the contract every
  client of a lock relies on, and proves from the contract alone that a lock excludes.
\<close>

section \<open>The routines\<close>

text \<open>\<^verbatim>\<open>btsl $31\<close>: the carry flag is the old value of the bit.\<close>

definition btsl31 :: "u32 \<Rightarrow> bool \<times> u32" where
  "btsl31 lock = (bit lock 31, set_bit 31 lock)"

text \<open>The loop \<^verbatim>\<open>0: lock btsl; jc 0b\<close>, run with nobody else changing the word.\<close>

partial_function (option) spin_loop :: "u32 \<Rightarrow> u32 option" where
  "spin_loop lock = (let (cf, lock') = btsl31 lock in if cf then spin_loop lock' else Some lock')"

declare spin_loop.simps [code]

definition kspinlock_lock :: "u32 \<Rightarrow> stop + u32" where
  "kspinlock_lock lock = or_spins (spin_loop lock)"

definition kspinlock_unlock :: "u32 \<Rightarrow> u32" where
  "kspinlock_unlock lock = unset_bit 31 lock"

text \<open>
  The \<^verbatim>\<open>irqsave\<close> variants also move the flags register: the state is the lock word, the caller's
  \<^verbatim>\<open>irqsave\<close> variable and \<^verbatim>\<open>eflags\<close>, whose bit 9 enables interrupts.
\<close>

record irq_lock =
  lock_word :: u32
  irqsave :: u32
  eflags :: u32

definition cli :: "u32 \<Rightarrow> u32" where
  "cli flags = unset_bit 9 flags"

definition kspinlock_lock_irqsave :: "irq_lock \<Rightarrow> stop + irq_lock" where
  "kspinlock_lock_irqsave s =
     (let s1 = s\<lparr>irqsave := eflags s, eflags := cli (eflags s)\<rparr>
      in andthen (or_spins (spin_loop (lock_word s1))) (\<lambda>lock'. Inr (s1\<lparr>lock_word := lock'\<rparr>)))"

definition kspinlock_unlock_irqrestore :: "irq_lock \<Rightarrow> irq_lock" where
  "kspinlock_unlock_irqrestore s =
     s\<lparr>lock_word := unset_bit 31 (lock_word s), eflags := irqsave s\<rparr>"

section \<open>The loop\<close>

lemma spin_loop_free: "\<not> bit lock 31 \<Longrightarrow> spin_loop lock = Some (set_bit 31 lock)"
  by (subst spin_loop.simps) (simp add: btsl31_def)

lemma spin_loop_returns_free:
  assumes "spin_loop lock = Some lock'"
  shows "\<not> bit lock 31"
proof (rule spin_loop.raw_induct [where P = "\<lambda>lock _. \<not> bit lock 31", OF _ assms])
  fix f :: "u32 \<Rightarrow> u32 option" and lock lock'
  assume IH: "\<And>lock lock'. f lock = Some lock' \<Longrightarrow> \<not> bit lock 31"
    and eq: "(let (cf, l) = btsl31 lock in if cf then f l else Some l) = Some lock'"
  show "\<not> bit lock 31"
  proof
    assume b: "bit lock 31"
    with eq have "f (set_bit 31 lock) = Some lock'" by (simp add: btsl31_def)
    from IH [OF this] show False by (simp add: bit_set_bit_iff)
  qed
qed

lemma spin_loop_eq: "spin_loop lock = (if bit lock 31 then None else Some (set_bit 31 lock))"
proof (cases "bit lock 31")
  case True
  then have "spin_loop lock \<noteq> Some l" for l using spin_loop_returns_free by blast
  with True show ?thesis by auto
qed (simp add: spin_loop_free)

lemma unset_set_31: "\<not> bit (lock :: u32) 31 \<Longrightarrow> unset_bit 31 (set_bit 31 lock) = lock"
  by (rule bit_eqI) (auto simp: bit_set_bit_iff bit_unset_bit_iff)

lemma kspinlock_lock_eq [kernel_defs]:
  "kspinlock_lock lock = (if bit lock 31 then Inl Spins else Inr (set_bit 31 lock))"
  by (simp add: kspinlock_lock_def spin_loop_eq)

section \<open>The contract of a lock\<close>

text \<open>
  What a client of a lock relies on. \<open>view\<close> is what the lock leaves to its client: taking a free lock
  and giving it back restores it.
\<close>

locale lock_contract =
  fixes held :: "'l \<Rightarrow> bool"
    and acquire :: "'l \<Rightarrow> stop + 'l"
    and release :: "'l \<Rightarrow> 'l"
    and view :: "'l \<Rightarrow> 'v"
  assumes acquire_free:
      "\<not> held l \<Longrightarrow> \<exists>l'. acquire l = Inr l' \<and> held l' \<and> view (release l') = view l"
    and acquire_held: "held l \<Longrightarrow> acquire l = Inl Spins"
    and release_frees: "\<not> held (release l)"
begin

lemma acquire_InrD: "acquire l = Inr l' \<Longrightarrow> \<not> held l \<and> held l' \<and> view (release l') = view l"
  using acquire_free [of l] acquire_held [of l] by (cases "held l") auto

text \<open>A second acquisition by the holder is a deadlock.\<close>

lemma no_reentry: "acquire l = Inr l' \<Longrightarrow> acquire l' = Inl Spins"
  using acquire_InrD acquire_held by blast

lemma critical_section:
  "\<not> held l \<Longrightarrow> \<exists>l'. andthen (acquire l) (\<lambda>l. Inr (release l)) = Inr l' \<and> \<not> held l' \<and> view l' = view l"
  using acquire_free [of l] release_frees by auto

end

interpretation spin: lock_contract "\<lambda>l. bit l 31" kspinlock_lock kspinlock_unlock "\<lambda>l. l"
  by unfold_locales
    (auto simp: kspinlock_lock_eq kspinlock_unlock_def unset_set_31 bit_set_bit_iff bit_unset_bit_iff)

interpretation irq_spin: lock_contract "\<lambda>s. bit (lock_word s) 31" kspinlock_lock_irqsave
    kspinlock_unlock_irqrestore "\<lambda>s. (lock_word s, eflags s)"
  by unfold_locales
    (auto simp: kspinlock_lock_irqsave_def kspinlock_unlock_irqrestore_def spin_loop_eq Let_def
      unset_set_31 bit_set_bit_iff bit_unset_bit_iff)

section \<open>Threads that contend for a lock\<close>

text \<open>
  Any number of threads share the lock word. A thread outside may run the locked instruction and
  come in, a thread inside may release. A refused attempt leaves the word as it is, so it is not a
  step.
\<close>

record 'l contention =
  shared :: 'l
  inside :: "nat set"

inductive contend :: "('l \<Rightarrow> stop + 'l) \<Rightarrow> ('l \<Rightarrow> 'l) \<Rightarrow> 'l contention \<Rightarrow> 'l contention \<Rightarrow> bool"
  for acq rel
where
  enter: "t \<notin> inside s \<Longrightarrow> acq (shared s) = Inr l' \<Longrightarrow>
    contend acq rel s (s\<lparr>shared := l', inside := insert t (inside s)\<rparr>)"
| leave: "t \<in> inside s \<Longrightarrow>
    contend acq rel s (s\<lparr>shared := rel (shared s), inside := inside s - {t}\<rparr>)"

inductive contention_reach :: "('l \<Rightarrow> stop + 'l) \<Rightarrow> ('l \<Rightarrow> 'l) \<Rightarrow> 'l \<Rightarrow> 'l contention \<Rightarrow> bool"
  for acq rel l0
where
  start: "contention_reach acq rel l0 \<lparr>shared = l0, inside = {}\<rparr>"
| step: "contention_reach acq rel l0 s \<Longrightarrow> contend acq rel s s' \<Longrightarrow> contention_reach acq rel l0 s'"

context lock_contract
begin

text \<open>
  The lock is held exactly while a thread is inside, at most one is, and what the lock leaves to its
  clients is what it was at the start once the lock has been given back.
\<close>

lemma contention_invariant:
  assumes "contention_reach acquire release l0 s" and "\<not> held l0"
  shows "(held (shared s) \<longleftrightarrow> inside s \<noteq> {}) \<and> (\<exists>t. inside s \<subseteq> {t}) \<and>
    view (if inside s = {} then shared s else release (shared s)) = view l0"
  using assms
proof (induction rule: contention_reach.induct)
  case start
  then show ?case by simp
next
  case (step s s')
  then have IH: "held (shared s) \<longleftrightarrow> inside s \<noteq> {}" "\<exists>t. inside s \<subseteq> {t}"
    "view (if inside s = {} then shared s else release (shared s)) = view l0" by auto
  from step.hyps(2) show ?case
  proof (cases rule: contend.cases)
    case (enter t l')
    with IH acquire_InrD [of "shared s" l'] show ?thesis by auto
  next
    case (leave t)
    with IH have "inside s = {t}" by auto
    with IH leave release_frees show ?thesis by auto
  qed
qed

lemma mutual_exclusion:
  assumes "contention_reach acquire release l0 s" and "\<not> held l0" and "t \<in> inside s" and "u \<in> inside s"
  shows "t = u"
  using contention_invariant [OF assms(1,2)] assms(3,4) by blast

end

section \<open>Properties\<close>

text \<open>
  \<^verbatim>\<open>kspinlock_lock\<close> returns exactly when bit 31 of the word is clear, and then has set that bit and
  no other; on a held lock the loop never ends. Unlocking gives the original word back.
\<close>
theorem spinlock_lock_unlock:
  "kspinlock_lock lock = (if bit lock 31 then Inl Spins else Inr (set_bit 31 lock)) \<and>
   (\<not> bit lock 31 \<longrightarrow> kspinlock_unlock (set_bit 31 lock) = lock)"
  by (simp add: kspinlock_lock_eq kspinlock_unlock_def unset_set_31)

theorem spinlock_lock_unlock_witness:
  "kspinlock_lock 5 = Inr 0x80000005 \<and> kspinlock_unlock 0x80000005 = 5"
  using spinlock_lock_unlock [of 5] by (simp add: set_bit_eq_or)

text \<open>
  C8: in every state that threads contending for a spinlock can reach, at most one of them is inside,
  and the bits the lock does not use hold what they held at the start.
\<close>
theorem spinlock_mutual_exclusion:
  assumes "contention_reach kspinlock_lock kspinlock_unlock l0 s" and "\<not> bit l0 31"
  shows "(t \<in> inside s \<and> u \<in> inside s \<longrightarrow> t = u) \<and> kspinlock_unlock (shared s) = l0"
proof -
  have "kspinlock_unlock l = l" if "\<not> bit l 31" for l :: u32
    using that by (intro bit_eqI) (auto simp: kspinlock_unlock_def bit_unset_bit_iff)
  then show ?thesis
    using spin.contention_invariant [OF assms] spin.mutual_exclusion [OF assms, of t u]
    by (auto split: if_splits)
qed

theorem spinlock_mutual_exclusion_witness:
  "kspinlock_unlock (shared \<lparr>shared = set_bit 31 (6 :: u32), inside = {3}\<rparr>) = 6"
proof -
  have "contend kspinlock_lock kspinlock_unlock \<lparr>shared = 6, inside = {}\<rparr>
      \<lparr>shared = set_bit 31 6, inside = {3}\<rparr>"
    using contend.enter [of 3 "\<lparr>shared = 6, inside = {}\<rparr>" kspinlock_lock "set_bit 31 6"]
    by (simp add: kspinlock_lock_eq)
  from contention_reach.step [OF contention_reach.start this]
  have r: "contention_reach kspinlock_lock kspinlock_unlock 6 \<lparr>shared = set_bit 31 6, inside = {3}\<rparr>" .
  show ?thesis using spinlock_mutual_exclusion [OF r] by simp
qed

text \<open>
  The \<^verbatim>\<open>irqsave\<close> pair nests correctly with interrupts: on a free lock it returns with interrupts
  disabled, and the matching release restores both the lock word and the flags register, whether
  interrupts were enabled before or not.
\<close>
theorem irqsave_restores_interrupts:
  assumes "\<not> bit (lock_word s) 31"
  shows "\<exists>s'. kspinlock_lock_irqsave s = Inr s' \<and> \<not> bit (eflags s') 9 \<and>
    lock_word (kspinlock_unlock_irqrestore s') = lock_word s \<and>
    eflags (kspinlock_unlock_irqrestore s') = eflags s"
proof -
  from irq_spin.acquire_free [OF assms] obtain s' where s': "kspinlock_lock_irqsave s = Inr s'"
    and v: "(lock_word (kspinlock_unlock_irqrestore s'), eflags (kspinlock_unlock_irqrestore s')) =
      (lock_word s, eflags s)" by blast
  from s' have "\<not> bit (eflags s') 9"
    by (auto simp: kspinlock_lock_irqsave_def andthen_Inr_iff cli_def bit_unset_bit_iff Let_def)
  with s' v show ?thesis by simp
qed

theorem irqsave_restores_interrupts_witness:
  "\<exists>s'. kspinlock_lock_irqsave \<lparr>lock_word = 0, irqsave = 7, eflags = 0x202\<rparr> = Inr s' \<and>
    \<not> bit (eflags s') 9 \<and> eflags (kspinlock_unlock_irqrestore s') = 0x202"
  using irqsave_restores_interrupts [of "\<lparr>lock_word = 0, irqsave = 7, eflags = 0x202\<rparr>"] by auto

end
