(* ===== verification/Rwlock.thy ===== *)
theory Rwlock
  imports Prelude Atomic Spinlock
begin

unbundle bit_operations_syntax

text \<open>
  \<^verbatim>\<open>arch/ia32/rwlock.c\<close>. One word holds the whole lock: bits 0 to 14 count the readers, bit 15 is set
  by a writer that wants in (and makes the low half, read as a \<^verbatim>\<open>kint16\<close>, negative), bits 16 to 30
  count the writers, bit 31 is the spinlock that guards the word. A routine that has to wait gives the
  spinlock back, yields, and tries again: each try, from taking the spinlock to giving it back, is one
  turn here, and the threads interleave turn by turn.
\<close>

section \<open>The halves of the lock word\<close>

definition lo16 :: "u32 \<Rightarrow> u16" where
  "lo16 lock = ucast lock"

definition set_lo16 :: "u32 \<Rightarrow> u16 \<Rightarrow> u32" where
  "set_lo16 lock h = (lock AND 0xFFFF0000) OR ucast h"

text \<open>The bit routines of \<^verbatim>\<open>atomic.c\<close> applied to a single word.\<close>

definition word_string :: "u32 \<Rightarrow> bit_string" where
  "word_string w = (\<lambda>_. 0)(0 := w)"

section \<open>The routines, turn by turn\<close>

text \<open>The body of the loop of \<^verbatim>\<open>krwlock_read_lock\<close>: was the lock taken, and the word.\<close>

definition read_try :: "u32 \<Rightarrow> bool \<times> u32" where
  "read_try lock =
     (let lock1 = set_lo16 lock (lo16 lock + 1)
      in if 0 <s lo16 lock1 then (True, lock1) else (False, set_lo16 lock1 (lo16 lock1 - 1)))"

definition krwlock_read_lock_turn :: "u32 \<Rightarrow> stop + (bool \<times> u32)" where
  "krwlock_read_lock_turn lock =
     andthen (kspinlock_lock lock) (\<lambda>lock1.
       let (taken, lock2) = read_try lock1 in Inr (taken, kspinlock_unlock lock2))"

definition krwlock_read_unlock :: "u32 \<Rightarrow> stop + u32" where
  "krwlock_read_unlock lock =
     andthen (kspinlock_lock lock) (\<lambda>lock1. Inr (kspinlock_unlock (set_lo16 lock1 (lo16 lock1 - 1))))"

text \<open>
  \<^verbatim>\<open>krwlock_write_lock\<close> chooses what it waits for once, by the old value of bit 15: with the bit set
  it waits for the readers and the writers to be gone (\<open>Wait_All\<close>), with the bit clear for the readers
  only (\<open>Wait_Readers\<close>).
\<close>

datatype write_wait = Wait_All | Wait_Readers

fun wait_mask :: "write_wait \<Rightarrow> u32" where
  "wait_mask Wait_All = 0x7FFF7FFF"
| "wait_mask Wait_Readers = 0x00007FFF"

text \<open>The test of the \<^verbatim>\<open>while\<close>, and what follows the loop once it fails.\<close>

definition write_try :: "write_wait \<Rightarrow> u32 \<Rightarrow> bool \<times> u32" where
  "write_try ww lock =
     (if lock AND wait_mask ww \<noteq> 0 then (False, lock) else (True, lock + 0x00010000))"

definition krwlock_write_lock_first :: "u32 \<Rightarrow> stop + (write_wait \<times> bool \<times> u32)" where
  "krwlock_write_lock_first lock =
     andthen (kspinlock_lock lock) (\<lambda>lock1.
     andthen (katomic_bit_test_and_set (word_string lock1) 15) (\<lambda>(old, ws).
       let ww = (if old \<noteq> 0 then Wait_All else Wait_Readers);
           (taken, lock2) = write_try ww (ws 0)
       in Inr (ww, taken, kspinlock_unlock lock2)))"

definition krwlock_write_lock_again :: "write_wait \<Rightarrow> u32 \<Rightarrow> stop + (bool \<times> u32)" where
  "krwlock_write_lock_again ww lock =
     andthen (kspinlock_lock lock) (\<lambda>lock1.
       let (taken, lock2) = write_try ww lock1 in Inr (taken, kspinlock_unlock lock2))"

definition krwlock_write_unlock :: "u32 \<Rightarrow> stop + u32" where
  "krwlock_write_unlock lock =
     andthen (kspinlock_lock lock) (\<lambda>lock1.
       let lock2 = lock1 - 0x00010000
       in andthen
           (if lock2 AND 0x7FFF0000 = 0
            then andthen (katomic_bit_reset (word_string lock2) 15) (\<lambda>ws. Inr (ws 0))
            else Inr lock2)
           (\<lambda>lock3. Inr (kspinlock_unlock lock3)))"

section \<open>Threads that share the lock\<close>

datatype rw_pc = Outside | Reading | Waiting write_wait | Writing

record rw_sys =
  rw_word :: u32
  rw_pc :: "nat \<Rightarrow> rw_pc"

definition rw_init :: rw_sys where
  "rw_init = \<lparr>rw_word = 0, rw_pc = (\<lambda>_. Outside)\<rparr>"

text \<open>
  Threads \<open>0 .. n - 1\<close>; those of the set \<open>W\<close> may write. Each rule is one turn of one thread.
\<close>

inductive rw_step :: "nat \<Rightarrow> nat set \<Rightarrow> rw_sys \<Rightarrow> rw_sys \<Rightarrow> bool" for n W where
  read_lock: "t < n \<Longrightarrow> rw_pc s t = Outside \<Longrightarrow> krwlock_read_lock_turn (rw_word s) = Inr (taken, w) \<Longrightarrow>
    rw_step n W s
      \<lparr>rw_word = w, rw_pc = (rw_pc s)(t := if taken then Reading else Outside)\<rparr>"
| read_unlock: "t < n \<Longrightarrow> rw_pc s t = Reading \<Longrightarrow> krwlock_read_unlock (rw_word s) = Inr w \<Longrightarrow>
    rw_step n W s \<lparr>rw_word = w, rw_pc = (rw_pc s)(t := Outside)\<rparr>"
| write_lock: "t < n \<Longrightarrow> t \<in> W \<Longrightarrow> rw_pc s t = Outside \<Longrightarrow>
    krwlock_write_lock_first (rw_word s) = Inr (ww, taken, w) \<Longrightarrow>
    rw_step n W s
      \<lparr>rw_word = w, rw_pc = (rw_pc s)(t := if taken then Writing else Waiting ww)\<rparr>"
| write_retry: "t < n \<Longrightarrow> rw_pc s t = Waiting ww \<Longrightarrow>
    krwlock_write_lock_again ww (rw_word s) = Inr (taken, w) \<Longrightarrow>
    rw_step n W s
      \<lparr>rw_word = w, rw_pc = (rw_pc s)(t := if taken then Writing else Waiting ww)\<rparr>"
| write_unlock: "t < n \<Longrightarrow> rw_pc s t = Writing \<Longrightarrow> krwlock_write_unlock (rw_word s) = Inr w \<Longrightarrow>
    rw_step n W s \<lparr>rw_word = w, rw_pc = (rw_pc s)(t := Outside)\<rparr>"

inductive rw_reach :: "nat \<Rightarrow> nat set \<Rightarrow> rw_sys \<Rightarrow> bool" for n W where
  init: "rw_reach n W rw_init"
| step: "rw_reach n W s \<Longrightarrow> rw_step n W s s' \<Longrightarrow> rw_reach n W s'"

section \<open>The word as its fields\<close>

definition rw_enc :: "bool \<Rightarrow> nat \<Rightarrow> bool \<Rightarrow> nat \<Rightarrow> u32" where
  "rw_enc spin r p wr =
     word_of_nat ((r + 32768 * of_bool p) + 65536 * (wr + 32768 * of_bool spin))"

text \<open>The two halves as numbers.\<close>

lemma half_bounds: "r < 32768 \<Longrightarrow> r + 32768 * of_bool p < (65536 :: nat)"
  by (cases p) auto

lemma halves:
  fixes u v :: nat
  assumes "u < 65536"
  shows "(u + 65536 * v) div 65536 = v" "(u + 65536 * v) mod 65536 = u"
    "(u + 65536 * v) div 2147483648 = v div 32768"
  using assms div_mult2_eq [of "u + 65536 * v" 65536 32768] by simp_all

lemma unat_rw_enc:
  assumes "r < 32768" "wr < 32768"
  shows "unat (rw_enc spin r p wr) = (r + 32768 * of_bool p) + 65536 * (wr + 32768 * of_bool spin)"
  unfolding rw_enc_def
  using half_bounds [OF assms(1), of p] half_bounds [OF assms(2), of spin]
  by (intro unat_of_nat_small) simp

lemma unat_ucast_up: "unat (ucast h :: u32) = unat h" for h :: u16
  by (simp add: unsigned_ucast_eq take_bit_nat_eq_self order_less_le_trans [OF unsigned_less])

lemma unat_set_lo16: "unat (set_lo16 w h) = unat w div 65536 * 65536 + unat h"
proof -
  have "set_lo16 w h = push_bit 16 (drop_bit 16 w) OR ucast h"
    by (simp add: set_lo16_def and_high_mask)
  moreover have "push_bit 16 (drop_bit 16 w) AND (ucast h :: u32) = 0"
    by (rule bit_word_eqI) (auto simp: bit_simps dest: bit_imp_le_length)
  ultimately show ?thesis
    by (simp add: unat_or_disjoint unat_push_drop unat_ucast_up)
qed

lemma unat_lo16_enc:
  assumes "r < 32768" "wr < 32768"
  shows "unat (lo16 (rw_enc spin r p wr)) = r + 32768 * of_bool p"
proof -
  have "unat (lo16 (rw_enc spin r p wr)) = unat (rw_enc spin r p wr) mod 65536"
    unfolding lo16_def unsigned_ucast_eq by (simp add: take_bit_eq_mod)
  then show ?thesis
    unfolding unat_rw_enc [OF assms] halves(2) [OF half_bounds [OF assms(1)]] .
qed

lemma set_lo16_enc:
  assumes "r < 32768" "wr < 32768" "r' < 32768" "unat h = r' + 32768 * of_bool p'"
  shows "set_lo16 (rw_enc spin r p wr) h = rw_enc spin r' p' wr"
proof (rule word_eqI_unat)
  show "unat (set_lo16 (rw_enc spin r p wr) h) = unat (rw_enc spin r' p' wr)"
    unfolding unat_set_lo16 unat_rw_enc [OF assms(1,2)] unat_rw_enc [OF assms(3,2)] assms(4)
      halves(1) [OF half_bounds [OF assms(1)]] by (simp only: ac_simps)
qed

lemma bit_enc:
  assumes "r < 32768" "wr < 32768"
  shows "bit (rw_enc spin r p wr) 31 \<longleftrightarrow> spin" "bit (rw_enc spin r p wr) 15 \<longleftrightarrow> p"
proof -
  have e: "(2 :: nat) ^ 31 = 2147483648" by simp
  have "unat (rw_enc spin r p wr) div 2 ^ 31 = (wr + 32768 * of_bool spin) div 32768"
    unfolding unat_rw_enc [OF assms] e by (rule halves(3) [OF half_bounds [OF assms(1)]])
  then show "bit (rw_enc spin r p wr) 31 \<longleftrightarrow> spin"
    using assms(2) unfolding bit_unat by (cases spin) (simp_all add: div_add_self2)
  have "bit (rw_enc spin r p wr) 15 \<longleftrightarrow> bit (lo16 (rw_enc spin r p wr)) 15"
    by (simp add: lo16_def bit_simps)
  also have "\<dots> \<longleftrightarrow> p"
    using assms(1) unfolding bit_unat unat_lo16_enc [OF assms] by (cases p) (simp_all add: div_add_self2)
  finally show "bit (rw_enc spin r p wr) 15 \<longleftrightarrow> p" .
qed

lemma set_bits_enc:
  assumes "r < 32768" "wr < 32768"
  shows "set_bit 31 (rw_enc False r p wr) = rw_enc True r p wr"
    "set_bit 15 (rw_enc spin r False wr) = rw_enc spin r True wr"
proof -
  have add: "unat (set_bit n w) = unat w + 2 ^ n" if "\<not> bit w n" "n < 32" for w :: u32 and n
  proof -
    have "w AND push_bit n 1 = 0"
      using that by (intro bit_word_eqI) (auto simp: bit_simps)
    moreover have "unat (push_bit n 1 :: u32) = 2 ^ n"
      using that by (simp add: unat_of_nat_small unsigned_push_bit_eq take_bit_nat_eq_self del: push_bit_of_1)
    ultimately show ?thesis by (simp add: set_bit_eq_or unat_or_disjoint)
  qed
  show "set_bit 31 (rw_enc False r p wr) = rw_enc True r p wr"
    by (rule word_eqI_unat, subst add) (simp_all add: bit_enc unat_rw_enc assms)
  show "set_bit 15 (rw_enc spin r False wr) = rw_enc spin r True wr"
    by (rule word_eqI_unat, subst add) (simp_all add: bit_enc unat_rw_enc assms)
qed

lemma unset_bits_enc:
  assumes "r < 32768" "wr < 32768"
  shows "unset_bit 31 (rw_enc spin r p wr) = rw_enc False r p wr"
    "unset_bit 15 (rw_enc spin r p wr) = rw_enc spin r False wr"
proof -
  have clear: "unset_bit n w = w" if "\<not> bit w n" for w :: u32 and n
    using that by (intro bit_eqI) (auto simp: bit_unset_bit_iff)
  have undo: "unset_bit n (set_bit n w) = w" if "\<not> bit w n" for w :: u32 and n
    using that by (intro bit_eqI) (auto simp: bit_unset_bit_iff bit_set_bit_iff)
  show "unset_bit 31 (rw_enc spin r p wr) = rw_enc False r p wr"
    using undo [of "rw_enc False r p wr" 31] clear [of "rw_enc False r p wr" 31] assms
    by (cases spin) (simp_all add: bit_enc set_bits_enc)
  show "unset_bit 15 (rw_enc spin r p wr) = rw_enc spin r False wr"
    using undo [of "rw_enc spin r False wr" 15] clear [of "rw_enc spin r False wr" 15] assms
    by (cases p) (simp_all add: bit_enc set_bits_enc)
qed

lemma mask_enc:
  assumes "r < 32768" "wr < 32768"
  shows "rw_enc spin r p wr AND 0x7FFF = 0 \<longleftrightarrow> r = 0"
    "rw_enc spin r p wr AND 0x7FFF0000 = 0 \<longleftrightarrow> wr = 0"
    "rw_enc spin r p wr AND 0x7FFF7FFF = 0 \<longleftrightarrow> r = 0 \<and> wr = 0"
proof -
  let ?w = "rw_enc spin r p wr"
  have "unat ?w mod 32768 = (unat ?w mod 65536) mod 32768" by (simp add: mod_mod_cancel)
  also have "\<dots> = (r + 32768 * of_bool p) mod 32768"
    unfolding unat_rw_enc [OF assms] halves(2) [OF half_bounds [OF assms(1)]] ..
  finally have lo: "take_bit 15 ?w = 0 \<longleftrightarrow> r = 0"
    using assms(1) by (simp add: take_bit_zero_iff)
  have "unat (drop_bit 16 ?w) = unat ?w div 65536"
    by (subst unat_drop_bit_eq) (simp add: drop_bit_eq_div)
  also have "\<dots> = wr + 32768 * of_bool spin"
    unfolding unat_rw_enc [OF assms] by (rule halves(1) [OF half_bounds [OF assms(1)]])
  finally have hi: "take_bit 15 (drop_bit 16 ?w) = 0 \<longleftrightarrow> wr = 0"
    using assms(2) by (simp add: take_bit_zero_iff)
  have push: "push_bit 16 (take_bit 15 v) = 0 \<longleftrightarrow> take_bit 15 v = 0" for v :: u32
  proof -
    have "drop_bit 16 (push_bit 16 (take_bit 15 v)) = take_bit 15 v"
      by (rule bit_word_eqI) (auto simp: bit_simps)
    then show ?thesis by (metis drop_bit_of_0 push_bit_of_0)
  qed
  show "?w AND 0x7FFF = 0 \<longleftrightarrow> r = 0" by (simp add: and_low_mask lo)
  show "?w AND 0x7FFF0000 = 0 \<longleftrightarrow> wr = 0" by (simp add: and_high_mask push hi)
  show "?w AND 0x7FFF7FFF = 0 \<longleftrightarrow> r = 0 \<and> wr = 0"
    by (simp add: and_high_mask or_eq_0_iff push hi lo conj_commute)
qed

section \<open>What each turn does to the fields\<close>

text \<open>The abstract lock: the counts of readers and writers and the writer-pending flag.\<close>

lemma lock_enc:
  assumes "r < 32768" "wr < 32768"
  shows "kspinlock_lock (rw_enc False r p wr) = Inr (rw_enc True r p wr)"
    "kspinlock_unlock (rw_enc spin r p wr) = rw_enc False r p wr"
  using assms by (simp_all add: kspinlock_lock_eq kspinlock_unlock_def bit_enc set_bits_enc unset_bits_enc)

lemma bit15 [simp]: "bit_word 15 = 0" "bit_pos 15 = 15"
  using small_offset [of 15] by simp_all

lemma tas15:
  "katomic_bit_test_and_set (word_string w) 15 = Inr (of_bool (bit w 15), (word_string (set_bit 15 w)))"
  by (simp add: katomic_defs bs_test_def bs_set_def word_string_def)

lemma reset15:
  "katomic_bit_reset (word_string w) 15 = Inr (word_string (unset_bit 15 w))"
  by (simp add: katomic_defs bs_reset_def word_string_def)

lemma word_string_0 [simp]: "word_string w 0 = w"
  by (simp add: word_string_def)

lemma read_try_enc:
  assumes "r < 32768" "wr < 32768"
  shows "read_try (rw_enc spin r p wr) =
    (\<not> p \<and> r + 1 < 32768, rw_enc spin (if \<not> p \<and> r + 1 < 32768 then r + 1 else r) p wr)"
proof -
  let ?w = "rw_enc spin r p wr"
  have u: "unat (lo16 ?w + 1) = (r + 32768 * of_bool p + 1) mod 65536"
    using assms by (simp add: unat_word_ariths unat_lo16_enc)
  have low: "lo16 (set_lo16 w h) = h" for w h
    by (rule bit_word_eqI) (auto simp: lo16_def set_lo16_def and_high_mask bit_simps)
  have twice: "set_lo16 (set_lo16 w h) h' = set_lo16 w h'" for w h h'
    by (rule bit_word_eqI) (auto simp: set_lo16_def and_high_mask bit_simps dest: bit_imp_le_length)
  have rt: "read_try w = (if 0 <s lo16 w + 1 then (True, set_lo16 w (lo16 w + 1))
      else (False, set_lo16 w (lo16 w)))" for w
    by (simp add: read_try_def low twice Let_def)
  show ?thesis
  proof (cases "\<not> p \<and> r + 1 < 32768")
    case True
    with u have v: "unat (lo16 ?w + 1) = (r + 1) + 32768 * of_bool p" by simp
    with True assms have "set_lo16 ?w (lo16 ?w + 1) = rw_enc spin (r + 1) p wr"
      by (intro set_lo16_enc) auto
    moreover have "0 <s lo16 ?w + 1" using True v by (simp add: positive_kint16)
    ultimately show ?thesis using True by (simp add: rt)
  next
    case False
    have "\<not> 0 <s lo16 ?w + 1"
      using False assms u by (cases p; cases "r = 32767") (auto simp: positive_kint16)
    moreover have "set_lo16 ?w (lo16 ?w) = ?w"
      by (rule set_lo16_enc) (simp_all add: assms unat_lo16_enc)
    ultimately show ?thesis using False by (auto simp: rt)
  qed
qed

lemma read_lock_enc:
  assumes "r < 32768" "wr < 32768"
  shows "krwlock_read_lock_turn (rw_enc False r p wr) =
    Inr (\<not> p \<and> r + 1 < 32768, rw_enc False (if \<not> p \<and> r + 1 < 32768 then r + 1 else r) p wr)"
  using assms by (simp add: krwlock_read_lock_turn_def lock_enc read_try_enc)

lemma read_unlock_enc:
  assumes "0 < r" "r < 32768" "wr < 32768"
  shows "krwlock_read_unlock (rw_enc False r p wr) = Inr (rw_enc False (r - 1) p wr)"
proof -
  let ?w = "rw_enc True r p wr"
  have "lo16 ?w \<noteq> 0" using assms unat_lo16_enc [of r wr True p] by (metis add_is_0 not_gr0 unsigned_0)
  then have "unat (lo16 ?w - 1) = unat (lo16 ?w) - 1" by (rule unat_minus_one)
  then have "set_lo16 ?w (lo16 ?w - 1) = rw_enc True (r - 1) p wr"
    using assms by (intro set_lo16_enc) (auto simp: unat_lo16_enc)
  then show ?thesis using assms by (simp add: krwlock_read_unlock_def lock_enc)
qed

lemma writers_enc:
  "r < 32768 \<Longrightarrow> wr + 1 < 32768 \<Longrightarrow> rw_enc spin r p wr + 0x10000 = rw_enc spin r p (wr + 1)"
  "0 < wr \<Longrightarrow> rw_enc spin r p wr - 0x10000 = rw_enc spin r p (wr - 1)"
  by (simp_all add: rw_enc_def algebra_simps of_nat_diff)

definition may_write :: "write_wait \<Rightarrow> nat \<Rightarrow> nat \<Rightarrow> bool" where
  "may_write ww r wr \<longleftrightarrow> r = 0 \<and> (ww = Wait_All \<longrightarrow> wr = 0)"

lemma write_try_enc:
  assumes "r < 32768" "wr + 1 < 32768"
  shows "write_try ww (rw_enc spin r p wr) =
    (may_write ww r wr, rw_enc spin r p (if may_write ww r wr then wr + 1 else wr))"
  using assms by (cases ww) (simp_all add: write_try_def may_write_def mask_enc writers_enc)

lemma write_first_enc:
  assumes "r < 32768" "wr + 1 < 32768"
  shows "krwlock_write_lock_first (rw_enc False r p wr) =
    (let ww = (if p then Wait_All else Wait_Readers) in
     Inr (ww, may_write ww r wr, rw_enc False r True (if may_write ww r wr then wr + 1 else wr)))"
proof -
  have "set_bit 15 (rw_enc True r p wr) = rw_enc True r True wr"
  proof (cases p)
    case True
    have "set_bit n w = w" if "bit w n" for w :: u32 and n
      using that by (intro bit_eqI) (auto simp: bit_set_bit_iff)
    with True assms show ?thesis by (simp add: bit_enc)
  qed (use assms in \<open>simp add: set_bits_enc\<close>)
  then show ?thesis
    using assms
    by (simp add: krwlock_write_lock_first_def lock_enc tas15 bit_enc write_try_enc Let_def)
qed

lemma write_again_enc:
  assumes "r < 32768" "wr + 1 < 32768"
  shows "krwlock_write_lock_again ww (rw_enc False r p wr) =
    Inr (may_write ww r wr, rw_enc False r p (if may_write ww r wr then wr + 1 else wr))"
  using assms by (simp add: krwlock_write_lock_again_def lock_enc write_try_enc)

lemma write_unlock_enc:
  assumes "r < 32768" "0 < wr" "wr < 32768"
  shows "krwlock_write_unlock (rw_enc False r p wr) = Inr (rw_enc False r (p \<and> wr \<noteq> 1) (wr - 1))"
  using assms
  by (auto simp: krwlock_write_unlock_def lock_enc writers_enc mask_enc reset15 unset_bits_enc Let_def)

lemmas turn_enc = read_lock_enc read_unlock_enc write_first_enc write_again_enc write_unlock_enc

section \<open>The abstract lock and the refinement\<close>

text \<open>
  The specification forgets the word: it knows where each thread is and whether a writer is pending.
\<close>

record rw_spec =
  sp_pc :: "nat \<Rightarrow> rw_pc"
  pending :: bool

abbreviation readers :: "nat \<Rightarrow> rw_spec \<Rightarrow> nat" where
  "readers n a \<equiv> count_at (sp_pc a) n Reading"

abbreviation writers :: "nat \<Rightarrow> rw_spec \<Rightarrow> nat" where
  "writers n a \<equiv> count_at (sp_pc a) n Writing"

abbreviation sp_wants :: "rw_spec \<Rightarrow> write_wait" where
  "sp_wants a \<equiv> (if pending a then Wait_All else Wait_Readers)"

inductive spec_step :: "nat \<Rightarrow> nat set \<Rightarrow> rw_spec \<Rightarrow> rw_spec \<Rightarrow> bool" for n W where
  read_in: "t < n \<Longrightarrow> sp_pc a t = Outside \<Longrightarrow> \<not> pending a \<Longrightarrow>
    spec_step n W a (a\<lparr>sp_pc := (sp_pc a)(t := Reading)\<rparr>)"
| read_refused: "t < n \<Longrightarrow> sp_pc a t = Outside \<Longrightarrow> pending a \<Longrightarrow> spec_step n W a a"
| read_out: "t < n \<Longrightarrow> sp_pc a t = Reading \<Longrightarrow>
    spec_step n W a (a\<lparr>sp_pc := (sp_pc a)(t := Outside)\<rparr>)"
| write_first: "t < n \<Longrightarrow> t \<in> W \<Longrightarrow> sp_pc a t = Outside \<Longrightarrow>
    spec_step n W a (a\<lparr>pending := True, sp_pc := (sp_pc a)(t :=
      if may_write (sp_wants a) (readers n a) (writers n a) then Writing
      else Waiting (sp_wants a))\<rparr>)"
| write_again: "t < n \<Longrightarrow> sp_pc a t = Waiting ww \<Longrightarrow>
    spec_step n W a (a\<lparr>sp_pc := (sp_pc a)(t :=
      if may_write ww (readers n a) (writers n a) then Writing else Waiting ww)\<rparr>)"
| write_out: "t < n \<Longrightarrow> sp_pc a t = Writing \<Longrightarrow>
    spec_step n W a (a\<lparr>pending := (pending a \<and> writers n a \<noteq> 1),
      sp_pc := (sp_pc a)(t := Outside)\<rparr>)"

inductive spec_reach :: "nat \<Rightarrow> nat set \<Rightarrow> rw_spec \<Rightarrow> bool" for n W where
  init: "spec_reach n W \<lparr>sp_pc = (\<lambda>_. Outside), pending = False\<rparr>"
| step: "spec_reach n W a \<Longrightarrow> spec_step n W a a' \<Longrightarrow> spec_reach n W a'"

text \<open>The word that represents an abstract state.\<close>

definition conc :: "nat \<Rightarrow> rw_spec \<Rightarrow> rw_sys" where
  "conc n a = \<lparr>rw_word = rw_enc False (readers n a) (pending a) (writers n a), rw_pc = sp_pc a\<rparr>"

lemma rw_step_refines:
  assumes n: "n \<le> 32767" and st: "rw_step n W (conc n a) s'"
  shows "\<exists>a'. spec_step n W a a' \<and> s' = conc n a'"
proof -
  have le: "readers n a < 32768" "writers n a < 32768"
    using n count_at_le [of "sp_pc a" n Reading] count_at_le [of "sp_pc a" n Writing] by simp_all
  have room: "writers n a + 1 < 32768" if "t < n" "sp_pc a t \<noteq> Writing" for t
    using n count_at_less [of t n "sp_pc a" Writing] that by simp
  have room': "readers n a + 1 < 32768" if "t < n" "sp_pc a t \<noteq> Reading" for t
    using n count_at_less [of t n "sp_pc a" Reading] that by simp
  from st show ?thesis
  proof (cases rule: rw_step.cases)
    case (read_lock t taken w)
    then have pc: "sp_pc a t = Outside" by (simp add: conc_def)
    with read_lock le room' [of t] have tk: "taken = (\<not> pending a)"
      and w: "w = rw_enc False (if taken then readers n a + 1 else readers n a) (pending a) (writers n a)"
      by (auto simp: conc_def turn_enc)
    show ?thesis
    proof (cases "pending a")
      case True
      with read_lock pc tk w show ?thesis
        by (intro exI [of _ a]) (simp add: conc_def spec_step.read_refused fun_upd_idem)
    next
      case False
      with read_lock pc have "spec_step n W a (a\<lparr>sp_pc := (sp_pc a)(t := Reading)\<rparr>)"
        by (simp add: spec_step.read_in)
      moreover from False read_lock pc tk w have "s' = conc n (a\<lparr>sp_pc := (sp_pc a)(t := Reading)\<rparr>)"
        by (simp add: conc_def count_at_update)
      ultimately show ?thesis by blast
    qed
  next
    case (read_unlock t w)
    then have "spec_step n W a (a\<lparr>sp_pc := (sp_pc a)(t := Outside)\<rparr>)"
      by (simp add: conc_def spec_step.read_out)
    moreover from read_unlock le have "s' = conc n (a\<lparr>sp_pc := (sp_pc a)(t := Outside)\<rparr>)"
      by (simp add: conc_def count_at_update turn_enc)
    ultimately show ?thesis by blast
  next
    case (write_lock t ww taken w)
    let ?a = "a\<lparr>pending := True, sp_pc := (sp_pc a)(t :=
      if may_write (sp_wants a) (readers n a) (writers n a) then Writing else Waiting (sp_wants a))\<rparr>"
    from write_lock have "spec_step n W a ?a"
      by (simp only: conc_def rw_sys.simps spec_step.write_first)
    moreover from write_lock le room [of t] have "s' = conc n ?a"
      by (auto simp: conc_def count_at_update turn_enc Let_def)
    ultimately show ?thesis by blast
  next
    case (write_retry t ww taken w)
    let ?a = "a\<lparr>sp_pc := (sp_pc a)(t :=
      if may_write ww (readers n a) (writers n a) then Writing else Waiting ww)\<rparr>"
    from write_retry have "spec_step n W a ?a"
      by (simp only: conc_def rw_sys.simps spec_step.write_again)
    moreover from write_retry le room [of t] have "s' = conc n ?a"
      by (auto simp: conc_def count_at_update turn_enc)
    ultimately show ?thesis by blast
  next
    case (write_unlock t w)
    let ?a = "a\<lparr>pending := (pending a \<and> writers n a \<noteq> 1), sp_pc := (sp_pc a)(t := Outside)\<rparr>"
    from write_unlock have "spec_step n W a ?a"
      by (simp only: conc_def rw_sys.simps spec_step.write_out)
    moreover from write_unlock le have "s' = conc n ?a"
      by (simp add: conc_def count_at_update turn_enc)
    ultimately show ?thesis by blast
  qed
qed

lemma conc_init: "rw_init = conc n \<lparr>sp_pc = (\<lambda>_. Outside), pending = False\<rparr>"
proof -
  have "count_at (\<lambda>_. Outside) n Reading = 0" "count_at (\<lambda>_. Outside) n Writing = 0"
    by (simp_all add: count_at_zero_iff)
  then show ?thesis by (simp add: conc_def rw_init_def rw_enc_def)
qed

lemma rw_reach_refines:
  assumes "rw_reach n W s" and "n \<le> 32767"
  shows "\<exists>a. spec_reach n W a \<and> s = conc n a"
  using assms
proof (induction rule: rw_reach.induct)
  case init
  then show ?case using conc_init spec_reach.init by blast
next
  case (step s s')
  then obtain a where "spec_reach n W a" "s = conc n a" by blast
  with step rw_step_refines show ?case by (blast intro: spec_reach.step)
qed

section \<open>Invariants of the specification\<close>

text \<open>A pending flag belongs to a writer that is in or waits.\<close>

definition pending_owned :: "nat \<Rightarrow> rw_spec \<Rightarrow> bool" where
  "pending_owned n a \<longleftrightarrow> (\<forall>t\<ge>n. sp_pc a t = Outside) \<and>
     (pending a \<longrightarrow> (\<exists>t<n. sp_pc a t \<noteq> Outside \<and> sp_pc a t \<noteq> Reading))"

lemma spec_reach_pending_owned: "spec_reach n W a \<Longrightarrow> pending_owned n a"
proof (induction rule: spec_reach.induct)
  case init
  then show ?case by (simp add: pending_owned_def)
next
  case (step a a')
  from step.hyps(2) step.IH show ?case
  proof (cases rule: spec_step.cases)
    case (read_out t)
    with step.IH show ?thesis by (simp add: pending_owned_def) metis
  next
    case (write_out t)
    show ?thesis
    proof (cases "writers n a = 1")
      case True
      with write_out step.IH show ?thesis by (simp add: pending_owned_def)
    next
      case False
      with write_out have "count_at ((sp_pc a)(t := Outside)) n Writing \<noteq> 0"
        using count_at_out(1) [of t n "sp_pc a" Writing Outside] count_at_out(2) [of t n "sp_pc a" Writing]
        by simp
      then obtain u where "u < n" "((sp_pc a)(t := Outside)) u = Writing"
        by (auto simp: count_at_zero_iff)
      then have "\<exists>u<n. ((sp_pc a)(t := Outside)) u \<noteq> Outside \<and> ((sp_pc a)(t := Outside)) u \<noteq> Reading"
        by (intro exI [of _ u]) simp
      with write_out step.IH show ?thesis by (simp add: pending_owned_def)
    qed
  qed (auto simp: pending_owned_def split: if_splits)
qed

text \<open>With one writer the flag says where the writer is, and the writer is in alone.\<close>

definition one_writer :: "nat \<Rightarrow> nat \<Rightarrow> rw_spec \<Rightarrow> bool" where
  "one_writer n w a \<longleftrightarrow>
     (\<forall>t. t \<noteq> w \<longrightarrow> sp_pc a t = Outside \<or> sp_pc a t = Reading) \<and> sp_pc a w \<noteq> Waiting Wait_All \<and>
     (pending a \<longleftrightarrow> sp_pc a w \<noteq> Outside \<and> sp_pc a w \<noteq> Reading) \<and>
     (sp_pc a w = Writing \<longrightarrow> readers n a = 0)"

lemma spec_reach_one_writer: "spec_reach n {w} a \<Longrightarrow> one_writer n w a"
proof (induction rule: spec_reach.induct)
  case init
  then show ?case by (simp add: one_writer_def)
next
  case (step a a')
  from step.hyps(2) step.IH show ?case
  proof (cases rule: spec_step.cases)
    case (read_out t)
    with step.IH count_at_out(2) [of t n "sp_pc a" Reading] show ?thesis
      by (auto simp: one_writer_def count_at_update)
  next
    case (write_out t)
    with step.IH have "t = w" by (auto simp: one_writer_def)
    moreover have "writers n a = card {w}"
      unfolding count_at_def using write_out \<open>t = w\<close> step.IH
      by (intro arg_cong [of _ _ card]) (auto simp: one_writer_def)
    ultimately show ?thesis using write_out step.IH by (auto simp: one_writer_def)
  qed (auto simp: one_writer_def count_at_update may_write_def split: if_splits)
qed

section \<open>Properties\<close>

text \<open>
  C1: the lock word implements its specification: as long as there are at most 32767 threads, every
  state of the word that the concrete turns can reach represents a state of the abstract lock that the
  abstract turns reach, with the same threads reading, waiting and writing. No count overflows into a
  neighbouring field, and no borrow crosses from one half to the other.
\<close>
theorem rwlock_refines_spec:
  assumes "rw_reach n W s" and "n \<le> 32767"
  shows "\<exists>a. spec_reach n W a \<and> rw_pc s = sp_pc a \<and>
    rw_word s = rw_enc False (readers n a) (pending a) (writers n a)"
  using rw_reach_refines [OF assms] by (auto simp: conc_def)

theorem rwlock_refines_spec_witness:
  "\<exists>a. spec_reach 2 {0} a \<and> rw_pc rw_init = sp_pc a \<and>
    rw_word rw_init = rw_enc False (readers 2 a) (pending a) (writers 2 a)"
  using rwlock_refines_spec [OF rw_reach.init, of 2 "{0}"] by simp

text \<open>
  C26: in every reachable state the low fifteen bits are the number of threads that hold the lock for
  reading and the bits from 16 up the number that hold it for writing, and when no thread holds the
  lock or waits for it the word is back at 0 (no writer leaves the pending bit behind).
\<close>
theorem rwlock_counts_exact:
  assumes "rw_reach n W s" and "n \<le> 32767"
  shows "unat (take_bit 15 (rw_word s)) = card {t. t < n \<and> rw_pc s t = Reading} \<and>
    unat (drop_bit 16 (rw_word s)) = card {t. t < n \<and> rw_pc s t = Writing} \<and>
    ((\<forall>t. rw_pc s t = Outside) \<longrightarrow> rw_word s = 0)"
proof (intro conjI)
  from rw_reach_refines [OF assms] obtain a where a: "spec_reach n W a" and s: "s = conc n a" by blast
  have le: "readers n a < 32768" "writers n a < 32768"
    using assms(2) count_at_le [of "sp_pc a" n Reading] count_at_le [of "sp_pc a" n Writing] by simp_all
  let ?w = "rw_enc False (readers n a) (pending a) (writers n a)"
  have u: "unat ?w = (readers n a + 32768 * of_bool (pending a)) + 65536 * writers n a"
    using unat_rw_enc [OF le, of False "pending a"] by simp
  have "unat (take_bit 15 ?w) = (unat ?w mod 65536) mod 32768"
    by (simp add: unat_take_bit_mod mod_mod_cancel)
  also have "\<dots> = readers n a"
    unfolding u halves(2) [OF half_bounds [OF le(1)]] using le(1) by simp
  finally show "unat (take_bit 15 (rw_word s)) = card {t. t < n \<and> rw_pc s t = Reading}"
    using s by (simp add: conc_def count_at_def)
  have "unat (drop_bit 16 ?w) = unat ?w div 65536"
    by (subst unat_drop_bit_eq) (simp add: drop_bit_eq_div)
  also have "\<dots> = writers n a"
    unfolding u by (rule halves(1) [OF half_bounds [OF le(1)]])
  finally show "unat (drop_bit 16 (rw_word s)) = card {t. t < n \<and> rw_pc s t = Writing}"
    using s by (simp add: conc_def count_at_def)
  show "(\<forall>t. rw_pc s t = Outside) \<longrightarrow> rw_word s = 0"
  proof
    assume out: "\<forall>t. rw_pc s t = Outside"
    then have "readers n a = 0" "writers n a = 0"
      using s by (simp_all add: conc_def count_at_zero_iff)
    moreover have "\<not> pending a"
      using out s spec_reach_pending_owned [OF a] by (auto simp: conc_def pending_owned_def)
    ultimately show "rw_word s = 0" using s by (simp add: conc_def rw_enc_def)
  qed
qed

text \<open>
  C7: with a single writing thread the lock does what its name says: while the writer is inside no
  thread reads, whatever the readers do and in whatever order the turns come.
\<close>
theorem rwlock_excludes_readers_of_one_writer:
  assumes "rw_reach n {w} s" and "n \<le> 32767" and "rw_pc s w = Writing"
  shows "rw_pc s t \<noteq> Reading"
proof -
  from rw_reach_refines [OF assms(1,2)] obtain a where a: "spec_reach n {w} a" and s: "s = conc n a"
    by blast
  from spec_reach_one_writer [OF a] spec_reach_pending_owned [OF a] s assms(3) show ?thesis
    by (cases "t < n") (auto simp: conc_def one_writer_def pending_owned_def count_at_zero_iff)
qed

text \<open>Turns on the words of the runs below.\<close>

lemma rw_run_turns:
  "krwlock_write_lock_first 0 = Inr (Wait_Readers, True, 0x18000)"
  "krwlock_write_lock_first 0x18000 = Inr (Wait_All, False, 0x18000)"
  "krwlock_write_unlock 0x18000 = Inr 0"
  "krwlock_write_lock_again Wait_All 0 = Inr (True, 0x10000)"
  "krwlock_read_lock_turn 0x10000 = Inr (True, 0x10001)"
  "krwlock_read_lock_turn 0 = Inr (True, 1)"
  "krwlock_write_lock_first 1 = Inr (Wait_Readers, False, 0x8001)"
  "krwlock_write_lock_first 0x8001 = Inr (Wait_All, False, 0x8001)"
  "krwlock_read_unlock 0x8001 = Inr 0x8000"
  "krwlock_write_lock_again Wait_All 0x8000 = Inr (True, 0x18000)"
  "krwlock_write_lock_again Wait_Readers 0x18000 = Inr (True, 0x28000)"
  using write_first_enc [of 0 0 False] write_first_enc [of 0 1 True] write_unlock_enc [of 0 1 True]
    write_again_enc [of 0 0 Wait_All False] read_lock_enc [of 0 1 False] read_lock_enc [of 0 0 False]
    write_first_enc [of 1 0 False] write_first_enc [of 1 0 True] read_unlock_enc [of 1 0 True]
    write_again_enc [of 0 0 Wait_All True] write_again_enc [of 0 1 Wait_Readers True]
  by (simp_all add: rw_enc_def may_write_def)

theorem rwlock_excludes_readers_of_one_writer_witness:
  "rw_pc \<lparr>rw_word = 0x18000, rw_pc = (\<lambda>_. Outside)(0 := Writing)\<rparr> 1 \<noteq> Reading"
proof -
  have "rw_step 2 {0} rw_init \<lparr>rw_word = 0x18000, rw_pc = (\<lambda>_. Outside)(0 := Writing)\<rparr>"
    using rw_step.write_lock [of 0 2 "{0}" rw_init Wait_Readers True "0x18000"]
    by (simp add: rw_init_def rw_run_turns)
  from rw_reach.step [OF rw_reach.init this]
  have "rw_reach 2 {0} \<lparr>rw_word = 0x18000, rw_pc = (\<lambda>_. Outside)(0 := Writing)\<rparr>" .
  then show ?thesis by (rule rwlock_excludes_readers_of_one_writer) simp_all
qed

theorem rwlock_counts_exact_witness:
  "unat (take_bit 15 (rw_word \<lparr>rw_word = 1, rw_pc = (\<lambda>_. Outside)(5 := Reading)\<rparr>)) =
     card {t. t < 6 \<and> rw_pc \<lparr>rw_word = 1, rw_pc = (\<lambda>_. Outside)(5 := Reading)\<rparr> t = Reading}"
proof -
  have "rw_step 6 {0} rw_init \<lparr>rw_word = 1, rw_pc = (\<lambda>_. Outside)(5 := Reading)\<rparr>"
    using rw_step.read_lock [of 5 6 rw_init True 1 "{0}"] by (simp add: rw_init_def rw_run_turns)
  from rw_reach.step [OF rw_reach.init this]
  have r: "rw_reach 6 {0} \<lparr>rw_word = 1, rw_pc = (\<lambda>_. Outside)(5 := Reading)\<rparr>" .
  have n: "(6 :: nat) \<le> 32767" by simp
  show ?thesis by (rule rwlock_counts_exact [OF r n, THEN conjunct1])
qed

text \<open>One more turn of a run.\<close>

lemma rw_run_step:
  assumes "rw_reach n W \<lparr>rw_word = v, rw_pc = f\<rparr>" and "t < n"
  shows "f t = Outside \<Longrightarrow> krwlock_read_lock_turn v = Inr (taken, w) \<Longrightarrow>
      g = f(t := if taken then Reading else Outside) \<Longrightarrow> rw_reach n W \<lparr>rw_word = w, rw_pc = g\<rparr>"
    "f t = Reading \<Longrightarrow> krwlock_read_unlock v = Inr w \<Longrightarrow>
      g = f(t := Outside) \<Longrightarrow> rw_reach n W \<lparr>rw_word = w, rw_pc = g\<rparr>"
    "f t = Outside \<Longrightarrow> t \<in> W \<Longrightarrow> krwlock_write_lock_first v = Inr (ww, taken, w) \<Longrightarrow>
      g = f(t := if taken then Writing else Waiting ww) \<Longrightarrow> rw_reach n W \<lparr>rw_word = w, rw_pc = g\<rparr>"
    "f t = Waiting ww \<Longrightarrow> krwlock_write_lock_again ww v = Inr (taken, w) \<Longrightarrow>
      g = f(t := if taken then Writing else Waiting ww) \<Longrightarrow> rw_reach n W \<lparr>rw_word = w, rw_pc = g\<rparr>"
    "f t = Writing \<Longrightarrow> krwlock_write_unlock v = Inr w \<Longrightarrow>
      g = f(t := Outside) \<Longrightarrow> rw_reach n W \<lparr>rw_word = w, rw_pc = g\<rparr>"
proof -
  note go = rw_reach.step [OF assms(1)]
  show "f t = Outside \<Longrightarrow> krwlock_read_lock_turn v = Inr (taken, w) \<Longrightarrow>
      g = f(t := if taken then Reading else Outside) \<Longrightarrow> rw_reach n W \<lparr>rw_word = w, rw_pc = g\<rparr>"
    using go [OF rw_step.read_lock [OF assms(2)]] by simp
  show "f t = Reading \<Longrightarrow> krwlock_read_unlock v = Inr w \<Longrightarrow>
      g = f(t := Outside) \<Longrightarrow> rw_reach n W \<lparr>rw_word = w, rw_pc = g\<rparr>"
    using go [OF rw_step.read_unlock [OF assms(2)]] by simp
  show "f t = Outside \<Longrightarrow> t \<in> W \<Longrightarrow> krwlock_write_lock_first v = Inr (ww, taken, w) \<Longrightarrow>
      g = f(t := if taken then Writing else Waiting ww) \<Longrightarrow> rw_reach n W \<lparr>rw_word = w, rw_pc = g\<rparr>"
    using go [OF rw_step.write_lock [OF assms(2)]] by simp
  show "f t = Waiting ww \<Longrightarrow> krwlock_write_lock_again ww v = Inr (taken, w) \<Longrightarrow>
      g = f(t := if taken then Writing else Waiting ww) \<Longrightarrow> rw_reach n W \<lparr>rw_word = w, rw_pc = g\<rparr>"
    using go [OF rw_step.write_retry [OF assms(2)]] by simp
  show "f t = Writing \<Longrightarrow> krwlock_write_unlock v = Inr w \<Longrightarrow>
      g = f(t := Outside) \<Longrightarrow> rw_reach n W \<lparr>rw_word = w, rw_pc = g\<rparr>"
    using go [OF rw_step.write_unlock [OF assms(2)]] by simp
qed

text \<open>
  C35: with two writing threads the lock does not exclude. There is a run of three threads at whose end
  one thread writes while another reads (the first writer's release clears the pending bit although
  the second is waiting, which then comes in without setting it), and a run at whose end two threads
  write at once (a writer that found the bit clear waits for the readers only).
\<close>
theorem rwlock_two_writers_not_exclusive:
  "(\<exists>s. rw_reach 5 {2, 3} s \<and> rw_pc s 3 = Writing \<and> rw_pc s 4 = Reading) \<and>
   (\<exists>s. rw_reach 5 {2, 3} s \<and> rw_pc s 2 = Writing \<and> rw_pc s 3 = Writing)"
proof (rule conjI)
  let ?o = "\<lambda>_ :: nat. Outside"
  let ?R = "\<lambda>w f. rw_reach 5 {2, 3} \<lparr>rw_word = w, rw_pc = f\<rparr>"
  have start: "?R 0 ?o" using rw_reach.init by (simp add: rw_init_def)
  have "?R 0x18000 (?o(2 := Writing))"
    by (rule rw_run_step(3) [OF start _ _ _ rw_run_turns(1), of 2]) simp_all
  then have "?R 0x18000 (?o(2 := Writing, 3 := Waiting Wait_All))"
    by (rule rw_run_step(3) [OF _ _ _ _ rw_run_turns(2), of _ _ _ 3]) simp_all
  then have "?R 0 (?o(2 := Writing, 3 := Waiting Wait_All, 2 := Outside))"
    by (rule rw_run_step(5) [OF _ _ _ rw_run_turns(3), of _ _ _ 2]) simp_all
  then have "?R 0x10000 (?o(2 := Writing, 3 := Waiting Wait_All, 2 := Outside, 3 := Writing))"
    by (rule rw_run_step(4) [OF _ _ _ rw_run_turns(4), of _ _ _ 3]) simp_all
  then have "?R 0x10001 (?o(2 := Writing, 3 := Waiting Wait_All, 2 := Outside, 3 := Writing, 4 := Reading))"
    by (rule rw_run_step(1) [OF _ _ _ rw_run_turns(5), of _ _ _ 4]) simp_all
  then show "\<exists>s. rw_reach 5 {2, 3} s \<and> rw_pc s 3 = Writing \<and> rw_pc s 4 = Reading"
    by fastforce
  have "?R 1 (?o(4 := Reading))"
    by (rule rw_run_step(1) [OF start _ _ rw_run_turns(6), of 4]) simp_all
  then have "?R 0x8001 (?o(4 := Reading, 2 := Waiting Wait_Readers))"
    by (rule rw_run_step(3) [OF _ _ _ _ rw_run_turns(7), of _ _ _ 2]) simp_all
  then have "?R 0x8001 (?o(4 := Reading, 2 := Waiting Wait_Readers, 3 := Waiting Wait_All))"
    by (rule rw_run_step(3) [OF _ _ _ _ rw_run_turns(8), of _ _ _ 3]) simp_all
  then have "?R 0x8000 (?o(4 := Reading, 2 := Waiting Wait_Readers, 3 := Waiting Wait_All, 4 := Outside))"
    by (rule rw_run_step(2) [OF _ _ _ rw_run_turns(9), of _ _ _ 4]) simp_all
  then have "?R 0x18000 (?o(4 := Reading, 2 := Waiting Wait_Readers, 3 := Waiting Wait_All,
      4 := Outside, 3 := Writing))"
    by (rule rw_run_step(4) [OF _ _ _ rw_run_turns(10), of _ _ _ 3]) simp_all
  then have "?R 0x28000 (?o(4 := Reading, 2 := Waiting Wait_Readers, 3 := Waiting Wait_All,
      4 := Outside, 3 := Writing, 2 := Writing))"
    by (rule rw_run_step(4) [OF _ _ _ rw_run_turns(11), of _ _ _ 2]) simp_all
  then show "\<exists>s. rw_reach 5 {2, 3} s \<and> rw_pc s 2 = Writing \<and> rw_pc s 3 = Writing"
    by fastforce
qed

end
