(* ===== verification/Machine.thy ===== *)
theory Machine
  imports Prelude
begin

unbundle bit_operations_syntax

text \<open>
  The processor state that \<^verbatim>\<open>arch/ia32/memory.c\<close> works on: byte addressed memory, the page table walk
  of the memory management unit, and the loads and stores of the kernel, which go through it once
  paging is enabled.
\<close>

section \<open>Little endian words in byte memory\<close>

type_synonym bytes = "u32 \<Rightarrow> u8"

definition word_of_bytes :: "u8 \<Rightarrow> u8 \<Rightarrow> u8 \<Rightarrow> u8 \<Rightarrow> u32" where
  "word_of_bytes b0 b1 b2 b3 =
     ucast b0 OR push_bit 8 (ucast b1) OR push_bit 16 (ucast b2) OR push_bit 24 (ucast b3)"

definition load32 :: "bytes \<Rightarrow> u32 \<Rightarrow> u32" where
  "load32 m a = word_of_bytes (m a) (m (a + 1)) (m (a + 2)) (m (a + 3))"

definition store32 :: "bytes \<Rightarrow> u32 \<Rightarrow> u32 \<Rightarrow> bytes" where
  "store32 m a v =
     m(a := ucast v, a + 1 := ucast (drop_bit 8 v), a + 2 := ucast (drop_bit 16 v),
       a + 3 := ucast (drop_bit 24 v))"

lemma less32_cases:
  "(n :: nat) < 32 \<Longrightarrow> n < 8 \<or> (8 \<le> n \<and> n < 16) \<or> (16 \<le> n \<and> n < 24) \<or> (24 \<le> n \<and> n < 32)"
  by arith

lemma load32_store32 [simp]: "load32 (store32 m a v) a = v"
proof (rule bit_word_eqI)
  fix n assume "n < LENGTH(32)"
  then show "bit (load32 (store32 m a v) a) n = bit v n"
    using less32_cases [of n] by (auto simp: load32_def store32_def word_of_bytes_def bit_simps)
qed

lemma load32_zero [simp]: "load32 (\<lambda>_. 0) a = 0"
  by (simp add: load32_def word_of_bytes_def)

text \<open>Two words do not overlap.\<close>

definition apart :: "u32 \<Rightarrow> u32 \<Rightarrow> bool" where
  "apart a b \<longleftrightarrow> 4 \<le> b - a \<and> 4 \<le> a - b"

lemma apart_neq: "apart a b \<Longrightarrow> i < 4 \<Longrightarrow> j < 4 \<Longrightarrow> b + j \<noteq> a + i"
proof
  assume h: "apart a b" "i < 4" "j < 4" and e: "b + j = a + i"
  from e have 1: "b - a = i - j" and 2: "a - b = j - i" by (simp_all add: algebra_simps)
  from h 1 2 show False unfolding apart_def by unat_arith
qed

lemma store32_other_byte:
  "b \<noteq> a \<Longrightarrow> b \<noteq> a + 1 \<Longrightarrow> b \<noteq> a + 2 \<Longrightarrow> b \<noteq> a + 3 \<Longrightarrow> store32 m a v b = m b"
  by (simp add: store32_def)

lemma load32_store32_apart:
  assumes "apart a b"
  shows "load32 (store32 m a v) b = load32 m b"
proof -
  have "store32 m a v (b + j) = m (b + j)" if "j < 4" for j
    using apart_neq [OF assms _ that, of 0] apart_neq [OF assms _ that, of 1]
      apart_neq [OF assms _ that, of 2] apart_neq [OF assms _ that, of 3]
    by (intro store32_other_byte) simp_all
  from this [of 0] this [of 1] this [of 2] this [of 3] show ?thesis
    by (simp add: load32_def)
qed

section \<open>Pages\<close>

abbreviation page_base :: "u32 \<Rightarrow> u32" where
  "page_base a \<equiv> a AND 0xFFFFF000"

definition page_aligned :: "u32 \<Rightarrow> bool" where
  "page_aligned p \<longleftrightarrow> unat p mod 4096 = 0"

text \<open>The address of the entry \<open>i\<close> of a table of words that starts at \<open>p\<close>.\<close>

abbreviation entry_at :: "u32 \<Rightarrow> u32 \<Rightarrow> u32" where
  "entry_at p i \<equiv> p + 4 * i"

lemma unat_page_base: "unat (page_base a) = unat a div 4096 * 4096"
  by (simp add: and_high_mask unat_push_drop)

lemma page_aligned_base [simp, intro]: "page_aligned (page_base a)"
  by (simp add: page_aligned_def unat_page_base)

lemma page_aligned_0 [simp]: "page_aligned 0"
  by (simp add: page_aligned_def)

lemma page_base_aligned: "page_aligned p \<Longrightarrow> page_base p = p"
  by (intro word_eqI_unat) (auto simp: page_aligned_def unat_page_base)

lemma unat_entry_at:
  assumes "page_aligned p" and "i < 1024"
  shows "unat (entry_at p i) = unat p + 4 * unat i"
proof -
  have i: "unat i < 1024" using assms(2) by (simp add: word_less_nat_alt)
  then have "unat (4 * i) = 4 * unat i" by (simp add: unat_word_ariths)
  moreover have "unat p + 4 * unat i < 4294967296"
  proof -
    from unat_u32_less [of p] have "unat p div 4096 < 1048576" by simp
    moreover have "unat p = 4096 * (unat p div 4096)"
      using assms(1) by (auto simp: page_aligned_def)
    ultimately show ?thesis using i by linarith
  qed
  ultimately show ?thesis by (simp add: unat_word_ariths)
qed

lemma entry_at_inj:
  assumes "page_aligned p" "page_aligned q" "i < 1024" "j < 1024" "entry_at p i = entry_at q j"
  shows "p = q \<and> i = j"
proof -
  have i: "unat i < 1024" "unat j < 1024" using assms(3,4) by (simp_all add: word_less_nat_alt)
  have eq: "unat p + 4 * unat i = unat q + 4 * unat j"
    using assms unat_entry_at by metis
  then have "(unat p + 4 * unat i) div 4096 = (unat q + 4 * unat j) div 4096" by simp
  moreover obtain k l where k: "unat p = 4096 * k" and l: "unat q = 4096 * l"
    using assms(1,2) by (auto simp: page_aligned_def dvd_def)
  ultimately have "k = l" using i by simp
  with eq k l show ?thesis by (simp add: word_unat_eq_iff)
qed

lemma unat_entry_mod4:
  assumes "page_aligned p" "i < 1024"
  shows "\<exists>k. unat (entry_at p i) = 4 * k"
proof -
  obtain k where "unat p = 4096 * k" using assms(1) by (auto simp: page_aligned_def dvd_def)
  then have "unat (entry_at p i) = 4 * (1024 * k + unat i)"
    using unat_entry_at [OF assms] by simp
  then show ?thesis by blast
qed

lemma entry_apart:
  assumes "page_aligned p" "page_aligned q" "i < 1024" "j < 1024" "p \<noteq> q \<or> i \<noteq> j"
  shows "apart (entry_at p i) (entry_at q j)"
proof -
  let ?a = "entry_at p i" and ?b = "entry_at q j"
  have ne: "?a \<noteq> ?b" using entry_at_inj [OF assms(1-4)] assms(5) by blast
  have dist: "4 \<le> y - x" if xy: "\<exists>k. unat x = 4 * k" "\<exists>k. unat y = 4 * k" "x \<noteq> y" for x y :: u32
  proof -
    from xy obtain k l where k: "unat x = 4 * k" and l: "unat y = 4 * l" by blast
    with xy(3) have ne: "k \<noteq> l" by (auto simp: word_unat_eq_iff)
    have "unat (y - x) = (if k \<le> l then 4 * l - 4 * k else 4 * l + 4294967296 - 4 * k)"
      using k l by (simp add: unat_sub_if')
    moreover have "4 * k < 4294967296" using unat_u32_less [of x] k by simp
    ultimately have "4 \<le> unat (y - x)" using ne by (auto split: if_splits)
    then show ?thesis by (simp add: word_le_nat_alt)
  qed
  note a = unat_entry_mod4 [OF assms(1,3)] and b = unat_entry_mod4 [OF assms(2,4)]
  show ?thesis unfolding apart_def using dist [OF a b] dist [OF b a] ne by metis
qed

lemma load_store_entry:
  assumes "page_aligned p" "page_aligned q" "i < 1024" "j < 1024"
  shows "load32 (store32 m (entry_at p i) v) (entry_at q j) =
    (if p = q \<and> i = j then v else load32 m (entry_at q j))"
  using load32_store32_apart [OF entry_apart [OF assms]] by auto

text \<open>The indices the code takes out of an address, and the offset in the page.\<close>

definition dir_index :: "u32 \<Rightarrow> u32" where
  "dir_index a = drop_bit 22 a"

definition table_index :: "u32 \<Rightarrow> u32" where
  "table_index a = drop_bit 22 (push_bit 10 a)"

lemma unat_dir_index: "unat (dir_index a) = unat a div 4194304"
  unfolding dir_index_def by (subst unat_drop_bit_eq) (simp add: drop_bit_eq_div)

lemma table_index_eq: "table_index a = take_bit 10 (drop_bit 12 a)"
  unfolding table_index_def by (rule bit_word_eqI) (auto simp: bit_simps)

lemma unat_table_index: "unat (table_index a) = unat a div 4096 mod 1024"
  unfolding table_index_eq unat_take_bit_mod
  by (subst unat_drop_bit_eq) (simp add: drop_bit_eq_div)

lemma index_less [simp]: "dir_index a < 1024" "table_index a < 1024"
  using unat_u32_less [of a]
  by (simp_all add: word_less_nat_alt unat_dir_index unat_table_index)

text \<open>An address is its two indices and its offset.\<close>

lemma same_page_iff:
  "dir_index a = dir_index b \<and> table_index a = table_index b \<longleftrightarrow> page_base a = page_base b"
proof -
  have dir: "unat x div 4194304 = unat x div 4096 div 1024" for x :: u32
    using div_mult2_eq [of "unat x" 4096 1024] by simp
  have "m div 1024 = n div 1024 \<and> m mod 1024 = n mod 1024 \<longleftrightarrow> m = n" for m n :: nat
    by (metis mult_div_mod_eq)
  then have "dir_index a = dir_index b \<and> table_index a = table_index b \<longleftrightarrow>
      unat a div 4096 = unat b div 4096"
    by (simp add: word_unat_eq_iff unat_dir_index unat_table_index dir)
  then show ?thesis by (simp add: word_unat_eq_iff unat_page_base)
qed

section \<open>The memory management unit\<close>

record machine =
  ram :: bytes
  cr3 :: u32
  paging :: bool

text \<open>
  The two level walk of an ia32 without large pages: the page directory entry, then the page table
  entry, each with its present bit (bit 0). Supervisor accesses ignore the other permission bits.
\<close>

definition walk :: "bytes \<Rightarrow> u32 \<Rightarrow> u32 \<Rightarrow> u32 option" where
  "walk m dir va =
     (let pde = load32 m (entry_at (page_base dir) (dir_index va)) in
      if \<not> bit pde 0 then None
      else let pte = load32 m (entry_at (page_base pde) (table_index va)) in
        if \<not> bit pte 0 then None else Some (page_base pte OR (va AND 0xFFF)))"

definition translate :: "('a) machine_scheme \<Rightarrow> u32 \<Rightarrow> u32 option" where
  "translate s va = (if paging s then walk (ram s) (cr3 s) va else Some va)"

definition phys :: "('a) machine_scheme \<Rightarrow> u32 \<Rightarrow> stop + u32" where
  "phys s va = (case translate s va of None \<Rightarrow> Inl (Page_Fault va) | Some p \<Rightarrow> Inr p)"

text \<open>
  Byte and word accesses. A word access translates each of its bytes and faults before it changes
  anything.
\<close>

definition rd8 :: "('a) machine_scheme \<Rightarrow> u32 \<Rightarrow> stop + u8" where
  "rd8 s a = andthen (phys s a) (\<lambda>p. Inr (ram s p))"

definition wr8 :: "u32 \<Rightarrow> u8 \<Rightarrow> ('a) machine_scheme \<Rightarrow> stop + ('a) machine_scheme" where
  "wr8 a v s = andthen (phys s a) (\<lambda>p. Inr (s\<lparr>ram := (ram s)(p := v)\<rparr>))"

definition rd32 :: "('a) machine_scheme \<Rightarrow> u32 \<Rightarrow> stop + u32" where
  "rd32 s a =
     andthen (rd8 s a) (\<lambda>b0. andthen (rd8 s (a + 1)) (\<lambda>b1.
     andthen (rd8 s (a + 2)) (\<lambda>b2. andthen (rd8 s (a + 3)) (\<lambda>b3.
       Inr (word_of_bytes b0 b1 b2 b3)))))"

definition wr32 :: "u32 \<Rightarrow> u32 \<Rightarrow> ('a) machine_scheme \<Rightarrow> stop + ('a) machine_scheme" where
  "wr32 a v s =
     andthen (phys s a) (\<lambda>p0. andthen (phys s (a + 1)) (\<lambda>p1.
     andthen (phys s (a + 2)) (\<lambda>p2. andthen (phys s (a + 3)) (\<lambda>p3.
       Inr (s\<lparr>ram := (ram s)(p0 := ucast v, p1 := ucast (drop_bit 8 v),
         p2 := ucast (drop_bit 16 v), p3 := ucast (drop_bit 24 v))\<rparr>)))))"

definition half_of_bytes :: "u8 \<Rightarrow> u8 \<Rightarrow> u16" where
  "half_of_bytes b0 b1 = ucast b0 OR push_bit 8 (ucast b1)"

definition rd16 :: "('a) machine_scheme \<Rightarrow> u32 \<Rightarrow> stop + u16" where
  "rd16 s a = andthen (rd8 s a) (\<lambda>b0. andthen (rd8 s (a + 1)) (\<lambda>b1.
     Inr (half_of_bytes b0 b1)))"

definition wr16 :: "u32 \<Rightarrow> u16 \<Rightarrow> ('a) machine_scheme \<Rightarrow> stop + ('a) machine_scheme" where
  "wr16 a v s =
     andthen (phys s a) (\<lambda>p0. andthen (phys s (a + 1)) (\<lambda>p1.
       Inr (s\<lparr>ram := (ram s)(p0 := ucast v, p1 := ucast (drop_bit 8 v))\<rparr>)))"

text \<open>\<^verbatim>\<open>rep stosl\<close> with a zero \<open>eax\<close>: \<open>n\<close> words from \<open>a\<close> on.\<close>

primrec rep_stosl :: "nat \<Rightarrow> u32 \<Rightarrow> ('a) machine_scheme \<Rightarrow> stop + ('a) machine_scheme" where
  "rep_stosl 0 a s = Inr s"
| "rep_stosl (Suc n) a s = andthen (wr32 a 0 s) (\<lambda>s1. rep_stosl n (a + 4) s1)"

section \<open>Aligned accesses\<close>

definition word_aligned :: "u32 \<Rightarrow> bool" where
  "word_aligned a \<longleftrightarrow> (\<exists>k. unat a = 4 * k)"

lemma entry_aligned [simp, intro]: "page_aligned p \<Longrightarrow> i < 1024 \<Longrightarrow> word_aligned (entry_at p i)"
  unfolding word_aligned_def by (rule unat_entry_mod4)

lemma page_word_aligned [simp, intro]: "page_aligned p \<Longrightarrow> word_aligned p"
  using entry_aligned [of p 0] by simp

lemma unat_low12: "unat (a AND 0xFFF) = unat a mod 4096" for a :: u32
  by (simp add: and_low_mask unat_take_bit_mod)

lemma within_word:
  assumes "word_aligned a" "unat i < 4"
  shows "page_base (a + i) = page_base a" "(a + i) AND 0xFFF = (a AND 0xFFF) + i"
proof -
  from assms obtain k where k: "unat a = 4 * k" by (auto simp: word_aligned_def)
  have "4 * k < 4294967296" using unat_u32_less [of a] k by simp
  then have "k < 1073741824" by simp
  then have u: "unat (a + i) = 4 * k + unat i"
    using assms(2) k by (simp add: unat_word_ariths)
  have d: "(4 * k + unat i) div 4 = k" "(4 * k + unat i) mod 4 = unat i" "4 * k div 4 = k"
    using assms(2) by simp_all
  have q: "(4 * k + unat i) div 4096 = k div 1024" "4 * k div 4096 = k div 1024"
    using div_mult2_eq [of "4 * k + unat i" 4 1024] div_mult2_eq [of "4 * k" 4 1024] d by simp_all
  have k4: "(4 * k + unat i) mod 4096 = 4 * (k mod 1024) + unat i" "4 * k mod 4096 = 4 * (k mod 1024)"
    using mod_mult2_eq [of "4 * k + unat i" 4 1024] mod_mult2_eq [of "4 * k" 4 1024] d by simp_all
  show "page_base (a + i) = page_base a"
    by (simp add: word_unat_eq_iff unat_page_base u k q k4)
  have "unat ((a AND 0xFFF) + i) = 4 * (k mod 1024) + unat i"
  proof -
    have "unat (a AND 0xFFF) = 4 * (k mod 1024)" by (simp add: unat_low12 k k4)
    moreover have "k mod 1024 < 1024" by simp
    ultimately show ?thesis using assms(2) by (simp add: unat_word_ariths)
  qed
  then show "(a + i) AND 0xFFF = (a AND 0xFFF) + i"
    by (simp add: word_unat_eq_iff unat_low12 u k4)
qed

lemma base_or_offset: "page_base p OR (x AND 0xFFF) = page_base p + (x AND 0xFFF)" for p x :: u32
proof -
  have "page_base p AND (x AND 0xFFF) = 0"
    unfolding and_high_mask and_low_mask by (rule bit_word_eqI) (auto simp: bit_simps)
  then show ?thesis by (simp add: disjunctive_add_eq_or)
qed

lemma translate_within_word:
  assumes "word_aligned a" "unat i < 4" "translate s a = Some p"
  shows "translate s (a + i) = Some (p + i)"
proof (cases "paging s")
  case True
  note w = within_word [OF assms(1,2)]
  have "dir_index (a + i) = dir_index a" "table_index (a + i) = table_index a"
    using same_page_iff [of "a + i" a] w(1) by simp_all
  then have "walk (ram s) (cr3 s) (a + i) = map_option (\<lambda>p. p + i) (walk (ram s) (cr3 s) a)"
    unfolding walk_def Let_def base_or_offset by (simp add: w(2) add.assoc)
  with assms(3) True show ?thesis by (simp add: translate_def)
qed (use assms(3) in \<open>simp add: translate_def\<close>)

lemma rd32_aligned:
  assumes "word_aligned a" "translate s a = Some p"
  shows "rd32 s a = Inr (load32 (ram s) p)"
  using translate_within_word [OF assms(1) _ assms(2), of 1] assms(2)
    translate_within_word [OF assms(1) _ assms(2), of 2] translate_within_word [OF assms(1) _ assms(2), of 3]
  by (simp add: rd32_def rd8_def phys_def load32_def)

lemma wr32_aligned:
  assumes "word_aligned a" "translate s a = Some p"
  shows "wr32 a v s = Inr (s\<lparr>ram := store32 (ram s) p v\<rparr>)"
  using translate_within_word [OF assms(1) _ assms(2), of 1] assms(2)
    translate_within_word [OF assms(1) _ assms(2), of 2] translate_within_word [OF assms(1) _ assms(2), of 3]
  by (simp add: wr32_def phys_def store32_def)

text \<open>Before paging is on, an address is its own translation.\<close>

lemma unpaged_access:
  assumes "\<not> paging s"
  shows "rd32 s a = Inr (load32 (ram s) a)" "wr32 a v s = Inr (s\<lparr>ram := store32 (ram s) a v\<rparr>)"
  using assms by (simp_all add: rd32_def rd8_def wr32_def phys_def translate_def load32_def store32_def)

text \<open>A page that the kernel reaches at its own address.\<close>

definition identity_mapped :: "('a) machine_scheme \<Rightarrow> u32 \<Rightarrow> bool" where
  "identity_mapped s p \<longleftrightarrow> page_aligned p \<and> (\<forall>a. page_base a = p \<longrightarrow> translate s a = Some a)"

lemma entry_page:
  assumes "page_aligned p" "i < 1024"
  shows "page_base (entry_at p i) = p"
proof -
  have "unat i < 1024" using assms(2) by (simp add: word_less_nat_alt)
  moreover obtain k where "unat p = 4096 * k" using assms(1) by (auto simp: page_aligned_def dvd_def)
  ultimately show ?thesis
    by (simp add: word_unat_eq_iff unat_page_base unat_entry_at [OF assms])
qed

lemma identity_access:
  assumes "identity_mapped s p" "i < 1024"
  shows "rd32 s (entry_at p i) = Inr (load32 (ram s) (entry_at p i))"
    "wr32 (entry_at p i) v s = Inr (s\<lparr>ram := store32 (ram s) (entry_at p i) v\<rparr>)"
proof -
  have p: "page_aligned p" and t: "translate s (entry_at p i) = Some (entry_at p i)"
    using assms entry_page by (auto simp: identity_mapped_def)
  show "rd32 s (entry_at p i) = Inr (load32 (ram s) (entry_at p i))"
    "wr32 (entry_at p i) v s = Inr (s\<lparr>ram := store32 (ram s) (entry_at p i) v\<rparr>)"
    using rd32_aligned [OF _ t] wr32_aligned [OF _ t] p assms(2) by auto
qed

lemma identity_mapped_unpaged: "\<not> paging s \<Longrightarrow> page_aligned p \<Longrightarrow> identity_mapped s p"
  by (simp add: identity_mapped_def translate_def)

section \<open>What a store does to the walk\<close>

lemma walk_store_other:
  assumes "page_aligned q" "j < 1024"
    and "q \<noteq> page_base dir \<or> j \<noteq> dir_index va"
    and "q \<noteq> page_base (load32 m (entry_at (page_base dir) (dir_index va))) \<or> j \<noteq> table_index va"
  shows "walk (store32 m (entry_at q j) v) dir va = walk m dir va"
  using assms by (auto simp: walk_def Let_def load_store_entry)

lemma walk_store_entry:
  assumes "bit (load32 m (entry_at (page_base dir) (dir_index va))) 0"
    and "page_base (load32 m (entry_at (page_base dir) (dir_index va))) \<noteq> page_base dir"
  shows "walk (store32 m (entry_at (page_base (load32 m (entry_at (page_base dir) (dir_index va))))
      (table_index va)) v) dir va = (if bit v 0 then Some (page_base v OR (va AND 0xFFF)) else None)"
  using assms by (auto simp: walk_def Let_def load_store_entry)

section \<open>Clearing a page\<close>

lemma walk_cong:
  assumes "\<And>a. page_base a = page_base dir \<Longrightarrow> m' a = m a"
    and "\<And>a. page_base a = page_base (load32 m (entry_at (page_base dir) (dir_index va))) \<Longrightarrow> m' a = m a"
  shows "walk m' dir va = walk m dir va"
proof -
  have same: "load32 m' (entry_at q i) = load32 m (entry_at q i)"
    if "\<And>a. page_base a = q \<Longrightarrow> m' a = m a" "page_aligned q" "i < 1024" for q i
  proof -
    have "page_base (entry_at q i + j) = q" if "unat j < 4" for j
      using within_word(1) [OF entry_aligned that] entry_page \<open>page_aligned q\<close> \<open>i < 1024\<close> by simp
    from this [of 0] this [of 1] this [of 2] this [of 3] that(1) show ?thesis
      by (simp add: load32_def)
  qed
  show ?thesis
    unfolding walk_def Let_def
    using same [of "page_base dir" "dir_index va"]
      same [of "page_base (load32 m (entry_at (page_base dir) (dir_index va)))" "table_index va"] assms
    by simp
qed

text \<open>\<open>m\<close> with the first \<open>k\<close> words from \<open>f\<close> on set to zero.\<close>

definition zeroed :: "bytes \<Rightarrow> u32 \<Rightarrow> nat \<Rightarrow> bytes" where
  "zeroed m f k = (\<lambda>a. if unat (a - f) < 4 * k then 0 else m a)"

lemma zeroed_0 [simp]: "zeroed m f 0 = m"
  by (simp add: zeroed_def)

lemma zeroed_Suc:
  assumes "k < 1024"
  shows "store32 (zeroed m f k) (f + 4 * word_of_nat k) 0 = zeroed m f (Suc k)"
proof
  fix a
  have u: "unat (4 * word_of_nat k + j :: u32) = 4 * k + unat j" if "unat j < 4" for j
    using assms that by (simp add: unat_word_ariths unat_of_nat_small)
  have eq: "a = f + 4 * word_of_nat k + j \<longleftrightarrow> unat (a - f) = 4 * k + unat j" if "unat j < 4" for j
  proof -
    have "a = f + 4 * word_of_nat k + j \<longleftrightarrow> a - f = 4 * word_of_nat k + j"
      by (auto simp: algebra_simps)
    then show ?thesis using u [OF that] by (simp add: word_unat_eq_iff)
  qed
  have "unat (a - f) < 4 * Suc k \<longleftrightarrow> unat (a - f) < 4 * k \<or> unat (a - f) = 4 * k \<or>
      unat (a - f) = 4 * k + 1 \<or> unat (a - f) = 4 * k + 2 \<or> unat (a - f) = 4 * k + 3" by auto
  then show "store32 (zeroed m f k) (f + 4 * word_of_nat k) 0 a = zeroed m f (Suc k) a"
    using eq [of 0] eq [of 1] eq [of 2] eq [of 3]
    by (auto simp: store32_def zeroed_def)
qed

lemma page_base_diff:
  assumes "page_aligned f"
  shows "page_base a = f \<longleftrightarrow> unat (a - f) < 4096"
proof
  assume "page_base a = f"
  then have "unat f = unat a div 4096 * 4096" using unat_page_base [of a] by simp
  then have "unat f \<le> unat a" "unat a - unat f < 4096" by (auto simp: minus_div_mult_eq_mod)
  then show "unat (a - f) < 4096" by (simp add: unat_sub_if')
next
  assume d: "unat (a - f) < 4096"
  obtain k where k: "unat f = 4096 * k" using assms by (auto simp: page_aligned_def dvd_def)
  have "4096 * k < 4294967296" using unat_u32_less [of f] k by simp
  then have "k < 1048576" by simp
  then have "unat f + unat (a - f) < 4294967296" using d k by linarith
  moreover have "a = f + (a - f)" by simp
  ultimately have "unat a = unat f + unat (a - f)"
    using unat_word_ariths(1) [of f "a - f"] by simp
  with d k show "page_base a = f" by (simp add: word_unat_eq_iff unat_page_base)
qed

lemma entry_offset:
  assumes "page_aligned p" "i < 1024"
  shows "entry_at p i AND 0xFFF = 4 * i"
proof -
  have "unat i < 1024" using assms(2) by (simp add: word_less_nat_alt)
  moreover obtain k where "unat p = 4096 * k" using assms(1) by (auto simp: page_aligned_def dvd_def)
  ultimately have "unat (entry_at p i AND 0xFFF) = 4 * unat i" "unat (4 * i) = 4 * unat i"
    unfolding unat_low12 unat_entry_at [OF assms] by (simp_all add: unat_word_ariths)
  then show ?thesis by (simp add: word_unat_eq_iff)
qed

text \<open>
  \<^verbatim>\<open>clear_pages\<close> of one page that is mapped to the frame \<open>f\<close>, whatever the contents of \<open>f\<close>.
\<close>

lemma rep_stosl_page:
  assumes "page_aligned p" "page_aligned f"
    and tr: "\<And>m a. (\<And>x. page_base x \<noteq> f \<Longrightarrow> m x = ram s x) \<Longrightarrow> page_base a = p \<Longrightarrow>
      translate (s\<lparr>ram := m\<rparr>) a = Some (f OR (a AND 0xFFF))"
  shows "rep_stosl 1024 p s = Inr (s\<lparr>ram := \<lambda>a. if page_base a = f then 0 else ram s a\<rparr>)"
proof -
  have "rep_stosl n (entry_at p (word_of_nat k)) (s\<lparr>ram := zeroed (ram s) f k\<rparr>) =
      Inr (s\<lparr>ram := zeroed (ram s) f 1024\<rparr>)" if "n + k = 1024" for n k
    using that
  proof (induction n arbitrary: k)
    case (Suc n)
    then have k: "k < 1024" by simp
    then have i: "(word_of_nat k :: u32) < 1024" by (simp add: word_less_nat_alt unat_of_nat_small)
    have "translate (s\<lparr>ram := zeroed (ram s) f k\<rparr>) (entry_at p (word_of_nat k)) =
        Some (f OR (entry_at p (word_of_nat k) AND 0xFFF))"
      using k by (intro tr) (auto simp: zeroed_def page_base_diff [OF assms(2)] entry_page [OF assms(1) i])
    also have "f OR (entry_at p (word_of_nat k) AND 0xFFF) = entry_at f (word_of_nat k)"
      using base_or_offset [of f "entry_at p (word_of_nat k)"]
      by (simp add: page_base_aligned [OF assms(2)] entry_offset [OF assms(1) i])
    finally have "wr32 (entry_at p (word_of_nat k)) 0 (s\<lparr>ram := zeroed (ram s) f k\<rparr>) =
        Inr (s\<lparr>ram := zeroed (ram s) f (Suc k)\<rparr>)"
      using wr32_aligned [OF entry_aligned [OF assms(1) i], of "s\<lparr>ram := zeroed (ram s) f k\<rparr>"
          "entry_at f (word_of_nat k)" 0] zeroed_Suc [OF k, of "ram s" f] by simp
    moreover have "entry_at p (word_of_nat k) + 4 = entry_at p (word_of_nat (Suc k))"
      by (simp add: algebra_simps)
    moreover have "rep_stosl n (entry_at p (word_of_nat (Suc k))) (s\<lparr>ram := zeroed (ram s) f (Suc k)\<rparr>) =
        Inr (s\<lparr>ram := zeroed (ram s) f 1024\<rparr>)"
      using Suc.IH [of "Suc k"] Suc.prems by simp
    ultimately show ?case unfolding rep_stosl.simps by (simp only: andthen.simps)
  qed simp
  from this [of 1024 0] show ?thesis
    by (simp add: zeroed_def page_base_diff [OF assms(2)])
qed

end
