(* ===== verification/Frames.thy ===== *)
theory Frames
  imports Machine Spinlock
begin

unbundle bit_operations_syntax

text \<open>
  The physical half of \<^verbatim>\<open>arch/ia32/memory.c\<close>: the state of the memory manager, the linear page tables
  (one word for every page frame), the zones, and \<^verbatim>\<open>get_free_pages\<close>, the search for free frames.
\<close>

section \<open>State\<close>

record zone =
  zone_next :: u32
  zone_start :: u32
  zone_end :: u32

text \<open>
  The file's variables, over the machine: the tables the pointers name live in \<open>ram\<close>. \<open>eflags_reg\<close> is
  the flags register, which the \<^verbatim>\<open>irqsave\<close> locks move.
\<close>

record kmem = machine +
  eflags_reg :: u32
  kmemory_spinlock :: u32
  vptd :: u32   \<comment> \<open>\<^verbatim>\<open>virtual_page_table_directory\<close>\<close>
  lptd :: u32   \<comment> \<open>\<^verbatim>\<open>linear_page_table_directory\<close>\<close>
  zones :: "nat \<Rightarrow> zone"
  virtual_block :: u32
  virtual_address :: u32

abbreviation (input) VIRTUAL_ALLOCATED :: u32 where "VIRTUAL_ALLOCATED \<equiv> 0x00000001"
abbreviation (input) VIRTUAL_READWRITE :: u32 where "VIRTUAL_READWRITE \<equiv> 0x00000002"
abbreviation (input) VIRTUAL_USERSUPER :: u32 where "VIRTUAL_USERSUPER \<equiv> 0x00000004"
abbreviation (input) VIRTUAL_LINEAR :: u32 where "VIRTUAL_LINEAR \<equiv> 0x00000200"
abbreviation (input) VIRTUAL_ASSIGNED :: u32 where "VIRTUAL_ASSIGNED \<equiv> 0x00000200"
abbreviation (input) VIRTUAL_ZERO :: u32 where "VIRTUAL_ZERO \<equiv> 0x00000400"
abbreviation (input) LINEAR_ALLOCATED :: u32 where "LINEAR_ALLOCATED \<equiv> 0x00000100"
abbreviation (input) LINEAR_AVAILABLE :: u32 where "LINEAR_AVAILABLE \<equiv> 0x00000200"

abbreviation (input) ZONE_KERNEL :: nat where "ZONE_KERNEL \<equiv> 2"
abbreviation (input) ZONE_DMA :: nat where "ZONE_DMA \<equiv> 1"
abbreviation (input) ZONE_NORMAL :: nat where "ZONE_NORMAL \<equiv> 0"
abbreviation (input) ZONE_COUNT :: nat where "ZONE_COUNT \<equiv> 3"

text \<open>\<open>kmemory_spinlock\<close> with the caller's \<^verbatim>\<open>irqsave\<close> variable passed along.\<close>

definition mem_lock :: "kmem \<Rightarrow> stop + (u32 \<times> kmem)" where
  "mem_lock s =
     andthen (kspinlock_lock_irqsave
         \<lparr>lock_word = kmemory_spinlock s, irqsave = 0, eflags = eflags_reg s\<rparr>)
       (\<lambda>l. Inr (irqsave l, s\<lparr>kmemory_spinlock := lock_word l, eflags_reg := eflags l\<rparr>))"

definition mem_unlock :: "u32 \<Rightarrow> kmem \<Rightarrow> kmem" where
  "mem_unlock saved s =
     (let l = kspinlock_unlock_irqrestore
         \<lparr>lock_word = kmemory_spinlock s, irqsave = saved, eflags = eflags_reg s\<rparr>
      in s\<lparr>kmemory_spinlock := lock_word l, eflags_reg := eflags l\<rparr>)"

section \<open>The search for free frames\<close>

text \<open>
  The scan either returns from \<^verbatim>\<open>get_free_pages\<close> with an address (\<open>Inl\<close>), or falls through with the
  variables \<open>c\<close> (frames counted in the current run) and \<open>address\<close> (\<open>Inr\<close>).
\<close>

type_synonym scan = "(u32 \<times> kmem) + (u32 \<times> u32)"

text \<open>The innermost loop: entries \<open>i2\<close> to 1023 of the table \<open>lpt\<close>.\<close>

function scan_table :: "kmem \<Rightarrow> nat \<Rightarrow> u32 \<Rightarrow> u32 \<Rightarrow> nat \<Rightarrow> nat \<Rightarrow> u32 \<Rightarrow> u32 \<Rightarrow> stop + scan" where
  "scan_table s i0 count lpt i1 i2 c address =
     (if i2 < 1024 then
        andthen (rd32 s (entry_at lpt (word_of_nat i2))) (\<lambda>e.
          if e AND LINEAR_AVAILABLE \<noteq> 0 then
            (let address1 = (if c = 0
                   then push_bit 22 (word_of_nat i1) OR push_bit 12 (word_of_nat i2) else address);
                 c1 = c + 1
             in if c1 = count then
                  andthen (wr32 (entry_at lpt (word_of_nat i2)) LINEAR_ALLOCATED s) (\<lambda>s1.
                    Inr (Inl (address1, s1\<lparr>zones := (zones s1)(i0 := (zones s1 i0)
                      \<lparr>zone_next := address1 + count * KPAGESIZE\<rparr>)\<rparr>)))
                else scan_table s i0 count lpt i1 (i2 + 1) c1 address1)
          else scan_table s i0 count lpt i1 (i2 + 1) 0 0)
      else Inr (Inr (c, address)))"
  by pat_completeness auto
termination
  by (relation "measure (\<lambda>(s, i0, count, lpt, i1, i2, c, address). 1024 - i2)") auto

declare scan_table.simps [simp del]

text \<open>The loop over the page tables, from entry \<open>i2\<close> of table \<open>i1\<close> on.\<close>

function scan_tables ::
    "kmem \<Rightarrow> nat \<Rightarrow> u32 \<Rightarrow> nat \<Rightarrow> nat \<Rightarrow> nat \<Rightarrow> u32 \<Rightarrow> u32 \<Rightarrow> stop + scan" where
  "scan_tables s i0 count outer_end i1 i2 c address =
     (if i1 \<le> outer_end then
        andthen (rd32 s (entry_at (lptd s) (word_of_nat i1))) (\<lambda>d.
          if d AND LINEAR_ALLOCATED \<noteq> 0 then
            andthen (scan_table s i0 count (page_base d) i1 i2 c address) (\<lambda>r. case r of
                Inl hit \<Rightarrow> Inr (Inl hit)
              | Inr (c1, address1) \<Rightarrow> scan_tables s i0 count outer_end (i1 + 1) 0 c1 address1)
          else scan_tables s i0 count outer_end (i1 + 1) 0 c address)
      else Inr (Inr (c, address)))"
  by pat_completeness auto
termination
  by (relation "measure (\<lambda>(s, i0, count, outer_end, i1, i2, c, address). outer_end + 1 - i1)") auto

declare scan_tables.simps [simp del]

text \<open>
  The two passes over one zone: from \<^verbatim>\<open>zone->next\<close> to its end, then (\<^verbatim>\<open>goto outer_loop\<close>) from its
  start to \<^verbatim>\<open>zone->next\<close>. The second pass starts with the \<open>c\<close> and \<open>address\<close> the first one left.
\<close>

definition scan_zone :: "kmem \<Rightarrow> nat \<Rightarrow> u32 \<Rightarrow> stop + scan" where
  "scan_zone s i0 count =
     (let z = zones s i0 in
      if zone_next z = 0 then Inr (Inr (0, 0))
      else andthen (scan_tables s i0 count (unat (dir_index (zone_end z)))
               (unat (dir_index (zone_next z))) (unat (table_index (zone_next z))) 0 0) (\<lambda>r. case r of
          Inl hit \<Rightarrow> Inr (Inl hit)
        | Inr (c, address) \<Rightarrow> scan_tables s i0 count (unat (dir_index (zone_next z)))
               (unat (dir_index (zone_start z))) (unat (table_index (zone_start z))) c address))"

text \<open>
  The loop over the zones. When the last zone has no room the code prints a message and stays in
  \<^verbatim>\<open>while(1) {}\<close>; the message is not part of the state here.
\<close>

function scan_zones :: "kmem \<Rightarrow> nat \<Rightarrow> u32 \<Rightarrow> stop + (u32 \<times> kmem)" where
  "scan_zones s i0 count =
     (if i0 < ZONE_COUNT then
        andthen (scan_zone s i0 count) (\<lambda>r. case r of
            Inl hit \<Rightarrow> Inr hit
          | Inr _ \<Rightarrow> scan_zones s (i0 + 1) count)
      else Inl Spins)"
  by pat_completeness auto
termination
  by (relation "measure (\<lambda>(s, i0, count). ZONE_COUNT - i0)") auto

declare scan_zones.simps [simp del]

definition get_free_pages :: "u32 \<Rightarrow> nat \<Rightarrow> kmem \<Rightarrow> stop + (u32 \<times> kmem)" where
  "get_free_pages count zone s = scan_zones s zone count"

section \<open>Linear entries\<close>

definition set_linear_entry :: "u32 \<Rightarrow> u32 \<Rightarrow> u32 \<Rightarrow> kmem \<Rightarrow> stop + kmem" where
  "set_linear_entry vaddr laddr flags s =
     andthen (rd32 s (entry_at (lptd s) (dir_index laddr))) (\<lambda>d.
       wr32 (entry_at (page_base d) (table_index laddr)) (vaddr OR flags) s)"

text \<open>\<^verbatim>\<open>clear_pages\<close> and \<^verbatim>\<open>tlb_invalidate\<close>, which loads \<^verbatim>\<open>cr3\<close>.\<close>

definition clear_pages :: "u32 \<Rightarrow> u32 \<Rightarrow> kmem \<Rightarrow> stop + kmem" where
  "clear_pages address count s = rep_stosl (unat (count * 1024)) address s"

definition tlb_invalidate :: "kmem \<Rightarrow> kmem" where
  "tlb_invalidate s = s\<lparr>cr3 := vptd s\<rparr>"

section \<open>Frames by number\<close>

text \<open>Frame \<open>g\<close> is the page at \<open>4096 * g\<close>; its linear entry is word \<open>g mod 1024\<close> of table \<open>g div 1024\<close>.\<close>

definition frame_addr :: "nat \<Rightarrow> u32" where
  "frame_addr g = word_of_nat (4096 * g)"

definition dir_entry :: "kmem \<Rightarrow> nat \<Rightarrow> u32" where
  "dir_entry s i = load32 (ram s) (entry_at (lptd s) (word_of_nat i))"

definition table_present :: "kmem \<Rightarrow> nat \<Rightarrow> bool" where
  "table_present s i \<longleftrightarrow> dir_entry s i AND LINEAR_ALLOCATED \<noteq> 0"

definition linear_slot :: "kmem \<Rightarrow> nat \<Rightarrow> u32" where
  "linear_slot s g = entry_at (page_base (dir_entry s (g div 1024))) (word_of_nat (g mod 1024))"

definition available :: "kmem \<Rightarrow> nat \<Rightarrow> bool" where
  "available s g \<longleftrightarrow> table_present s (g div 1024) \<and>
     load32 (ram s) (linear_slot s g) AND LINEAR_AVAILABLE \<noteq> 0"

text \<open>The tables can be read and written at their own addresses, and the directory is not a table.\<close>

definition linear_tables :: "kmem \<Rightarrow> bool" where
  "linear_tables s \<longleftrightarrow> identity_mapped s (lptd s) \<and>
     (\<forall>i<1024. table_present s i \<longrightarrow> identity_mapped s (page_base (dir_entry s i)))"

lemma word_of_nat_less_1024 [simp]: "i < 1024 \<Longrightarrow> (word_of_nat i :: u32) < 1024"
  by (simp add: word_less_nat_alt unat_of_nat_small)

lemma frame_addr_split:
  assumes "i1 < 1024" "i2 < 1024"
  shows "push_bit 22 (word_of_nat i1) OR push_bit 12 (word_of_nat i2) = frame_addr (1024 * i1 + i2)"
proof -
  have small: "word_of_nat i2 = take_bit 10 (word_of_nat i2 :: u32)"
    using assms(2) by (intro word_eqI_unat) (simp add: unat_take_bit_mod unat_of_nat_small)
  have "push_bit 22 (word_of_nat i1) AND push_bit 12 (word_of_nat i2) = (0 :: u32)"
    by (subst small, rule bit_word_eqI) (auto simp: bit_simps)
  then have "push_bit 22 (word_of_nat i1) OR push_bit 12 (word_of_nat i2) =
      push_bit 22 (word_of_nat i1) + (push_bit 12 (word_of_nat i2) :: u32)"
    by (simp add: disjunctive_add_eq_or)
  then show ?thesis
    by (simp add: frame_addr_def push_bit_eq_mult algebra_simps)
qed

lemma unat_frame_addr: "g < 1048576 \<Longrightarrow> unat (frame_addr g) = 4096 * g"
  unfolding frame_addr_def by (rule unat_of_nat_small) simp

lemma frame_addr_indices:
  assumes "g < 1048576"
  shows "dir_index (frame_addr g) = word_of_nat (g div 1024)"
    "table_index (frame_addr g) = word_of_nat (g mod 1024)"
proof -
  have "4096 * g div 4194304 = g div 1024"
    using div_mult2_eq [of "4096 * g" 4096 1024] by simp
  then show "dir_index (frame_addr g) = word_of_nat (g div 1024)"
    "table_index (frame_addr g) = word_of_nat (g mod 1024)"
    using assms by (simp_all add: word_unat_eq_iff unat_dir_index unat_table_index unat_frame_addr
      unat_of_nat_small)
qed

section \<open>What the scan finds\<close>

text \<open>
  The variables of the scan at frame \<open>f\<close>: the \<open>c\<close> frames before it are available, \<open>address\<close> is the
  first of them.
\<close>

definition run_before :: "kmem \<Rightarrow> u32 \<Rightarrow> u32 \<Rightarrow> nat \<Rightarrow> bool" where
  "run_before s c address f \<longleftrightarrow> unat c \<le> f \<and> (\<forall>k<unat c. available s (f - 1 - k)) \<and>
     (c \<noteq> 0 \<longrightarrow> address = frame_addr (f - unat c))"

text \<open>
  What a returning scan has found: \<open>count\<close> available frames from \<open>address\<close> on, of which it marked the
  last one and moved \<^verbatim>\<open>zone->next\<close> behind it.
\<close>

definition found :: "kmem \<Rightarrow> nat \<Rightarrow> u32 \<Rightarrow> u32 \<times> kmem \<Rightarrow> bool" where
  "found s i0 count r \<longleftrightarrow> (\<exists>g. 0 < count \<and> g + unat count \<le> 1048576 \<and> fst r = frame_addr g \<and>
     (\<forall>k<unat count. available s (g + k)) \<and>
     snd r = s\<lparr>ram := store32 (ram s) (linear_slot s (g + unat count - 1)) LINEAR_ALLOCATED,
       zones := (zones s)(i0 := (zones s i0)\<lparr>zone_next := fst r + count * KPAGESIZE\<rparr>)\<rparr>)"

lemma run_before_step:
  assumes "run_before s c address f" "available s f" "f < 1048576"
  shows "run_before s (c + 1) (if c = 0 then frame_addr f else address) (f + 1)"
    "unat (c + 1) = unat c + 1"
proof -
  have "unat c \<le> f" using assms(1) by (simp add: run_before_def)
  with assms(3) show u: "unat (c + 1) = unat c + 1"
    by (simp add: unat_word_ariths)
  show "run_before s (c + 1) (if c = 0 then frame_addr f else address) (f + 1)"
    using assms(1,2) unfolding run_before_def u
    by (auto simp: less_Suc_eq_0_disj Suc_diff_le)
qed

lemma run_before_reset: "run_before s 0 address f"
  by (simp add: run_before_def)

text \<open>The outcome of the scan of one table.\<close>

definition table_result :: "kmem \<Rightarrow> nat \<Rightarrow> u32 \<Rightarrow> nat \<Rightarrow> nat \<Rightarrow> u32 \<Rightarrow> stop + scan \<Rightarrow> bool" where
  "table_result s i0 count i1 i2 c res \<longleftrightarrow> (case res of
      Inl e \<Rightarrow> False
    | Inr (Inl r) \<Rightarrow> found s i0 count r
    | Inr (Inr (c', address')) \<Rightarrow> run_before s c' address' (1024 * (i1 + 1)) \<and>
        (i2 < 1024 \<and> \<not> available s (1024 * i1 + 1023) \<longrightarrow> c' = 0) \<and>
        (c = 0 \<and> count = 1 \<longrightarrow> c' = 0 \<and> (\<forall>j<1024. i2 \<le> j \<longrightarrow> \<not> available s (1024 * i1 + j))))"

lemma table_result_next:
  assumes "table_result s i0 count i1 (i2 + 1) c' res" and "i2 < 1024"
    and "i2 = 1023 \<and> \<not> available s (1024 * i1 + 1023) \<Longrightarrow>
      \<forall>c'' a. res = Inr (Inr (c'', a)) \<longrightarrow> c'' = 0"
    and "c = 0 \<and> count = 1 \<Longrightarrow> c' = 0 \<and> \<not> available s (1024 * i1 + i2)"
  shows "table_result s i0 count i1 i2 c res"
proof (cases res)
  case (Inl e)
  with assms(1) show ?thesis by (simp add: table_result_def)
next
  case (Inr r)
  show ?thesis
  proof (cases r)
    case (Inl p)
    with assms(1) Inr show ?thesis by (simp add: table_result_def)
  next
    case R: (Inr p)
    obtain c'' a where p: "p = (c'', a)" by (cases p)
    have "\<not> available s (1024 * i1 + j)" if "c = 0 \<and> count = 1" "j < 1024" "i2 \<le> j" for j
      using that assms(1,4) Inr R p by (cases "j = i2") (auto simp: table_result_def)
    moreover have "c'' = 0" if "\<not> available s (1024 * i1 + 1023)"
      using that assms(1-3) Inr R p by (cases "i2 = 1023") (auto simp: table_result_def)
    ultimately show ?thesis using assms(1,4) Inr R p by (auto simp: table_result_def)
  qed
qed

lemma scan_table_spec:
  assumes "identity_mapped s (page_base (dir_entry s i1))" "table_present s i1" "i1 < 1024" "i2 \<le> 1024"
    and "run_before s c address (1024 * i1 + i2)"
  shows "table_result s i0 count i1 i2 c
    (scan_table s i0 count (page_base (dir_entry s i1)) i1 i2 c address)"
  using assms(4,5)
proof (induction "1024 - i2" arbitrary: i2 c address)
  case 0
  then show ?case by (subst scan_table.simps) (simp add: table_result_def algebra_simps)
next
  case (Suc n)
  let ?d = "page_base (dir_entry s i1)" and ?f = "1024 * i1 + i2"
  have lt: "i2 < 1024" using Suc.hyps(2) by simp
  then have f: "?f < 1048576" "?f div 1024 = i1" "?f mod 1024 = i2" using assms(3) by simp_all
  then have slot: "entry_at ?d (word_of_nat i2) = linear_slot s ?f" by (simp add: linear_slot_def)
  have rd: "rd32 s (linear_slot s ?f) = Inr (load32 (ram s) (linear_slot s ?f))"
    and wr: "wr32 (linear_slot s ?f) v s = Inr (s\<lparr>ram := store32 (ram s) (linear_slot s ?f) v\<rparr>)" for v
    using identity_access [OF assms(1), of "word_of_nat i2"] lt unfolding slot by simp_all
  have n: "n = 1024 - (i2 + 1)" "i2 + 1 \<le> 1024" using Suc.hyps(2) by simp_all
  show ?case
  proof (cases "available s ?f")
    case False
    have na: "\<not> load32 (ram s) (linear_slot s ?f) AND LINEAR_AVAILABLE \<noteq> 0"
      using False assms(2) f by (simp add: available_def)
    have go: "scan_table s i0 count ?d i1 i2 c address = scan_table s i0 count ?d i1 (i2 + 1) 0 0"
      using lt na by (subst scan_table.simps) (simp add: slot rd)
    have end_of: "scan_table s i0 count ?d i1 1024 0 0 = Inr (Inr (0, 0))"
      by (subst scan_table.simps) simp
    from Suc.hyps(1) [OF n run_before_reset] show ?thesis unfolding go
      by (rule table_result_next) (use lt False end_of in \<open>auto\<close>)
  next
    case True
    have av: "load32 (ram s) (linear_slot s ?f) AND LINEAR_AVAILABLE \<noteq> 0"
      using True by (simp add: available_def)
    let ?a = "if c = 0 then frame_addr ?f else address"
    note st = run_before_step [OF Suc.prems(2) True f(1)]
    show ?thesis
    proof (cases "c + 1 = count")
      case count: True
      have pos: "0 < unat count" using count st(2) by simp
      have run: "run_before s count ?a (?f + 1)" using st(1) count by simp
      let ?g = "?f + 1 - unat count"
      have "count \<noteq> 0" using pos by auto
      then have a: "?a = frame_addr ?g" using run unfolding run_before_def by blast
      have "unat count \<le> ?f + 1" using run unfolding run_before_def by blast
      with pos f(1) have g: "?g + unat count - 1 = ?f" "?g + unat count \<le> 1048576" by simp_all
      have "available s (?g + k)" if "k < unat count" for k
      proof -
        have "?g + k = ?f + 1 - 1 - (unat count - 1 - k)"
          using that run by (auto simp: run_before_def)
        moreover have "unat count - 1 - k < unat count" using that by simp
        ultimately show ?thesis using run unfolding run_before_def by metis
      qed
      then have "found s i0 count (?a,
          s\<lparr>ram := store32 (ram s) (linear_slot s ?f) LINEAR_ALLOCATED,
            zones := (zones s)(i0 := (zones s i0)\<lparr>zone_next := ?a + count * KPAGESIZE\<rparr>)\<rparr>)"
        unfolding found_def fst_conv snd_conv using g a pos
        by (intro exI [of _ ?g]) (simp add: word_less_nat_alt)
      moreover have "scan_table s i0 count ?d i1 i2 c address = Inr (Inl (?a,
          s\<lparr>ram := store32 (ram s) (linear_slot s ?f) LINEAR_ALLOCATED,
            zones := (zones s)(i0 := (zones s i0)\<lparr>zone_next := ?a + count * KPAGESIZE\<rparr>)\<rparr>))"
        using lt av count
        by (subst scan_table.simps) (simp add: slot rd wr frame_addr_split [OF assms(3) lt] Let_def)
      ultimately show ?thesis by (simp add: table_result_def)
    next
      case more: False
      have go: "scan_table s i0 count ?d i1 i2 c address = scan_table s i0 count ?d i1 (i2 + 1) (c + 1) ?a"
        using lt av more
        by (subst scan_table.simps) (simp add: slot rd frame_addr_split [OF assms(3) lt] Let_def)
      have "run_before s (c + 1) ?a (1024 * i1 + (i2 + 1))" using st(1) by (simp add: add.assoc)
      from Suc.hyps(1) [OF n this] show ?thesis unfolding go
        by (rule table_result_next) (use lt True more in \<open>auto\<close>)
    qed
  qed
qed

text \<open>The outcome of the scan of the tables \<open>i1\<close> to \<open>outer_end\<close>.\<close>

definition tables_result ::
    "kmem \<Rightarrow> nat \<Rightarrow> u32 \<Rightarrow> nat \<Rightarrow> nat \<Rightarrow> nat \<Rightarrow> u32 \<Rightarrow> stop + scan \<Rightarrow> bool" where
  "tables_result s i0 count outer_end i1 i2 c res \<longleftrightarrow> (case res of
      Inl e \<Rightarrow> False
    | Inr (Inl r) \<Rightarrow> found s i0 count r
    | Inr (Inr (c', address')) \<Rightarrow>
        (i1 \<le> outer_end \<and> \<not> available s (1024 * outer_end + 1023) \<longrightarrow> c' = 0) \<and>
        (outer_end < i1 \<longrightarrow> c' = c) \<and>
        (c = 0 \<and> count = 1 \<longrightarrow> c' = 0 \<and>
          (\<forall>g. 1024 * i1 + i2 \<le> g \<and> g < 1024 * (outer_end + 1) \<longrightarrow> \<not> available s g)))"

lemma scan_tables_spec:
  assumes "linear_tables s" "outer_end < 1024"
    and "count = 1 \<and> c = 0 \<or> (\<forall>i. i1 \<le> i \<and> i \<le> outer_end \<longrightarrow> table_present s i)"
    and "i2 < 1024" and "run_before s c address (1024 * i1 + i2)"
  shows "tables_result s i0 count outer_end i1 i2 c (scan_tables s i0 count outer_end i1 i2 c address)"
  using assms(3-5)
proof (induction "outer_end + 1 - i1" arbitrary: i1 i2 c address)
  case 0
  then show ?case by (subst scan_tables.simps) (auto simp: tables_result_def)
next
  case (Suc n)
  let ?d = "page_base (dir_entry s i1)"
  have le: "i1 \<le> outer_end" and i1: "i1 < 1024" using Suc.hyps(2) assms(2) by simp_all
  have rd: "rd32 s (entry_at (lptd s) (word_of_nat i1)) = Inr (dir_entry s i1)"
    using assms(1) i1 identity_access(1) [of s "lptd s" "word_of_nat i1"]
    by (simp add: linear_tables_def dir_entry_def)
  have n: "n = outer_end + 1 - (i1 + 1)" using Suc.hyps(2) by simp
  show ?case
  proof (cases "table_present s i1")
    case False
    let ?rest = "scan_tables s i0 count outer_end (i1 + 1) 0 c address"
    have zero: "count = 1" "c = 0" using Suc.prems(1) False le by auto
    have here: "scan_tables s i0 count outer_end i1 i2 c address = ?rest"
      using le False by (subst scan_tables.simps) (simp add: rd table_present_def)
    have IH: "tables_result s i0 count outer_end (i1 + 1) 0 c ?rest"
      using zero by (intro Suc.hyps(1) [OF n]) (simp_all add: run_before_reset)
    have "\<not> available s g" if "1024 * i1 + i2 \<le> g" "g < 1024 * (i1 + 1)" for g
    proof -
      from that have "g div 1024 = i1" by (intro div_nat_eqI) simp_all
      with False show ?thesis by (simp add: available_def)
    qed
    then have "1024 + 1024 * i1 \<le> g" if "1024 * i1 + i2 \<le> g" "available s g" for g
      using that by (metis add_mult_distrib2 add.commute mult.right_neutral not_less)
    then show ?thesis unfolding here using IH zero
      by (auto simp: tables_result_def split: sum.splits)
  next
    case present: True
    have id: "identity_mapped s ?d" using assms(1) present i1 by (simp add: linear_tables_def)
    let ?t = "scan_table s i0 count ?d i1 i2 c address"
    have tr: "table_result s i0 count i1 i2 c ?t"
      using Suc.prems(2,3) by (intro scan_table_spec id present i1) simp_all
    have unf: "scan_tables s i0 count outer_end i1 i2 c address = andthen ?t (\<lambda>r. case r of
        Inl hit \<Rightarrow> Inr (Inl hit)
      | Inr (c1, address1) \<Rightarrow> scan_tables s i0 count outer_end (i1 + 1) 0 c1 address1)"
      using le present by (subst scan_tables.simps) (simp add: rd table_present_def)
    show ?thesis
    proof (cases "\<exists>c1 a1. ?t = Inr (Inr (c1, a1))")
      case False
      with tr show ?thesis
        by (cases ?t) (auto simp: unf table_result_def tables_result_def split: sum.splits)
    next
      case True
      then obtain c1 a1 where t: "?t = Inr (Inr (c1, a1))" by blast
      from tr t have run: "run_before s c1 a1 (1024 * (i1 + 1) + 0)"
        and last: "\<not> available s (1024 * i1 + 1023) \<Longrightarrow> c1 = 0"
        and one: "c = 0 \<and> count = 1 \<Longrightarrow> c1 = 0 \<and> (\<forall>j<1024. i2 \<le> j \<longrightarrow> \<not> available s (1024 * i1 + j))"
        using Suc.prems(2) by (auto simp: table_result_def)
      let ?rest = "scan_tables s i0 count outer_end (i1 + 1) 0 c1 a1"
      have IH: "tables_result s i0 count outer_end (i1 + 1) 0 c1 ?rest"
        using Suc.prems(1) one by (intro Suc.hyps(1) [OF n _ _ run]) auto
      have here: "scan_tables s i0 count outer_end i1 i2 c address = ?rest"
        using t by (simp add: unf)
      show ?thesis
      proof (cases "\<exists>c' a'. ?rest = Inr (Inr (c', a'))")
        case False
        with IH show ?thesis unfolding here
          by (cases ?rest) (auto simp: tables_result_def split: sum.splits)
      next
        case True
        then obtain c' a' where v: "?rest = Inr (Inr (c', a'))" by blast
        have "\<not> available s g"
          if c: "c = 0 \<and> count = 1" and g: "1024 * i1 + i2 \<le> g" "g < 1024 * (outer_end + 1)" for g
        proof (cases "g < 1024 * (i1 + 1)")
          case True
          then have "g = 1024 * i1 + (g - 1024 * i1)" "g - 1024 * i1 < 1024" "i2 \<le> g - 1024 * i1"
            using g by simp_all
          with one [OF c] show ?thesis by metis
        next
          case False
          with one [OF c] c g IH v show ?thesis by (auto simp: tables_result_def)
        qed
        moreover have "c' = 0" if "\<not> available s (1024 * outer_end + 1023)"
          using that last IH v le by (cases "i1 = outer_end") (auto simp: tables_result_def)
        moreover have "c' = 0" if "c = 0 \<and> count = 1"
          using one [OF that] that IH v by (auto simp: tables_result_def)
        ultimately show ?thesis unfolding here using v le by (simp add: tables_result_def)
      qed
    qed
  qed
qed

text \<open>The frames the two passes over a zone look at.\<close>

definition scanned :: "zone \<Rightarrow> nat \<Rightarrow> bool" where
  "scanned z g \<longleftrightarrow> zone_next z \<noteq> 0 \<and>
     (unat (zone_next z) div 4096 \<le> g \<and> g < 1024 * (unat (dir_index (zone_end z)) + 1) \<or>
      unat (zone_start z) div 4096 \<le> g \<and> g < 1024 * (unat (dir_index (zone_next z)) + 1))"

text \<open>Every table the passes over a zone can visit is there.\<close>

definition zone_tables :: "kmem \<Rightarrow> zone \<Rightarrow> bool" where
  "zone_tables s z \<longleftrightarrow> zone_next z \<noteq> 0 \<longrightarrow> (\<forall>i. i \<le> unat (dir_index (zone_end z)) \<or> i \<le> unat (dir_index (zone_next z)) \<longrightarrow>
     table_present s i)"

text \<open>The last frame of the table in which a zone ends is not available, so no run crosses it.\<close>

definition zone_closed :: "kmem \<Rightarrow> zone \<Rightarrow> bool" where
  "zone_closed s z \<longleftrightarrow> zone_next z \<noteq> 0 \<longrightarrow> \<not> available s (1024 * unat (dir_index (zone_end z)) + 1023)"

lemma frame_index: "1024 * unat (dir_index a) + unat (table_index a) = unat a div 4096"
proof -
  have "unat a div 4194304 = unat a div 4096 div 1024"
    using div_mult2_eq [of "unat a" 4096 1024] by simp
  then show ?thesis by (simp add: unat_dir_index unat_table_index)
qed

lemma unat_index_less [simp]: "unat (dir_index a) < 1024" "unat (table_index a) < 1024"
  using index_less [of a] by (simp_all add: word_less_nat_alt)

lemma scan_zone_spec:
  assumes "linear_tables s"
    and "count = 1 \<or> zone_tables s (zones s i0) \<and> zone_closed s (zones s i0)"
  shows "case scan_zone s i0 count of
      Inl e \<Rightarrow> False
    | Inr (Inl r) \<Rightarrow> found s i0 count r
    | Inr (Inr _) \<Rightarrow> count = 1 \<longrightarrow> (\<forall>g. scanned (zones s i0) g \<longrightarrow> \<not> available s g)"
proof (cases "zone_next (zones s i0) = 0")
  case True
  then show ?thesis by (simp add: scan_zone_def scanned_def)
next
  case False
  let ?z = "zones s i0"
  let ?p1 = "scan_tables s i0 count (unat (dir_index (zone_end ?z))) (unat (dir_index (zone_next ?z)))
    (unat (table_index (zone_next ?z))) 0 0"
  have 1: "tables_result s i0 count (unat (dir_index (zone_end ?z))) (unat (dir_index (zone_next ?z)))
      (unat (table_index (zone_next ?z))) 0 ?p1"
    using assms(2) False by (intro scan_tables_spec assms(1) run_before_reset) (auto simp: zone_tables_def)
  show ?thesis
  proof (cases ?p1)
    case (Inl e)
    with 1 show ?thesis by (simp add: tables_result_def)
  next
    case P: (Inr r)
    show ?thesis
    proof (cases r)
      case (Inl p)
      with P 1 False show ?thesis by (simp add: scan_zone_def Let_def tables_result_def)
    next
      case R: (Inr p)
      obtain c a where p: "p = (c, a)" by (cases p)
      have c: "c = 0"
        using 1 P R p assms(2) False by (auto simp: tables_result_def zone_closed_def not_le)
      let ?p2 = "scan_tables s i0 count (unat (dir_index (zone_next ?z))) (unat (dir_index (zone_start ?z)))
        (unat (table_index (zone_start ?z))) c a"
      have 2: "tables_result s i0 count (unat (dir_index (zone_next ?z))) (unat (dir_index (zone_start ?z)))
          (unat (table_index (zone_start ?z))) c ?p2"
        using assms(2) False unfolding c
        by (intro scan_tables_spec assms(1) run_before_reset) (auto simp: zone_tables_def)
      have sz: "scan_zone s i0 count = ?p2"
        using False P R p by (simp add: scan_zone_def Let_def)
      show ?thesis unfolding sz using 1 2 P R p c
        by (auto simp: tables_result_def scanned_def frame_index split: sum.splits)
    qed
  qed
qed


text \<open>The zones together: the tables they need are there, and no run leaves a zone.\<close>

definition zones_ok :: "kmem \<Rightarrow> u32 \<Rightarrow> bool" where
  "zones_ok s count \<longleftrightarrow> linear_tables s \<and>
     (count = 1 \<or> (\<forall>i<ZONE_COUNT. zone_tables s (zones s i) \<and> zone_closed s (zones s i)))"

lemma scan_zones_spec:
  assumes "zones_ok s count"
  shows "case scan_zones s i0 count of
      Inl e \<Rightarrow> e = Spins \<and> (count = 1 \<longrightarrow>
        (\<forall>i g. i0 \<le> i \<and> i < ZONE_COUNT \<and> scanned (zones s i) g \<longrightarrow> \<not> available s g))
    | Inr r \<Rightarrow> \<exists>i. i0 \<le> i \<and> i < ZONE_COUNT \<and> found s i count r"
proof (induction "ZONE_COUNT - i0" arbitrary: i0)
  case 0
  then show ?case by (subst scan_zones.simps) auto
next
  case (Suc n)
  have lt: "i0 < ZONE_COUNT" using Suc.hyps(2) by simp
  then have z: "case scan_zone s i0 count of
      Inl e \<Rightarrow> False
    | Inr (Inl r) \<Rightarrow> found s i0 count r
    | Inr (Inr _) \<Rightarrow> count = 1 \<longrightarrow> (\<forall>g. scanned (zones s i0) g \<longrightarrow> \<not> available s g)"
    using assms by (intro scan_zone_spec) (auto simp: zones_ok_def)
  have n: "n = ZONE_COUNT - (i0 + 1)" using Suc.hyps(2) by simp
  note IH = Suc.hyps(1) [OF n]
  show ?case
  proof (cases "scan_zone s i0 count")
    case (Inl e)
    with z show ?thesis by simp
  next
    case R: (Inr r)
    show ?thesis
    proof (cases r)
      case (Inl hit)
      with R z lt show ?thesis by (subst scan_zones.simps) auto
    next
      case Q: (Inr p)
      have here: "scan_zones s i0 count = scan_zones s (i0 + 1) count"
        using R Q lt by (subst scan_zones.simps) simp
      have none: "count = 1 \<longrightarrow> (\<forall>g. scanned (zones s i0) g \<longrightarrow> \<not> available s g)"
        using z R Q by simp
      show ?thesis unfolding here
      proof (cases "scan_zones s (i0 + 1) count")
        case (Inl e)
        have "\<not> available s g" if "count = 1" "i0 \<le> i" "i < ZONE_COUNT" "scanned (zones s i) g" for i g
        proof (cases "i = i0")
          case True
          with none that show ?thesis by simp
        next
          case False
          with that(2) have "i0 + 1 \<le> i" by simp
          moreover from IH Inl that(1) have
            "\<forall>i g. i0 + 1 \<le> i \<and> i < ZONE_COUNT \<and> scanned (zones s i) g \<longrightarrow> \<not> available s g" by simp
          ultimately show ?thesis using that(3,4) by blast
        qed
        with IH Inl show "case scan_zones s (i0 + 1) count of
            Inl e \<Rightarrow> e = Spins \<and> (count = 1 \<longrightarrow>
              (\<forall>i g. i0 \<le> i \<and> i < ZONE_COUNT \<and> scanned (zones s i) g \<longrightarrow> \<not> available s g))
          | Inr r \<Rightarrow> \<exists>i. i0 \<le> i \<and> i < ZONE_COUNT \<and> found s i count r" by auto
      next
        case (Inr hit)
        with IH show "case scan_zones s (i0 + 1) count of
            Inl e \<Rightarrow> e = Spins \<and> (count = 1 \<longrightarrow>
              (\<forall>i g. i0 \<le> i \<and> i < ZONE_COUNT \<and> scanned (zones s i) g \<longrightarrow> \<not> available s g))
          | Inr r \<Rightarrow> \<exists>i. i0 \<le> i \<and> i < ZONE_COUNT \<and> found s i count r"
          using Suc_leD by fastforce
      qed
    qed
  qed
qed

lemma one_frame_found:
  assumes "zones_ok s 1" "zone \<le> i" "i < ZONE_COUNT" "scanned (zones s i) g" "available s g"
  obtains a s1 where "get_free_pages 1 zone s = Inr (a, s1)"
  using scan_zones_spec [OF assms(1), of zone] assms(2-)
  by (auto simp: get_free_pages_def split: sum.splits)

section \<open>Properties\<close>


text \<open>
  C33: a request for one frame is answered whenever some frame is available in the part of a zone the
  two passes look at, from the requested zone to the kernel zone: \<^verbatim>\<open>get_free_pages\<close> then neither
  faults nor hangs. In particular it never returns the \<^verbatim>\<open>0\<close> its callers test for as failure.
\<close>

theorem get_free_pages_serves_one:
  assumes "zones_ok s 1" "zone \<le> i" "i < ZONE_COUNT" "scanned (zones s i) g" "available s g"
  shows "\<exists>r. get_free_pages 1 zone s = Inr r"
  by (rule one_frame_found [OF assms]) blast

text \<open>A machine with one linear page table, two frames of which, the last two, are available.\<close>

definition two_free_frames :: kmem where
  "two_free_frames =
     \<lparr>ram = store32 (store32 (store32 (\<lambda>_. 0) 0x1000 (0x2000 OR LINEAR_ALLOCATED))
              0x2FF8 LINEAR_AVAILABLE) 0x2FFC LINEAR_AVAILABLE,
      cr3 = 0, paging = False, eflags_reg = 0x202, kmemory_spinlock = 0, vptd = 0, lptd = 0x1000,
      zones = (\<lambda>_. \<lparr>zone_next = 0, zone_start = 0, zone_end = 0\<rparr>)
        (ZONE_DMA := \<lparr>zone_next = 0x3FE000, zone_start = 0x3FE000, zone_end = 0x3FF000\<rparr>),
      virtual_block = 0, virtual_address = 0\<rparr>"


lemma linear_tables_unpaged: "\<not> paging s \<Longrightarrow> page_aligned (lptd s) \<Longrightarrow> linear_tables s"
  by (simp add: linear_tables_def identity_mapped_unpaged)

lemma two_free_frames_ok: "zones_ok two_free_frames 1"
proof -
  have "linear_tables two_free_frames"
    by (rule linear_tables_unpaged) (simp_all add: two_free_frames_def page_aligned_def)
  moreover have "table_present two_free_frames 0"
    by (simp add: table_present_def dir_entry_def two_free_frames_def load32_def store32_def
      word_of_bytes_def)
  ultimately show ?thesis
    by (auto simp: zones_ok_def zone_tables_def two_free_frames_def unat_dir_index)
qed

lemmas two_free_frames_eval =
  two_free_frames_def scan_zone_def unat_dir_index unat_table_index unpaged_access
  load32_store32_apart apart_def Let_def


theorem get_free_pages_serves_one_witness:
  "\<exists>r. get_free_pages 1 0 two_free_frames = Inr r"
proof (rule get_free_pages_serves_one [OF two_free_frames_ok, of 0 ZONE_DMA 1022])
  have "linear_slot two_free_frames 1022 = 0x2FF8"
    by (simp add: linear_slot_def dir_entry_def two_free_frames_eval)
  then show "available two_free_frames 1022"
    by (simp add: available_def table_present_def dir_entry_def two_free_frames_eval)
qed (simp_all add: scanned_def two_free_frames_def unat_dir_index)


end
