(* ===== verification/Paging.thy ===== *)
theory Paging
  imports Frames
begin

unbundle bit_operations_syntax

text \<open>
  The mapping half of \<^verbatim>\<open>arch/ia32/memory.c\<close>: virtual page table entries, the allocation and mapping of
  linear pages, the set-up of both sets of tables at boot, and the page fault handler.
\<close>

section \<open>Virtual entries\<close>

abbreviation (input) VIRTUAL_KERNEL :: u32 where
  "VIRTUAL_KERNEL \<equiv> VIRTUAL_ALLOCATED OR VIRTUAL_READWRITE OR VIRTUAL_USERSUPER OR VIRTUAL_LINEAR"

text \<open>
  The first part of \<^verbatim>\<open>set_virtual_entry\<close>: either the directory entry is there (\<open>Inr\<close>), or a frame has
  been taken for the missing page table and entered in the directory (\<open>Inl\<close>, with the frame).
\<close>

definition directory_slot :: "kmem \<Rightarrow> u32 \<Rightarrow> u32" where
  "directory_slot s vaddr = entry_at (vptd s) (dir_index vaddr)"

definition need_table :: "u32 \<Rightarrow> kmem \<Rightarrow> stop + ((u32 \<times> kmem) + kmem)" where
  "need_table vaddr s =
     andthen (rd32 s (directory_slot s vaddr)) (\<lambda>d.
       if d = 0 then
         andthen (get_free_pages 1 ZONE_NORMAL s) (\<lambda>(temp, s1).
         andthen (wr32 (directory_slot s vaddr) (temp OR VIRTUAL_KERNEL) s1) (\<lambda>s2.
           Inr (Inl (temp, s2))))
       else Inr (Inr s))"

text \<open>Its last statement, which reads the directory entry again.\<close>

definition enter_page :: "u32 \<Rightarrow> u32 \<Rightarrow> u32 \<Rightarrow> u32 \<Rightarrow> kmem \<Rightarrow> stop + kmem" where
  "enter_page slot vaddr laddr flags s =
     andthen (rd32 s slot) (\<lambda>d.
       wr32 (entry_at (page_base d) (table_index vaddr)) (laddr OR flags) s)"

text \<open>
  The whole routine. Entering a new page table maps that table itself, by a recursive call; \<open>None\<close> is
  a recursion without end.
\<close>

partial_function (option) set_virtual_entry_calls ::
    "u32 \<Rightarrow> u32 \<Rightarrow> u32 \<Rightarrow> kmem \<Rightarrow> (stop + kmem) option" where
  "set_virtual_entry_calls vaddr laddr flags s =
     (case need_table vaddr s of
        Inl e \<Rightarrow> Some (Inl e)
      | Inr (Inr s1) \<Rightarrow> Some (enter_page (directory_slot s vaddr) vaddr laddr flags s1)
      | Inr (Inl p) \<Rightarrow>
          Option.bind (set_virtual_entry_calls (fst p) (fst p) VIRTUAL_KERNEL (snd p)) (\<lambda>r.
            Some (andthen r (\<lambda>s2.
              andthen (set_linear_entry (fst p) (fst p) LINEAR_ALLOCATED s2) (\<lambda>s3.
              andthen (clear_pages (fst p) 1 (tlb_invalidate s3)) (\<lambda>s4.
                enter_page (directory_slot s vaddr) vaddr laddr flags s4))))))"

declare set_virtual_entry_calls.simps [code]

definition set_virtual_entry :: "u32 \<Rightarrow> u32 \<Rightarrow> u32 \<Rightarrow> kmem \<Rightarrow> stop + kmem" where
  "set_virtual_entry vaddr laddr flags s =
     (case set_virtual_entry_calls vaddr laddr flags s of None \<Rightarrow> Inl Spins | Some r \<Rightarrow> r)"

section \<open>Linear pages\<close>

text \<open>The loop that maps and marks \<open>n\<close> pages from \<open>local\<close> on.\<close>

primrec map_pages :: "nat \<Rightarrow> u32 \<Rightarrow> kmem \<Rightarrow> stop + kmem" where
  "map_pages 0 local s = Inr s"
| "map_pages (Suc n) local s =
     andthen (set_virtual_entry local local VIRTUAL_KERNEL s) (\<lambda>s1.
     andthen (set_linear_entry local local LINEAR_ALLOCATED s1) (\<lambda>s2.
       map_pages n (local + KPAGESIZE) s2))"

definition kmemory_linear_page_allocate :: "u32 \<Rightarrow> u32 \<Rightarrow> kmem \<Rightarrow> stop + (u32 \<times> kmem)" where
  "kmemory_linear_page_allocate count dma s =
     andthen (mem_lock s) (\<lambda>(saved, s1).
     andthen (get_free_pages count (if dma \<noteq> 0 then ZONE_DMA else ZONE_NORMAL) s1) (\<lambda>(address, s2).
     andthen (if address \<noteq> 0 then map_pages (unat count) address s2 else Inr s2) (\<lambda>s3.
       Inr (address, mem_unlock saved (tlb_invalidate s3)))))"

definition kmemory_linear_page_unallocate :: "u32 \<Rightarrow> u32 \<Rightarrow> kmem \<Rightarrow> kmem" where
  "kmemory_linear_page_unallocate address count s = s"

definition kmemory_linear_page_map :: "u32 \<Rightarrow> u32 \<Rightarrow> kmem \<Rightarrow> stop + (u32 \<times> kmem)" where
  "kmemory_linear_page_map address count s =
     andthen (mem_lock s) (\<lambda>(saved, s1).
     andthen (map_pages (unat count) address s1) (\<lambda>s2.
       Inr (address, mem_unlock saved (tlb_invalidate s2))))"

definition kmemory_linear_page_unmap :: "u32 \<Rightarrow> u32 \<Rightarrow> kmem \<Rightarrow> kmem" where
  "kmemory_linear_page_unmap address count s = s"

section \<open>Set-up\<close>

text \<open>\<^verbatim>\<open>linear_block\<close>: every page that meets \<open>start\<close> to \<open>end\<close> is marked allocated.\<close>

definition linear_block_turn :: "u32 \<Rightarrow> u32 \<times> kmem \<Rightarrow> stop + ((u32 \<times> kmem) + kmem)" where
  "linear_block_turn limit = (\<lambda>(address, s).
     if address < limit then
       andthen (rd32 s (entry_at (lptd s) (dir_index address))) (\<lambda>d.
       andthen (wr32 (entry_at (page_base d) (table_index address)) (address OR LINEAR_ALLOCATED) s)
         (\<lambda>s1. Inr (Inl (address + KPAGESIZE, s1))))
     else Inr (Inr s))"

definition linear_block :: "u32 \<Rightarrow> u32 \<Rightarrow> kmem \<Rightarrow> stop + kmem" where
  "linear_block start stop_at s =
     iterate (linear_block_turn (page_base (stop_at - 1) + KPAGESIZE)) (page_base start, s)"

text \<open>\<^verbatim>\<open>kmemory_linear_setup\<close>: one linear table, left when \<open>mem\<close> reaches the end of memory.\<close>

function fill_table :: "u32 \<Rightarrow> nat \<Rightarrow> u32 \<Rightarrow> u32 \<Rightarrow> kmem \<Rightarrow> stop + (u32 \<times> kmem)" where
  "fill_table pt i2 mem_upper mem s =
     (if i2 < 1024 then
        andthen (wr32 (entry_at pt (word_of_nat i2)) LINEAR_AVAILABLE s) (\<lambda>s1.
          if mem_upper \<le> mem + KPAGESIZE then Inr (mem + KPAGESIZE, s1)
          else fill_table pt (i2 + 1) mem_upper (mem + KPAGESIZE) s1)
      else Inr (mem, s))"
  by pat_completeness auto
termination by (relation "measure (\<lambda>(pt, i2, mem_upper, mem, s). 1024 - i2)") auto

declare fill_table.simps [simp del]

text \<open>The loop over the tables: \<open>n\<close> more from number \<open>i1\<close> on.\<close>

primrec setup_tables :: "nat \<Rightarrow> nat \<Rightarrow> u32 \<Rightarrow> u32 \<Rightarrow> u32 \<Rightarrow> kmem \<Rightarrow> stop + (u32 \<times> kmem)" where
  "setup_tables 0 i1 mem_upper linear_address mem s = Inr (linear_address, s)"
| "setup_tables (Suc n) i1 mem_upper linear_address mem s =
     andthen (clear_pages linear_address 1 s) (\<lambda>s1.
     andthen (wr32 (entry_at (lptd s1) (word_of_nat i1)) (linear_address OR LINEAR_ALLOCATED) s1) (\<lambda>s2.
     andthen (fill_table linear_address 0 mem_upper mem s2) (\<lambda>(mem1, s3).
       setup_tables n (i1 + 1) mem_upper (linear_address + KPAGESIZE) mem1 s3)))"

text \<open>The loop that marks the tables themselves.\<close>

primrec mark_tables :: "nat \<Rightarrow> nat \<Rightarrow> kmem \<Rightarrow> stop + kmem" where
  "mark_tables 0 i1 s = Inr s"
| "mark_tables (Suc n) i1 s =
     andthen (rd32 s (entry_at (lptd s) (word_of_nat i1))) (\<lambda>addr.
     andthen (if addr AND LINEAR_ALLOCATED \<noteq> 0
              then linear_block (page_base addr) (page_base addr + KPAGESIZE) s else Inr s) (\<lambda>s1.
       mark_tables n (i1 + 1) s1))"

definition setup_zones :: "u32 \<Rightarrow> u32 \<Rightarrow> kmem \<Rightarrow> kmem" where
  "setup_zones mem_upper linear_address s =
     (let z0 = (if 0x01000000 < mem_upper
            then (zones s)(ZONE_NORMAL :=
              \<lparr>zone_next = (if 0x01000000 < linear_address then linear_address else 0x01000000),
               zone_start = 0x01000000, zone_end = mem_upper\<rparr>)
            else zones s);
          z1 = z0(ZONE_DMA :=
              \<lparr>zone_next = (if 0x00100000 < linear_address \<and> linear_address < 0x01000000
                            then linear_address else 0x00100000),
               zone_start = 0x00100000, zone_end = min 0x01000000 mem_upper\<rparr>);
          z2 = z1(ZONE_KERNEL :=
              \<lparr>zone_next = 0x00001000, zone_start = 0x00001000, zone_end = 0x00100000\<rparr>)
      in s\<lparr>zones := z2\<rparr>)"

definition kmemory_linear_setup :: "u32 \<Rightarrow> u32 \<Rightarrow> u32 \<Rightarrow> kmem \<Rightarrow> stop + kmem" where
  "kmemory_linear_setup mem_lower mem_upper kernel_max s =
     (let linear_address = page_base (kernel_max - 1) + KPAGESIZE;
          tables = unat (drop_bit 22 mem_upper) + 1;
          s0 = s\<lparr>lptd := linear_address\<rparr>
      in andthen (clear_pages (lptd s0) 1 s0) (\<lambda>s1.
         andthen (setup_tables tables 0 mem_upper (linear_address + KPAGESIZE) 0 s1) (\<lambda>(linear_end, s2).
         andthen (linear_block (lptd s2) (lptd s2 + KPAGESIZE) s2) (\<lambda>s3.
         andthen (mark_tables tables 0 s3) (\<lambda>s4.
         andthen (get_free_pages 1 ZONE_DMA (setup_zones mem_upper linear_end s4)) (\<lambda>(directory, s5).
         andthen (clear_pages directory 1 (s5\<lparr>vptd := directory\<rparr>)) (\<lambda>s6.
         andthen (linear_block directory (directory + KPAGESIZE) s6) (\<lambda>s7.
         andthen (get_free_pages 2 ZONE_DMA s7) (\<lambda>(block, s8).
         andthen (clear_pages block 2 (s8\<lparr>virtual_block := block\<rparr>)) (\<lambda>s9.
         andthen (linear_block block (block + KPAGESIZE * 2) s9) (\<lambda>s10.
         andthen (wr32 (block + 16) (block + KPAGESIZE) s10) (\<lambda>s11.
           Inr (s11\<lparr>virtual_address := 0x10000000\<rparr>)))))))))))))"

text \<open>\<^verbatim>\<open>kmemory_virtual_setup\<close>: the identity mapping of every frame marked allocated.\<close>

function setup_identity_table :: "u32 \<Rightarrow> nat \<Rightarrow> kmem \<Rightarrow> stop + kmem" where
  "setup_identity_table pt i2 s =
     (if i2 < 1024 then
        andthen (rd32 s (entry_at pt (word_of_nat i2))) (\<lambda>addr.
        andthen (if addr AND LINEAR_ALLOCATED \<noteq> 0 then
            andthen (set_virtual_entry (page_base addr) (page_base addr) VIRTUAL_KERNEL s) (\<lambda>s1.
              set_linear_entry (page_base addr) (page_base addr) LINEAR_ALLOCATED s1)
          else Inr s) (\<lambda>s2.
          setup_identity_table pt (i2 + 1) s2))
      else Inr s)"
  by pat_completeness auto
termination by (relation "measure (\<lambda>(pt, i2, s). 1024 - i2)") auto

declare setup_identity_table.simps [simp del]

function setup_identity :: "nat \<Rightarrow> kmem \<Rightarrow> stop + kmem" where
  "setup_identity i1 s =
     (if i1 < 1024 then
        andthen (rd32 s (entry_at (lptd s) (word_of_nat i1))) (\<lambda>d.
        andthen (if d AND LINEAR_ALLOCATED \<noteq> 0 then
            andthen (set_virtual_entry (page_base d) (page_base d) VIRTUAL_KERNEL s) (\<lambda>s1.
            andthen (set_linear_entry (page_base d) (page_base d) LINEAR_ALLOCATED s1) (\<lambda>s2.
              setup_identity_table (page_base d) 0 s2))
          else Inr s) (\<lambda>s3.
          setup_identity (i1 + 1) s3))
      else Inr s)"
  by pat_completeness auto
termination by (relation "measure (\<lambda>(i1, s). 1024 - i1)") auto

declare setup_identity.simps [simp del]

definition kmemory_virtual_setup :: "kmem \<Rightarrow> stop + kmem" where
  "kmemory_virtual_setup s = setup_identity 0 s"

section \<open>The page fault handler\<close>

text \<open>
  The handler returns to the faulting instruction, or gives the fault up: it prints a report and ends
  in \<^verbatim>\<open>kthread_kill_current\<close>, which the theory \<open>Report\<close> adds.
\<close>

datatype fault_outcome = Resumed kmem | Kill_Current kmem

definition handle_page_fault :: "u32 \<Rightarrow> kmem \<Rightarrow> stop + fault_outcome" where
  "handle_page_fault cr2 s =
     andthen (kspinlock_lock (kmemory_spinlock s)) (\<lambda>lock.
       let s0 = s\<lparr>kmemory_spinlock := lock\<rparr>;
           unlock = (\<lambda>s'. s'\<lparr>kmemory_spinlock := kspinlock_unlock (kmemory_spinlock s')\<rparr>);
           give_up = Inr (Kill_Current (unlock s0))
       in andthen (rd32 s0 (directory_slot s0 cr2)) (\<lambda>d.
          if page_base d \<noteq> 0 then
            (let page = entry_at (page_base d) (table_index cr2) in
             andthen (rd32 s0 page) (\<lambda>page_local.
               if page_local AND VIRTUAL_ASSIGNED \<noteq> 0 then
                 andthen (get_free_pages 1 ZONE_NORMAL s0) (\<lambda>(address, s1).
                 andthen (wr32 page (address OR VIRTUAL_KERNEL) s1) (\<lambda>s2.
                 andthen (set_linear_entry (page_base cr2) address LINEAR_ALLOCATED s2) (\<lambda>s3.
                 andthen (if page_local AND VIRTUAL_ZERO \<noteq> 0 then clear_pages (page_base cr2) 1 s3
                          else Inr s3) (\<lambda>s4.
                   Inr (Resumed (unlock (tlb_invalidate s4)))))))
               else give_up))
          else give_up))"


section \<open>The layout of the tables\<close>

definition virtual_dir :: "kmem \<Rightarrow> u32 \<Rightarrow> u32" where
  "virtual_dir s j = load32 (ram s) (entry_at (vptd s) j)"

text \<open>The pages the processor's walk reads, and the pages of the linear tables.\<close>

definition table_page :: "kmem \<Rightarrow> u32 \<Rightarrow> bool" where
  "table_page s q \<longleftrightarrow> q = vptd s \<or> (\<exists>j<1024. bit (virtual_dir s j) 0 \<and> q = page_base (virtual_dir s j))"

definition linear_page :: "kmem \<Rightarrow> u32 \<Rightarrow> bool" where
  "linear_page s q \<longleftrightarrow> q = lptd s \<or> (\<exists>i<1024. table_present s i \<and> q = page_base (dir_entry s i))"

text \<open>
  The invariant of the memory manager: the processor walks the kernel's tables, the kernel reaches
  all tables at their own addresses, no two tables share a page, and no available frame is a table.
\<close>

definition memory_ok :: "kmem \<Rightarrow> bool" where
  "memory_ok s \<longleftrightarrow>
     (paging s \<longrightarrow> cr3 s = vptd s) \<and> page_aligned (vptd s) \<and> page_aligned (lptd s) \<and>
     (\<forall>q. table_page s q \<or> linear_page s q \<longrightarrow> identity_mapped s q) \<and>
     (\<forall>j<1024. \<forall>k<1024. bit (virtual_dir s j) 0 \<and> bit (virtual_dir s k) 0 \<and>
        page_base (virtual_dir s j) = page_base (virtual_dir s k) \<longrightarrow> j = k) \<and>
     (\<forall>j<1024. bit (virtual_dir s j) 0 \<longrightarrow> page_base (virtual_dir s j) \<noteq> vptd s) \<and>
     (\<forall>i<1024. \<forall>k<1024. table_present s i \<and> table_present s k \<and>
        page_base (dir_entry s i) = page_base (dir_entry s k) \<longrightarrow> i = k) \<and>
     (\<forall>i<1024. table_present s i \<longrightarrow> page_base (dir_entry s i) \<noteq> lptd s) \<and>
     (\<forall>q. \<not> (table_page s q \<and> linear_page s q)) \<and>
     (\<forall>g<1048576. available s g \<longrightarrow> \<not> table_page s (frame_addr g) \<and> \<not> linear_page s (frame_addr g))"

lemma memory_okD:
  assumes "memory_ok s"
  shows "paging s \<Longrightarrow> cr3 s = vptd s" "page_aligned (vptd s)" "page_aligned (lptd s)"
    "table_page s q \<Longrightarrow> identity_mapped s q" "linear_page s q \<Longrightarrow> identity_mapped s q"
    "j < 1024 \<Longrightarrow> k < 1024 \<Longrightarrow> bit (virtual_dir s j) 0 \<Longrightarrow> bit (virtual_dir s k) 0 \<Longrightarrow>
      page_base (virtual_dir s j) = page_base (virtual_dir s k) \<Longrightarrow> j = k"
    "j < 1024 \<Longrightarrow> bit (virtual_dir s j) 0 \<Longrightarrow> page_base (virtual_dir s j) \<noteq> vptd s"
    "i < 1024 \<Longrightarrow> l < 1024 \<Longrightarrow> table_present s i \<Longrightarrow> table_present s l \<Longrightarrow>
      page_base (dir_entry s i) = page_base (dir_entry s l) \<Longrightarrow> i = l"
    "i < 1024 \<Longrightarrow> table_present s i \<Longrightarrow> page_base (dir_entry s i) \<noteq> lptd s"
    "table_page s q \<Longrightarrow> \<not> linear_page s q"
    "g < 1048576 \<Longrightarrow> available s g \<Longrightarrow> \<not> table_page s (frame_addr g) \<and> \<not> linear_page s (frame_addr g)"
  using assms unfolding memory_ok_def by blast+

lemma table_pageI [intro]:
  "table_page s (vptd s)"
  "j < 1024 \<Longrightarrow> bit (virtual_dir s j) 0 \<Longrightarrow> table_page s (page_base (virtual_dir s j))"
  by (auto simp: table_page_def)

lemma linear_pageI [intro]:
  "linear_page s (lptd s)"
  "i < 1024 \<Longrightarrow> table_present s i \<Longrightarrow> linear_page s (page_base (dir_entry s i))"
  by (auto simp: linear_page_def)

lemma memory_ok_linear: "memory_ok s \<Longrightarrow> linear_tables s"
  using memory_okD(5) [of s] by (auto simp: linear_tables_def)

lemma memory_ok_zones: "memory_ok s \<Longrightarrow> zones_ok s 1"
  by (simp add: zones_ok_def memory_ok_linear)

text \<open>What a state says about the tables; two states that agree on it are both good or both not.\<close>

lemma memory_ok_transfer:
  assumes "memory_ok s"
    and "vptd s' = vptd s" "lptd s' = lptd s" "paging s' = paging s" "paging s' \<Longrightarrow> cr3 s' = vptd s"
    and "\<And>j. j < 1024 \<Longrightarrow> virtual_dir s' j = virtual_dir s j"
    and "\<And>i. i < 1024 \<Longrightarrow> dir_entry s' i = dir_entry s i"
    and "\<And>g. g < 1048576 \<Longrightarrow> available s' g \<Longrightarrow> available s g \<or>
      \<not> table_page s (frame_addr g) \<and> \<not> linear_page s (frame_addr g)"
    and "\<And>q. table_page s q \<or> linear_page s q \<Longrightarrow> identity_mapped s' q"
  shows "memory_ok s'" "table_page s' q \<longleftrightarrow> table_page s q" "linear_page s' q \<longleftrightarrow> linear_page s q"
proof -
  have present: "i < 1024 \<Longrightarrow> table_present s' i \<longleftrightarrow> table_present s i" for i
    by (simp add: table_present_def assms(7))
  have t: "table_page s' q \<longleftrightarrow> table_page s q" for q
    using assms(2,6) by (metis table_page_def)
  have l: "linear_page s' q \<longleftrightarrow> linear_page s q" for q
    using assms(3,7) present by (metis linear_page_def)
  show "table_page s' q \<longleftrightarrow> table_page s q" "linear_page s' q \<longleftrightarrow> linear_page s q"
    by (rule t, rule l)
  show "memory_ok s'"
    unfolding memory_ok_def t l
    using assms(2-9) memory_okD [OF assms(1)] by (simp add: present) blast
qed


section \<open>Stores to linear entries\<close>

lemma word_of_nat_eq_1024:
  "i < 1024 \<Longrightarrow> k < 1024 \<Longrightarrow> (word_of_nat i :: u32) = word_of_nat k \<longleftrightarrow> i = k"
  by (auto simp: word_unat_eq_iff unat_of_nat_small)

lemma dir_frame: "(g :: nat) < 1048576 \<Longrightarrow> g div 1024 < 1024"
  by simp

text \<open>A load from a table that is not the page stored to.\<close>

lemma load_other_page:
  assumes "page_aligned p" "page_aligned q" "i < 1024" "j < 1024" "p \<noteq> q"
  shows "load32 (store32 m (entry_at p i) v) (entry_at q j) = load32 m (entry_at q j)"
  using assms by (simp add: load_store_entry)

lemma walk_other_page:
  assumes "memory_ok s" "\<not> table_page s q" "page_aligned q" "j < 1024"
  shows "walk (store32 (ram s) (entry_at q j) v) (vptd s) va = walk (ram s) (vptd s) va"
proof (cases "bit (virtual_dir s (dir_index va)) 0")
  case True
  note d = memory_okD(2) [OF assms(1)]
  have "q \<noteq> vptd s" "q \<noteq> page_base (virtual_dir s (dir_index va))"
    using assms(2) True by (auto simp: table_page_def)
  then show ?thesis
    by (intro walk_store_other assms(3,4)) (simp_all add: page_base_aligned [OF d] virtual_dir_def)
next
  case False
  note d = memory_okD(2) [OF assms(1)]
  have "q \<noteq> vptd s" using assms(2) by (auto simp: table_page_def)
  with False show ?thesis
    by (simp add: walk_def Let_def page_base_aligned [OF d] virtual_dir_def
      load_other_page [OF assms(3) d assms(4)])
qed

lemma translate_other_page:
  assumes "memory_ok s" "\<not> table_page s q" "page_aligned q" "j < 1024"
  shows "translate (s\<lparr>ram := store32 (ram s) (entry_at q j) v\<rparr>) va = translate s va"
  using walk_other_page [OF assms] memory_okD(1) [OF assms(1)] by (simp add: translate_def)

lemma store_linear:
  fixes s :: kmem and v :: u32
  assumes ok: "memory_ok s" and g: "g < 1048576" "table_present s (g div 1024)"
  defines "s1 \<equiv> s\<lparr>ram := store32 (ram s) (linear_slot s g) v\<rparr>"
  shows "\<And>j. j < 1024 \<Longrightarrow> virtual_dir s1 j = virtual_dir s j"
    "\<And>i. i < 1024 \<Longrightarrow> dir_entry s1 i = dir_entry s i"
    "\<And>va. translate s1 va = translate s va"
    "\<And>h. h < 1048576 \<Longrightarrow> table_present s (h div 1024) \<Longrightarrow>
      load32 (ram s1) (linear_slot s1 h) = (if h = g then v else load32 (ram s) (linear_slot s h))"
    "\<And>va. walk (ram s1) (vptd s) va = walk (ram s) (vptd s) va"
proof -
  let ?q = "page_base (dir_entry s (g div 1024))"
  have q1: "linear_page s ?q" using g(2) dir_frame [OF g(1)] by (rule linear_pageI(2) [rotated])
  then have q2: "\<not> table_page s ?q" using memory_okD(10) [OF ok] by blast
  then have "?q \<noteq> vptd s" using table_pageI(1) by metis
  note q = q1 q2 memory_okD(9) [OF ok dir_frame [OF g(1)] g(2)] this
  note idx = word_of_nat_less_1024 [of "g mod 1024"]
  show vd: "virtual_dir s1 j = virtual_dir s j" if "j < 1024" for j
    using that q(4) memory_okD(2) [OF ok]
    by (simp add: virtual_dir_def s1_def linear_slot_def load_other_page)
  show de: "dir_entry s1 i = dir_entry s i" if "i < 1024" for i
  proof -
    have "load32 (store32 (ram s) (entry_at ?q (word_of_nat (g mod 1024))) v)
        (entry_at (lptd s) (word_of_nat i)) = load32 (ram s) (entry_at (lptd s) (word_of_nat i))"
      using that by (intro load_other_page q(3) memory_okD(3) [OF ok]) simp_all
    then show ?thesis by (simp add: s1_def dir_entry_def linear_slot_def)
  qed
  show "translate s1 va = translate s va" for va
    unfolding s1_def linear_slot_def by (rule translate_other_page [OF ok q(2)]) simp_all
  show "walk (ram s1) (vptd s) va = walk (ram s) (vptd s) va" for va
    using walk_other_page [OF ok q(2), of "word_of_nat (g mod 1024)" v va]
    by (simp add: s1_def linear_slot_def)
  show "load32 (ram s1) (linear_slot s1 h) = (if h = g then v else load32 (ram s) (linear_slot s h))"
    if h: "h < 1048576" "table_present s (h div 1024)" for h
  proof -
    have slot: "linear_slot s1 h = linear_slot s h"
      by (simp add: linear_slot_def de dir_frame [OF h(1)])
    have "?q = page_base (dir_entry s (h div 1024)) \<and>
        (word_of_nat (g mod 1024) :: u32) = word_of_nat (h mod 1024) \<longleftrightarrow> h = g"
    proof
      assume a: "?q = page_base (dir_entry s (h div 1024)) \<and>
        (word_of_nat (g mod 1024) :: u32) = word_of_nat (h mod 1024)"
      then have "g div 1024 = h div 1024"
        using memory_okD(8) [OF ok] g h dir_frame [OF g(1)] dir_frame [OF h(1)] by blast
      moreover have "g mod 1024 = h mod 1024" using a by (simp add: word_of_nat_eq_1024)
      ultimately show "h = g" by (metis mult_div_mod_eq)
    qed simp
    then show ?thesis
      unfolding slot by (simp add: s1_def linear_slot_def load_store_entry)
  qed
qed

lemma store_linear_available:
  assumes "memory_ok s" "g < 1048576" "table_present s (g div 1024)" "h < 1048576"
  shows "available (s\<lparr>ram := store32 (ram s) (linear_slot s g) v\<rparr>) h \<longleftrightarrow>
    (if h = g then v AND LINEAR_AVAILABLE \<noteq> 0 else available s h)"
  using store_linear(2,4) [OF assms(1-3), where v = v] assms(3,4) dir_frame [OF assms(4)]
  by (auto simp: available_def table_present_def)

lemma identity_mapped_transfer:
  "identity_mapped s q \<Longrightarrow> (\<And>a. page_base a = q \<Longrightarrow> translate s' a = translate s a) \<Longrightarrow> identity_mapped s' q"
  by (simp add: identity_mapped_def)

lemma store_linear_ok:
  fixes s :: kmem and v :: u32
  assumes "memory_ok s" "g < 1048576" "table_present s (g div 1024)"
    and v: "v AND LINEAR_AVAILABLE = 0 \<or> \<not> table_page s (frame_addr g) \<and> \<not> linear_page s (frame_addr g)"
  defines "s1 \<equiv> s\<lparr>ram := store32 (ram s) (linear_slot s g) v\<rparr>"
  shows "memory_ok s1" "table_page s1 q \<longleftrightarrow> table_page s q" "linear_page s1 q \<longleftrightarrow> linear_page s q"
proof -
  note st = store_linear [OF assms(1-3), where v = v, folded s1_def]
  have same: "vptd s1 = vptd s" "lptd s1 = lptd s" "paging s1 = paging s" "cr3 s1 = cr3 s"
    by (simp_all add: s1_def)
  have av: "h < 1048576 \<Longrightarrow> available s1 h \<Longrightarrow> available s h \<or>
      \<not> table_page s (frame_addr h) \<and> \<not> linear_page s (frame_addr h)" for h
    using store_linear_available [OF assms(1-3), of h v] v by (auto simp: s1_def split: if_splits)
  have id: "table_page s q \<or> linear_page s q \<Longrightarrow> identity_mapped s1 q" for q
    using memory_okD(4,5) [OF assms(1)] st(3) by (metis identity_mapped_transfer)
  have cr: "paging s1 \<Longrightarrow> cr3 s1 = vptd s" using memory_okD(1) [OF assms(1)] same by simp
  show "memory_ok s1" "table_page s1 q \<longleftrightarrow> table_page s q" "linear_page s1 q \<longleftrightarrow> linear_page s q"
    using memory_ok_transfer [OF assms(1) same(1-3) cr st(1) st(2) av id] by blast+
qed


section \<open>Stores to virtual entries\<close>

text \<open>The address of the page table entry of a virtual address.\<close>

definition virtual_slot :: "kmem \<Rightarrow> u32 \<Rightarrow> u32" where
  "virtual_slot s va = entry_at (page_base (virtual_dir s (dir_index va))) (table_index va)"

lemma walk_eq:
  assumes "page_aligned (vptd s)"
  shows "walk (ram s) (vptd s) va =
    (if \<not> bit (virtual_dir s (dir_index va)) 0 then None
     else if \<not> bit (load32 (ram s) (virtual_slot s va)) 0 then None
     else Some (page_base (load32 (ram s) (virtual_slot s va)) OR (va AND 0xFFF)))"
  by (simp add: walk_def Let_def virtual_dir_def virtual_slot_def page_base_aligned [OF assms])

lemma store_virtual:
  fixes s :: kmem and v :: u32
  assumes ok: "memory_ok s" and here: "bit (virtual_dir s (dir_index va)) 0"
  defines "s1 \<equiv> s\<lparr>ram := store32 (ram s) (virtual_slot s va) v\<rparr>"
  shows "\<And>j. j < 1024 \<Longrightarrow> virtual_dir s1 j = virtual_dir s j"
    "\<And>i. i < 1024 \<Longrightarrow> dir_entry s1 i = dir_entry s i"
    "\<And>h. h < 1048576 \<Longrightarrow> table_present s (h div 1024) \<Longrightarrow>
      load32 (ram s1) (linear_slot s1 h) = load32 (ram s) (linear_slot s h)"
    "\<And>x. walk (ram s1) (vptd s) x =
      (if page_base x = page_base va then (if bit v 0 then Some (page_base v OR (x AND 0xFFF)) else None)
       else walk (ram s) (vptd s) x)"
proof -
  let ?q = "page_base (virtual_dir s (dir_index va))"
  have q1: "table_page s ?q" by (rule table_pageI(2) [OF _ here]) simp
  have "\<not> linear_page s ?q" "?q \<noteq> vptd s"
    using memory_okD(10) [OF ok q1] memory_okD(7) [OF ok _ here] by simp_all
  note q = q1 this
  then have q4: "?q \<noteq> lptd s" using linear_pageI(1) by metis
  show vd: "virtual_dir s1 j = virtual_dir s j" if "j < 1024" for j
  proof -
    have "load32 (store32 (ram s) (entry_at ?q (table_index va)) v) (entry_at (vptd s) j) =
        load32 (ram s) (entry_at (vptd s) j)"
      using that by (intro load_other_page q(3) memory_okD(2) [OF ok]) simp_all
    then show ?thesis by (simp add: s1_def virtual_dir_def virtual_slot_def)
  qed
  show de: "dir_entry s1 i = dir_entry s i" if "i < 1024" for i
  proof -
    have "load32 (store32 (ram s) (entry_at ?q (table_index va)) v) (entry_at (lptd s) (word_of_nat i)) =
        load32 (ram s) (entry_at (lptd s) (word_of_nat i))"
      using that by (intro load_other_page q4 memory_okD(3) [OF ok]) simp_all
    then show ?thesis by (simp add: s1_def dir_entry_def virtual_slot_def)
  qed
  show "load32 (ram s1) (linear_slot s1 h) = load32 (ram s) (linear_slot s h)"
    if h: "h < 1048576" "table_present s (h div 1024)" for h
  proof -
    have slot: "linear_slot s1 h = linear_slot s h"
      by (simp add: linear_slot_def de dir_frame [OF h(1)])
    have "page_base (dir_entry s (h div 1024)) \<noteq> ?q"
      using q(2) linear_pageI(2) [OF dir_frame [OF h(1)] h(2)] by metis
    then have "load32 (store32 (ram s) (entry_at ?q (table_index va)) v)
        (entry_at (page_base (dir_entry s (h div 1024))) (word_of_nat (h mod 1024))) =
        load32 (ram s) (entry_at (page_base (dir_entry s (h div 1024))) (word_of_nat (h mod 1024)))"
      by (intro load_other_page) simp_all
    then show ?thesis unfolding slot by (simp add: s1_def virtual_slot_def linear_slot_def)
  qed
  show "walk (ram s1) (vptd s) x =
      (if page_base x = page_base va then (if bit v 0 then Some (page_base v OR (x AND 0xFFF)) else None)
       else walk (ram s) (vptd s) x)" for x
  proof -
    have al: "page_aligned (vptd s)" by (rule memory_okD(2) [OF ok])
    have same: "vptd s1 = vptd s" by (simp add: s1_def)
    have slot: "virtual_slot s1 x = virtual_slot s x" by (simp add: virtual_slot_def vd)
    have load: "load32 (ram s1) (virtual_slot s x) =
        (if page_base x = page_base va then v else load32 (ram s) (virtual_slot s x))"
      if b: "bit (virtual_dir s (dir_index x)) 0"
    proof -
      have "page_base (virtual_dir s (dir_index x)) = ?q \<longleftrightarrow> dir_index x = dir_index va"
        using memory_okD(6) [OF ok index_less(1) index_less(1) b here] by metis
      then have "page_base x = page_base va \<longleftrightarrow>
          ?q = page_base (virtual_dir s (dir_index x)) \<and> table_index va = table_index x"
        unfolding same_page_iff [of x va, symmetric] by metis
      then show ?thesis
        using load_store_entry [OF page_aligned_base page_aligned_base index_less(2) index_less(2),
          of "ram s" "virtual_dir s (dir_index va)" va v "virtual_dir s (dir_index x)" x]
        unfolding s1_def virtual_slot_def by simp
    qed
    have present: "bit (virtual_dir s (dir_index x)) 0" if "page_base x = page_base va"
      using that here same_page_iff [of x va] by simp
    have w1: "walk (ram s1) (vptd s) x = (if \<not> bit (virtual_dir s (dir_index x)) 0 then None
       else if \<not> bit (load32 (ram s1) (virtual_slot s x)) 0 then None
       else Some (page_base (load32 (ram s1) (virtual_slot s x)) OR (x AND 0xFFF)))"
      using walk_eq [of s1 x] al unfolding same slot vd [OF index_less(1)] .
    show ?thesis
    proof (cases "page_base x = page_base va")
      case True
      then show ?thesis unfolding w1 by (simp add: load [OF present [OF True]] present)
    next
      case False
      then show ?thesis unfolding w1 walk_eq [OF al] using load by simp
    qed
  qed
qed

lemma store_virtual_ok:
  fixes s :: kmem and v :: u32
  assumes ok: "memory_ok s" and here: "bit (virtual_dir s (dir_index va)) 0"
    and keep: "table_page s (page_base va) \<or> linear_page s (page_base va) \<Longrightarrow>
      paging s \<Longrightarrow> bit v 0 \<and> page_base v = page_base va"
  defines "s1 \<equiv> s\<lparr>ram := store32 (ram s) (virtual_slot s va) v\<rparr>"
  shows "memory_ok s1" "table_page s1 q \<longleftrightarrow> table_page s q" "linear_page s1 q \<longleftrightarrow> linear_page s q"
    "h < 1048576 \<Longrightarrow> available s1 h \<longleftrightarrow> available s h"
proof -
  note st = store_virtual [OF assms(1,2), where v = v, folded s1_def]
  have same: "vptd s1 = vptd s" "lptd s1 = lptd s" "paging s1 = paging s" "cr3 s1 = cr3 s"
    by (simp_all add: s1_def)
  have av: "available s1 h \<longleftrightarrow> available s h" if "h < 1048576" for h
    using st(2) st(3) [OF that] dir_frame [OF that] by (auto simp: available_def table_present_def)
  have cr: "paging s1 \<Longrightarrow> cr3 s1 = vptd s" using memory_okD(1) [OF assms(1)] same by simp
  have id: "identity_mapped s1 q" if q: "table_page s q \<or> linear_page s q" for q
  proof -
    have i: "identity_mapped s q" using q memory_okD(4,5) [OF ok] by blast
    have "translate s1 a = translate s a" if a: "page_base a = q" for a
    proof (cases "paging s \<and> page_base a = page_base va")
      case False
      then show ?thesis using st(4) cr memory_okD(1) [OF ok] by (auto simp: translate_def same)
    next
      case True
      then have "bit v 0 \<and> page_base v = page_base a" using keep q a by simp
      moreover have "translate s a = Some a" using i a by (simp add: identity_mapped_def)
      moreover have "page_base a OR (a AND 0xFFF) = a"
        by (rule bit_word_eqI) (auto simp: and_high_mask and_low_mask bit_simps)
      ultimately show ?thesis using True st(4) cr by (simp add: translate_def same)
    qed
    with i show ?thesis by (rule identity_mapped_transfer)
  qed
  show "memory_ok s1" "table_page s1 q \<longleftrightarrow> table_page s q" "linear_page s1 q \<longleftrightarrow> linear_page s q"
    using memory_ok_transfer [OF ok same(1-3) cr st(1) st(2) _ id] av by blast+
  show "h < 1048576 \<Longrightarrow> available s1 h \<longleftrightarrow> available s h" by (rule av)
qed


section \<open>Changes that leave the tables alone\<close>

lemma tables_frame [simp]:
  "virtual_dir (s\<lparr>zones := z\<rparr>) = virtual_dir s" "virtual_dir (s\<lparr>kmemory_spinlock := l\<rparr>) = virtual_dir s"
  "virtual_dir (s\<lparr>eflags_reg := e\<rparr>) = virtual_dir s" "virtual_dir (s\<lparr>cr3 := c\<rparr>) = virtual_dir s"
  "dir_entry (s\<lparr>zones := z\<rparr>) = dir_entry s" "dir_entry (s\<lparr>kmemory_spinlock := l\<rparr>) = dir_entry s"
  "dir_entry (s\<lparr>eflags_reg := e\<rparr>) = dir_entry s" "dir_entry (s\<lparr>cr3 := c\<rparr>) = dir_entry s"
  by (auto simp: virtual_dir_def dir_entry_def)

lemma linear_frame [simp]:
  "linear_slot (s\<lparr>zones := z\<rparr>) = linear_slot s" "linear_slot (s\<lparr>kmemory_spinlock := l\<rparr>) = linear_slot s"
  "linear_slot (s\<lparr>eflags_reg := e\<rparr>) = linear_slot s" "linear_slot (s\<lparr>cr3 := c\<rparr>) = linear_slot s"
  "available (s\<lparr>zones := z\<rparr>) = available s" "available (s\<lparr>kmemory_spinlock := l\<rparr>) = available s"
  "available (s\<lparr>eflags_reg := e\<rparr>) = available s" "available (s\<lparr>cr3 := c\<rparr>) = available s"
  by (auto simp: linear_slot_def available_def table_present_def fun_eq_iff)

lemma translate_frame [simp]:
  "translate (s\<lparr>zones := z\<rparr>) = translate s" "translate (s\<lparr>kmemory_spinlock := l\<rparr>) = translate s"
  "translate (s\<lparr>eflags_reg := e\<rparr>) = translate s"
  "virtual_slot (s\<lparr>zones := z\<rparr>) = virtual_slot s" "virtual_slot (s\<lparr>kmemory_spinlock := l\<rparr>) = virtual_slot s"
  "virtual_slot (s\<lparr>eflags_reg := e\<rparr>) = virtual_slot s" "virtual_slot (s\<lparr>cr3 := c\<rparr>) = virtual_slot s"
  by (auto simp: translate_def virtual_slot_def fun_eq_iff)

lemma memory_ok_frame:
  assumes "memory_ok s"
  shows "memory_ok (s\<lparr>zones := z\<rparr>)" "memory_ok (s\<lparr>kmemory_spinlock := l\<rparr>)" "memory_ok (s\<lparr>eflags_reg := e\<rparr>)"
  by (rule memory_ok_transfer(1) [OF assms];
      use memory_okD(1,4,5) [OF assms] in \<open>auto simp: identity_mapped_def\<close>)+

text \<open>Rewriting a page that is not a table.\<close>

lemma other_frame:
  fixes s :: kmem
  assumes ok: "memory_ok s" and f: "\<not> table_page s f" "\<not> linear_page s f"
    and m: "\<And>a. page_base a \<noteq> f \<Longrightarrow> m a = ram s a"
  shows "\<And>va. translate (s\<lparr>ram := m\<rparr>) va = translate s va"
    "\<And>j. j < 1024 \<Longrightarrow> virtual_dir (s\<lparr>ram := m\<rparr>) j = virtual_dir s j"
    "\<And>i. i < 1024 \<Longrightarrow> dir_entry (s\<lparr>ram := m\<rparr>) i = dir_entry s i"
    "\<And>h. h < 1048576 \<Longrightarrow> table_present s (h div 1024) \<Longrightarrow>
      load32 m (linear_slot s h) = load32 (ram s) (linear_slot s h)"
    "\<And>h. h < 1048576 \<Longrightarrow> available (s\<lparr>ram := m\<rparr>) h \<longleftrightarrow> available s h"
    "memory_ok (s\<lparr>ram := m\<rparr>)"
    "\<And>va. walk m (vptd s) va = walk (ram s) (vptd s) va"
proof -
  let ?s = "s\<lparr>ram := m\<rparr>"
  have load: "load32 m (entry_at q i) = load32 (ram s) (entry_at q i)"
    if "q \<noteq> f" "page_aligned q" "i < 1024" for q i
  proof -
    have "page_base (entry_at q i + j) = q" if "unat j < 4" for j
      using within_word(1) [OF entry_aligned that] entry_page \<open>page_aligned q\<close> \<open>i < 1024\<close> by simp
    from this [of 0] this [of 1] this [of 2] this [of 3] m \<open>q \<noteq> f\<close> show ?thesis
      by (simp add: load32_def)
  qed
  have ne: "vptd s \<noteq> f" "lptd s \<noteq> f" using f table_pageI(1) linear_pageI(1) by metis+
  show w: "walk m (vptd s) va = walk (ram s) (vptd s) va" for va
  proof (cases "bit (virtual_dir s (dir_index va)) 0")
    case True
    then have "page_base (virtual_dir s (dir_index va)) \<noteq> f"
      using f(1) table_pageI(2) [OF index_less(1) True] by metis
    with ne(1) show ?thesis
      by (intro walk_cong m) (auto simp: virtual_dir_def page_base_aligned [OF memory_okD(2) [OF ok]])
  next
    case False
    then show ?thesis
      using load [OF ne(1) memory_okD(2) [OF ok], of "dir_index va"]
      by (simp add: walk_def Let_def virtual_dir_def page_base_aligned [OF memory_okD(2) [OF ok]])
  qed
  show t: "translate ?s va = translate s va" for va
    using w memory_okD(1) [OF ok] by (simp add: translate_def)
  show v: "virtual_dir ?s j = virtual_dir s j" if "j < 1024" for j
    using load [OF ne(1) memory_okD(2) [OF ok] that] by (simp add: virtual_dir_def)
  show d: "dir_entry ?s i = dir_entry s i" if "i < 1024" for i
    using load [OF ne(2) memory_okD(3) [OF ok], of "word_of_nat i"] that by (simp add: dir_entry_def)
  show l: "load32 m (linear_slot s h) = load32 (ram s) (linear_slot s h)"
    if h: "h < 1048576" "table_present s (h div 1024)" for h
  proof -
    have "page_base (dir_entry s (h div 1024)) \<noteq> f"
      using f(2) linear_pageI(2) [OF dir_frame [OF h(1)] h(2)] by metis
    then show ?thesis unfolding linear_slot_def by (intro load) simp_all
  qed
  show av: "available ?s h \<longleftrightarrow> available s h" if h: "h < 1048576" for h
    using d [OF dir_frame [OF h]] l [OF h]
    by (auto simp: available_def table_present_def linear_slot_def)
  show "memory_ok ?s"
  proof (rule memory_ok_transfer(1) [OF ok])
    show "identity_mapped ?s q" if "table_page s q \<or> linear_page s q" for q
      using that t memory_okD(4,5) [OF ok] by (metis identity_mapped_transfer)
  qed (use v d av memory_okD(1) [OF ok] in auto)
qed

section \<open>Frames, taken and entered\<close>

lemma get_one:
  fixes s :: kmem
  assumes ok: "memory_ok s" and get: "get_free_pages 1 zone s = Inr (a, s1)"
  obtains g z where "g < 1048576" "a = frame_addr g" "available s g"
    "s1 = s\<lparr>ram := store32 (ram s) (linear_slot s g) LINEAR_ALLOCATED, zones := z\<rparr>"
  using scan_zones_spec [OF memory_ok_zones [OF ok], of zone] get
  by (auto simp: get_free_pages_def found_def Suc_le_eq)

lemma set_linear_frame:
  assumes "memory_ok s" "g < 1048576" "table_present s (g div 1024)"
  shows "set_linear_entry vaddr (frame_addr g) flags s =
    Inr (s\<lparr>ram := store32 (ram s) (linear_slot s g) (vaddr OR flags)\<rparr>)"
  using identity_access [OF memory_okD(5) [OF assms(1) linear_pageI(1)], of "word_of_nat (g div 1024)"]
    identity_access [OF memory_okD(5) [OF assms(1) linear_pageI(2) [OF dir_frame [OF assms(2)] assms(3)]],
      of "word_of_nat (g mod 1024)"] dir_frame [OF assms(2)]
  by (simp add: set_linear_entry_def frame_addr_indices [OF assms(2)] dir_entry_def linear_slot_def)


section \<open>Demand paging\<close>

lemma rd_directory:
  assumes "memory_ok s"
  shows "rd32 s (directory_slot s va) = Inr (virtual_dir s (dir_index va))"
  using identity_access(1) [OF memory_okD(4) [OF assms table_pageI(1)] index_less(1)]
  by (simp add: directory_slot_def virtual_dir_def)

lemma access_virtual_slot:
  assumes "memory_ok s" "bit (virtual_dir s (dir_index va)) 0"
  shows "rd32 s (virtual_slot s va) = Inr (load32 (ram s) (virtual_slot s va))"
    "wr32 (virtual_slot s va) v s = Inr (s\<lparr>ram := store32 (ram s) (virtual_slot s va) v\<rparr>)"
  using identity_access [OF memory_okD(4) [OF assms(1) table_pageI(2) [OF index_less(1) assms(2)]] index_less(2)]
  by (simp_all add: virtual_slot_def)

text \<open>A page whose entry is not present is no table.\<close>

lemma absent_not_table:
  assumes "memory_ok s" "paging s" "\<not> bit (load32 (ram s) (virtual_slot s va)) 0"
  shows "\<not> table_page s (page_base va)" "\<not> linear_page s (page_base va)"
proof -
  have "walk (ram s) (vptd s) va = None"
    using assms(3) by (simp add: walk_eq [OF memory_okD(2) [OF assms(1)]])
  then have "translate s va = None" using memory_okD(1) [OF assms(1,2)] assms(2) by (simp add: translate_def)
  then have "\<not> identity_mapped s (page_base va)" by (auto simp: identity_mapped_def)
  then show "\<not> table_page s (page_base va)" "\<not> linear_page s (page_base va)"
    using memory_okD(4,5) [OF assms(1)] by blast+
qed

lemma kernel_entry_bits: "bit (a OR VIRTUAL_KERNEL) 0" "page_aligned f \<Longrightarrow> page_base (f OR VIRTUAL_KERNEL) = f"
proof -
  show "bit (a OR VIRTUAL_KERNEL) 0" by (simp add: bit_simps)
  assume f: "page_aligned f"
  have "page_base (f OR VIRTUAL_KERNEL) = page_base f"
    by (simp add: bit.conj_disj_distrib2)
  with f show "page_base (f OR VIRTUAL_KERNEL) = f" by (simp add: page_base_aligned)
qed

lemma base_not_available: "(page_base a OR LINEAR_ALLOCATED) AND LINEAR_AVAILABLE = 0"
  by (simp add: bit.conj_disj_distrib2 and.assoc)

lemma page_aligned_frame: "g < 1048576 \<Longrightarrow> page_aligned (frame_addr g)"
  by (simp add: page_aligned_def unat_frame_addr)

lemma demand_page:
  fixes s :: kmem
  assumes ok: "memory_ok s" and pg: "paging s" and here: "bit (virtual_dir s (dir_index va)) 0"
    and absent: "\<not> bit (load32 (ram s) (virtual_slot s va)) 0"
    and get: "get_free_pages 1 zone s = Inr (a, s1)"
  obtains g s3 where "g < 1048576" "a = frame_addr g" "available s g"
    "andthen (wr32 (virtual_slot s va) (a OR VIRTUAL_KERNEL) s1) (\<lambda>s2.
       set_linear_entry (page_base va) a LINEAR_ALLOCATED s2) = Inr s3"
    "memory_ok s3" "paging s3" "vptd s3 = vptd s" "kmemory_spinlock s3 = kmemory_spinlock s"
    "\<forall>h<1048576. available s3 h = (available s h \<and> h \<noteq> g)"
    "\<forall>x. translate s3 x =
      (if page_base x = page_base va then Some (frame_addr g OR (x AND 0xFFF)) else translate s x)"
    "load32 (ram s3) (linear_slot s3 g) = page_base va OR LINEAR_ALLOCATED" "table_present s3 (g div 1024)"
    "\<not> table_page s3 (frame_addr g)" "\<not> linear_page s3 (frame_addr g)"
proof -
  obtain g z where g: "g < 1048576" "a = frame_addr g" "available s g"
    and s1: "s1 = s\<lparr>ram := store32 (ram s) (linear_slot s g) LINEAR_ALLOCATED, zones := z\<rparr>"
    using get_one [OF ok get] by blast
  have gp: "table_present s (g div 1024)" using g(3) by (simp add: available_def)
  let ?A = "s\<lparr>ram := store32 (ram s) (linear_slot s g) LINEAR_ALLOCATED\<rparr>"
  note A = store_linear [OF ok g(1) gp, where v = LINEAR_ALLOCATED]
  have Aok: "memory_ok ?A" and At: "\<And>q. table_page ?A q \<longleftrightarrow> table_page s q"
    and Al: "\<And>q. linear_page ?A q \<longleftrightarrow> linear_page s q"
    using store_linear_ok [OF ok g(1) gp, where v = LINEAR_ALLOCATED] by simp_all
  have A1: "s1 = ?A\<lparr>zones := z\<rparr>" by (simp add: s1)
  have ok1: "memory_ok s1" unfolding A1 by (rule memory_ok_frame [OF Aok])
  have here1: "bit (virtual_dir s1 (dir_index va)) 0" unfolding A1 by (simp add: A(1) here)
  have slot1: "virtual_slot s1 va = virtual_slot s va" unfolding A1 by (simp add: virtual_slot_def A(1))
  have pages1: "table_page s1 q \<longleftrightarrow> table_page s q" "linear_page s1 q \<longleftrightarrow> linear_page s q" for q
    using At Al unfolding A1 by (simp_all add: table_page_def linear_page_def table_present_def)
  have av1: "available s1 h \<longleftrightarrow> available s h \<and> h \<noteq> g" if "h < 1048576" for h
    using store_linear_available [OF ok g(1) gp that, of LINEAR_ALLOCATED] unfolding A1 by simp
  let ?v = "a OR VIRTUAL_KERNEL"
  define s2 where "s2 = s1\<lparr>ram := store32 (ram s1) (virtual_slot s1 va) ?v\<rparr>"
  have w2: "wr32 (virtual_slot s va) ?v s1 = Inr s2"
    using access_virtual_slot(2) [OF ok1 here1, of ?v] by (simp add: slot1 s2_def)
  note B = store_virtual [OF ok1 here1, where v = ?v, folded s2_def]
  have no: "\<not> (table_page s1 (page_base va) \<or> linear_page s1 (page_base va))"
    using absent_not_table [OF ok pg absent] by (simp add: pages1)
  have Bok: "memory_ok s2" "\<And>q. table_page s2 q \<longleftrightarrow> table_page s1 q"
    "\<And>q. linear_page s2 q \<longleftrightarrow> linear_page s1 q" "\<And>h. h < 1048576 \<Longrightarrow> available s2 h \<longleftrightarrow> available s1 h"
    using store_virtual_ok [OF ok1 here1, where v = ?v, folded s2_def] no by blast+
  have gp2: "table_present s2 (g div 1024)"
    using B(2) [OF dir_frame [OF g(1)]] A(2) [OF dir_frame [OF g(1)]] gp
    unfolding A1 by (simp add: table_present_def)
  let ?l = "page_base va OR LINEAR_ALLOCATED"
  define s3 where "s3 = s2\<lparr>ram := store32 (ram s2) (linear_slot s2 g) ?l\<rparr>"
  have l3: "set_linear_entry (page_base va) a LINEAR_ALLOCATED s2 = Inr s3"
    unfolding g(2) s3_def by (rule set_linear_frame [OF Bok(1) g(1) gp2])
  note C = store_linear [OF Bok(1) g(1) gp2, where v = ?l, folded s3_def]
  note Cok = store_linear_ok [OF Bok(1) g(1) gp2 disjI1 [OF base_not_available [of va]], folded s3_def]
  show ?thesis
  proof (rule that [OF g])
    show "andthen (wr32 (virtual_slot s va) (a OR VIRTUAL_KERNEL) s1) (\<lambda>s2.
        set_linear_entry (page_base va) a LINEAR_ALLOCATED s2) = Inr s3"
      unfolding w2 by (simp only: andthen.simps l3)
    show "memory_ok s3" by (rule Cok(1))
    show "paging s3" "vptd s3 = vptd s" "kmemory_spinlock s3 = kmemory_spinlock s"
      using pg by (simp_all add: s3_def s2_def s1)
    have "available s3 h \<longleftrightarrow> available s h \<and> h \<noteq> g" if "h < 1048576" for h
      using store_linear_available [OF Bok(1) g(1) gp2 that, of ?l] Bok(4) [OF that] av1 [OF that]
        base_not_available [of va] by (auto simp: s3_def)
    then show "\<forall>h<1048576. available s3 h = (available s h \<and> h \<noteq> g)" by blast
    have "translate s3 x =
        (if page_base x = page_base va then Some (frame_addr g OR (x AND 0xFFF)) else translate s x)" for x
    proof -
      have "translate s3 x = walk (ram s2) (vptd s1) x"
        using C(3) [of x] memory_okD(1) [OF Bok(1)] pg by (simp add: translate_def s2_def s1)
      moreover have "walk (ram s1) (vptd s1) x = translate s x"
        using A(5) [of x] pg memory_okD(1) [OF ok] by (simp add: translate_def s1)
      ultimately show ?thesis
        using B(4) [of x] kernel_entry_bits(1) [of a] kernel_entry_bits(2) [OF page_aligned_frame [OF g(1)]]
        by (simp add: g(2))
    qed
    then show "\<forall>x. translate s3 x =
      (if page_base x = page_base va then Some (frame_addr g OR (x AND 0xFFF)) else translate s x)" by blast
    show "load32 (ram s3) (linear_slot s3 g) = page_base va OR LINEAR_ALLOCATED"
      using C(4) [OF g(1) gp2] by simp
    show "table_present s3 (g div 1024)"
      using gp2 C(2) [OF dir_frame [OF g(1)]] by (simp add: table_present_def)
    show "\<not> table_page s3 (frame_addr g)" "\<not> linear_page s3 (frame_addr g)"
      using memory_okD(11) [OF ok g(1,3)] by (simp_all add: Cok(2,3) Bok(2,3) pages1)
  qed
qed


lemma clear_one_page:
  assumes ok: "memory_ok s" and f: "\<not> table_page s f" "\<not> linear_page s f" "page_aligned f"
    and p: "\<And>x. page_base x = page_base va \<Longrightarrow> translate s x = Some (f OR (x AND 0xFFF))"
  shows "clear_pages (page_base va) 1 s = Inr (s\<lparr>ram := \<lambda>a. if page_base a = f then 0 else ram s a\<rparr>)"
proof -
  have "rep_stosl 1024 (page_base va) s = Inr (s\<lparr>ram := \<lambda>a. if page_base a = f then 0 else ram s a\<rparr>)"
    using f(3) p other_frame(1) [OF ok f(1,2)] by (intro rep_stosl_page) simp_all
  then show ?thesis by (simp add: clear_pages_def)
qed

lemma tlb_invalidate_same: "memory_ok s \<Longrightarrow> paging s \<Longrightarrow> tlb_invalidate s = s"
  using memory_okD(1) by (simp add: tlb_invalidate_def)

text \<open>
  C2: demand paging. A fault on a page whose entry says \<^verbatim>\<open>VIRTUAL_ASSIGNED\<close> and not yet
  \<^verbatim>\<open>VIRTUAL_ALLOCATED\<close>, with the lock free and a free frame in reach, makes the handler resume the
  program: exactly the faulting page is now mapped, to a frame that was available and no longer is;
  that frame's linear entry names the page; with \<^verbatim>\<open>VIRTUAL_ZERO\<close> the frame reads as zeros; every other
  translation is as before, the lock is as before, and the invariant of the tables holds again.
\<close>

theorem handle_page_fault_maps_fresh_frame:
  assumes "memory_ok s" "paging s" "\<not> bit (kmemory_spinlock s) 31"
    and "bit (virtual_dir s (dir_index cr2)) 0" "page_base (virtual_dir s (dir_index cr2)) \<noteq> 0"
    and "\<not> bit (load32 (ram s) (virtual_slot s cr2)) 0"
    and "load32 (ram s) (virtual_slot s cr2) AND VIRTUAL_ASSIGNED \<noteq> 0"
    and "i < ZONE_COUNT" "scanned (zones s i) g0" "available s g0"
  shows "\<exists>s' g. handle_page_fault cr2 s = Inr (Resumed s') \<and> g < 1048576 \<and> available s g \<and>
    (\<forall>h<1048576. available s' h = (available s h \<and> h \<noteq> g)) \<and>
    (\<forall>x. translate s' x =
      (if page_base x = page_base cr2 then Some (frame_addr g OR (x AND 0xFFF)) else translate s x)) \<and>
    load32 (ram s') (linear_slot s' g) = page_base cr2 OR LINEAR_ALLOCATED \<and>
    (load32 (ram s) (virtual_slot s cr2) AND VIRTUAL_ZERO \<noteq> 0 \<longrightarrow>
      (\<forall>a. page_base a = frame_addr g \<longrightarrow> ram s' a = 0)) \<and>
    kmemory_spinlock s' = kmemory_spinlock s \<and> memory_ok s'"
proof -
  let ?l = "set_bit 31 (kmemory_spinlock s)"
  let ?s0 = "s\<lparr>kmemory_spinlock := ?l\<rparr>"
  let ?pte = "load32 (ram s) (virtual_slot s cr2)"
  have ok: "memory_ok ?s0" by (rule memory_ok_frame [OF assms(1)])
  obtain a s1 where get: "get_free_pages 1 ZONE_NORMAL ?s0 = Inr (a, s1)"
    using one_frame_found [OF memory_ok_zones [OF ok], of ZONE_NORMAL i g0] assms(8-10) by auto
  have pre: "paging ?s0" "bit (virtual_dir ?s0 (dir_index cr2)) 0"
    "\<not> bit (load32 (ram ?s0) (virtual_slot ?s0 cr2)) 0" using assms(2,4,6) by simp_all
  obtain g s3 where g: "g < 1048576" "a = frame_addr g" "available ?s0 g"
    and s3: "andthen (wr32 (virtual_slot ?s0 cr2) (a OR VIRTUAL_KERNEL) s1) (\<lambda>s2.
       set_linear_entry (page_base cr2) a LINEAR_ALLOCATED s2) = Inr s3"
    and ok3: "memory_ok s3" "paging s3" "vptd s3 = vptd ?s0" "kmemory_spinlock s3 = kmemory_spinlock ?s0"
    and av3: "\<forall>h<1048576. available s3 h = (available ?s0 h \<and> h \<noteq> g)"
    and tr3: "\<forall>x. translate s3 x =
      (if page_base x = page_base cr2 then Some (frame_addr g OR (x AND 0xFFF)) else translate ?s0 x)"
    and ln3: "load32 (ram s3) (linear_slot s3 g) = page_base cr2 OR LINEAR_ALLOCATED"
      "table_present s3 (g div 1024)"
    and f3: "\<not> table_page s3 (frame_addr g)" "\<not> linear_page s3 (frame_addr g)"
    by (rule demand_page [OF ok pre get])
  define m where "m = (if ?pte AND VIRTUAL_ZERO \<noteq> 0
    then \<lambda>x. if page_base x = frame_addr g then 0 else ram s3 x else ram s3)"
  let ?s4 = "s3\<lparr>ram := m\<rparr>"
  have mo: "page_base x \<noteq> frame_addr g \<Longrightarrow> m x = ram s3 x" for x by (simp add: m_def)
  have F: "\<And>va. translate ?s4 va = translate s3 va" "\<And>j. j < 1024 \<Longrightarrow> virtual_dir ?s4 j = virtual_dir s3 j"
    "\<And>i. i < 1024 \<Longrightarrow> dir_entry ?s4 i = dir_entry s3 i"
    "\<And>h. h < 1048576 \<Longrightarrow> table_present s3 (h div 1024) \<Longrightarrow>
      load32 m (linear_slot s3 h) = load32 (ram s3) (linear_slot s3 h)"
    "\<And>h. h < 1048576 \<Longrightarrow> available ?s4 h \<longleftrightarrow> available s3 h" "memory_ok ?s4"
    using other_frame [OF ok3(1) f3, of m] mo by blast+
  have "clear_pages (page_base cr2) 1 s3 =
      Inr (s3\<lparr>ram := \<lambda>x. if page_base x = frame_addr g then 0 else ram s3 x\<rparr>)"
    using tr3 by (intro clear_one_page [OF ok3(1) f3 page_aligned_frame [OF g(1)]]) simp
  then have clear: "(if ?pte AND VIRTUAL_ZERO \<noteq> 0 then clear_pages (page_base cr2) 1 s3 else Inr s3) = Inr ?s4"
    by (simp add: m_def)
  let ?s' = "?s4\<lparr>kmemory_spinlock := kmemory_spinlock s\<rparr>"
  have "handle_page_fault cr2 s = Inr (Resumed ?s')"
  proof -
    let ?K = "\<lambda>s3. andthen (if ?pte AND VIRTUAL_ZERO \<noteq> 0 then clear_pages (page_base cr2) 1 s3 else Inr s3)
      (\<lambda>s4. Inr (Resumed ((tlb_invalidate s4)
        \<lparr>kmemory_spinlock := kspinlock_unlock (kmemory_spinlock (tlb_invalidate s4))\<rparr>)))"
    have "handle_page_fault cr2 s = andthen (wr32 (virtual_slot ?s0 cr2) (a OR VIRTUAL_KERNEL) s1)
        (\<lambda>s2. andthen (set_linear_entry (page_base cr2) a LINEAR_ALLOCATED s2) ?K)"
      unfolding handle_page_fault_def kspinlock_lock_eq
      using assms(3,5,7) get rd_directory [OF ok, of cr2] access_virtual_slot(1) [OF ok pre(2)]
      by (simp add: Let_def virtual_slot_def)
    also have "\<dots> = ?K s3"
      using s3 unfolding andthen_assoc [symmetric] by simp
    also have "\<dots> = Inr (Resumed ?s')"
      unfolding clear
      using tlb_invalidate_same [OF F(6)] ok3 unset_set_31 [OF assms(3)]
      by (simp add: kspinlock_unlock_def)
    finally show ?thesis .
  qed
  moreover have "available ?s' h \<longleftrightarrow> available s h \<and> h \<noteq> g" if "h < 1048576" for h
    using F(5) [OF that] av3 that by simp
  moreover have "translate ?s' x = (if page_base x = page_base cr2
      then Some (frame_addr g OR (x AND 0xFFF)) else translate s x)" for x
    using F(1) [of x] tr3 by simp
  moreover have "load32 (ram ?s') (linear_slot ?s' g) = page_base cr2 OR LINEAR_ALLOCATED"
    using F(3) [OF dir_frame [OF g(1)]] F(4) [OF g(1) ln3(2)] ln3(1) by (simp add: linear_slot_def)
  moreover have "memory_ok ?s'" by (rule memory_ok_frame [OF F(6)])
  ultimately show ?thesis using g by (intro exI [of _ ?s'] exI [of _ g]) (simp add: m_def)
qed


section \<open>Entering a page\<close>

lemma nonzero_of_bit: "bit (w :: u32) 0 \<Longrightarrow> w \<noteq> 0"
  by auto

lemma set_virtual_present:
  assumes "memory_ok s" "bit (virtual_dir s (dir_index va)) 0"
  shows "set_virtual_entry va laddr flags s =
    Inr (s\<lparr>ram := store32 (ram s) (virtual_slot s va) (laddr OR flags)\<rparr>)"
proof -
  have rd: "rd32 s (directory_slot s va) = Inr (virtual_dir s (dir_index va))"
    by (rule rd_directory [OF assms(1)])
  then have "need_table va s = Inr (Inr s)"
    using nonzero_of_bit [OF assms(2)] by (simp add: need_table_def)
  moreover have "enter_page (directory_slot s va) va laddr flags s =
      Inr (s\<lparr>ram := store32 (ram s) (virtual_slot s va) (laddr OR flags)\<rparr>)"
    using access_virtual_slot(2) [OF assms] by (simp add: enter_page_def rd virtual_slot_def)
  ultimately show ?thesis
    unfolding set_virtual_entry_def by (subst set_virtual_entry_calls.simps) simp
qed

text \<open>
  C22: \<^verbatim>\<open>set_virtual_entry\<close> with the page table in place: for a page aligned frame and flags with the
  present bit it returns, the page is mapped to the frame, every other address is translated as
  before, and no page of the tables has moved.
\<close>

theorem set_virtual_entry_maps_page:
  assumes "memory_ok s" "bit (virtual_dir s (dir_index vaddr)) 0"
    and "page_aligned laddr" "bit flags 0" "page_base flags = 0"
  shows "\<exists>s'. set_virtual_entry vaddr laddr flags s = Inr s' \<and>
    (\<forall>x. walk (ram s') (vptd s') x =
      (if page_base x = page_base vaddr then Some (laddr OR (x AND 0xFFF))
       else walk (ram s) (vptd s) x)) \<and>
    (\<forall>j<1024. virtual_dir s' j = virtual_dir s j) \<and> (\<forall>h<1048576. available s' h = available s h)"
proof -
  let ?v = "laddr OR flags"
  let ?s' = "s\<lparr>ram := store32 (ram s) (virtual_slot s vaddr) ?v\<rparr>"
  note st = store_virtual [OF assms(1,2), where v = ?v]
  have "page_base ?v = laddr"
    using assms(3,5) by (simp add: bit.conj_disj_distrib2 page_base_aligned)
  moreover have "bit ?v 0" using assms(4) by (simp add: bit_simps)
  ultimately have "walk (ram ?s') (vptd ?s') x = (if page_base x = page_base vaddr
      then Some (laddr OR (x AND 0xFFF)) else walk (ram s) (vptd s) x)" for x
    using st(4) [of x] by simp
  moreover have "available ?s' h = available s h" if "h < 1048576" for h
    using st(2) st(3) [OF that] dir_frame [OF that] by (auto simp: available_def table_present_def)
  ultimately show ?thesis using set_virtual_present [OF assms(1,2)] st(1) by blast
qed

text \<open>The loop of \<^verbatim>\<open>kmemory_linear_page_allocate\<close> over frames none of which is available any more.\<close>

definition identity_on :: "kmem \<Rightarrow> kmem \<Rightarrow> nat \<Rightarrow> nat \<Rightarrow> bool" where
  "identity_on s s' g n \<longleftrightarrow> (\<forall>x. walk (ram s') (vptd s') x =
     (if g \<le> unat x div 4096 \<and> unat x div 4096 < g + n then Some x else walk (ram s) (vptd s) x))"

lemma page_base_frame: "g < 1048576 \<Longrightarrow> page_base x = frame_addr g \<longleftrightarrow> unat x div 4096 = g"
  by (auto simp: word_unat_eq_iff unat_page_base unat_frame_addr)

lemma base_offset: "page_base x OR (x AND 0xFFF) = x"
  by (rule bit_word_eqI) (auto simp: and_high_mask and_low_mask bit_simps)

lemma frame_addr_Suc: "frame_addr g + KPAGESIZE = frame_addr (g + 1)"
  by (simp add: frame_addr_def algebra_simps)

lemma map_one:
  fixes s :: kmem
  assumes ok: "memory_ok s" and g: "g < 1048576" "table_present s (g div 1024)"
    and here: "bit (virtual_dir s (dir_index (frame_addr g))) 0"
  obtains s2 where "andthen (set_virtual_entry (frame_addr g) (frame_addr g) VIRTUAL_KERNEL s)
      (\<lambda>s1. set_linear_entry (frame_addr g) (frame_addr g) LINEAR_ALLOCATED s1) = Inr s2"
    "memory_ok s2" "\<exists>m. s2 = s\<lparr>ram := m\<rparr>" "identity_on s s2 g 1"
    "\<forall>j<1024. virtual_dir s2 j = virtual_dir s j" "\<forall>i<1024. table_present s2 i = table_present s i"
    "\<forall>h<1048576. available s2 h = (available s h \<and> h \<noteq> g)"
proof -
  let ?v = "frame_addr g OR VIRTUAL_KERNEL" and ?a = "frame_addr g"
  have base: "page_base ?a = ?a" by (rule page_base_aligned [OF page_aligned_frame [OF g(1)]])
  have v: "bit ?v 0 \<and> page_base ?v = page_base ?a"
    using kernel_entry_bits [of ?a] page_aligned_frame [OF g(1)] base by simp
  define s1 where "s1 = s\<lparr>ram := store32 (ram s) (virtual_slot s ?a) ?v\<rparr>"
  note st = store_virtual [OF ok here, where v = ?v, folded s1_def]
  note k1 = store_virtual_ok [OF ok here, where v = ?v, OF v, folded s1_def]
  have k1: "memory_ok s1" "\<And>h. h < 1048576 \<Longrightarrow> available s1 h \<longleftrightarrow> available s h"
    using k1(1,4) by blast+
  have gp1: "table_present s1 (g div 1024)"
    using g(2) st(2) [OF dir_frame [OF g(1)]] by (simp add: table_present_def)
  let ?l = "?a OR LINEAR_ALLOCATED"
  define s2 where "s2 = s1\<lparr>ram := store32 (ram s1) (linear_slot s1 g) ?l\<rparr>"
  have l0: "?l AND LINEAR_AVAILABLE = 0" using base_not_available [of ?a] base by simp
  note st2 = store_linear [OF k1(1) g(1) gp1, where v = ?l, folded s2_def]
  have k2: "memory_ok s2" using store_linear_ok(1) [OF k1(1) g(1) gp1 disjI1 [OF l0]] by (simp add: s2_def)
  show ?thesis
  proof (rule that)
    show "andthen (set_virtual_entry ?a ?a VIRTUAL_KERNEL s)
      (\<lambda>s1. set_linear_entry ?a ?a LINEAR_ALLOCATED s1) = Inr s2"
      using set_linear_frame [OF k1(1) g(1) gp1, of ?a LINEAR_ALLOCATED]
      unfolding set_virtual_present [OF ok here] by (simp add: s1_def s2_def)
    show "memory_ok s2" by (rule k2)
    show "\<exists>m. s2 = s\<lparr>ram := m\<rparr>"
      by (intro exI [of _ "ram s2"]) (simp add: s2_def s1_def)
    have "walk (ram s2) (vptd s2) x = (if unat x div 4096 = g then Some x else walk (ram s) (vptd s) x)" for x
    proof -
      have same: "vptd s2 = vptd s" "vptd s1 = vptd s" by (simp_all add: s2_def s1_def)
      have w: "walk (ram s2) (vptd s) x = walk (ram s1) (vptd s) x"
        using st2(5) [of x] by (simp add: same)
      show ?thesis
      proof (cases "page_base x = ?a")
        case True
        then have "walk (ram s1) (vptd s) x = Some (page_base ?v OR (x AND 0xFFF))"
          using st(4) [of x] v base by simp
        also have "page_base ?v OR (x AND 0xFFF) = x"
          using v base True base_offset [of x] by simp
        finally show ?thesis using True w page_base_frame [OF g(1), of x] by (simp add: same)
      next
        case False
        then show ?thesis using st(4) [of x] base w page_base_frame [OF g(1), of x] by (simp add: same)
      qed
    qed
    then show "identity_on s s2 g 1" by (auto simp: identity_on_def less_Suc_eq)
    show "\<forall>j<1024. virtual_dir s2 j = virtual_dir s j" using st(1) st2(1) by simp
    show "\<forall>i<1024. table_present s2 i = table_present s i" using st(2) st2(2) by (simp add: table_present_def)
    show "\<forall>h<1048576. available s2 h = (available s h \<and> h \<noteq> g)"
      using store_linear_available [OF k1(1) g(1) gp1, where v = ?l] k1(2) l0 by (simp add: s2_def)
  qed
qed


lemma identity_on_append:
  "identity_on s s1 g 1 \<Longrightarrow> identity_on s1 s2 (g + 1) n \<Longrightarrow> identity_on s s2 g (Suc n)"
  by (auto simp: identity_on_def)

lemma map_pages_identity:
  fixes s :: kmem
  assumes "memory_ok s" "g + n \<le> 1048576"
    and "\<forall>k<n. table_present s ((g + k) div 1024) \<and>
      bit (virtual_dir s (dir_index (frame_addr (g + k)))) 0"
  shows "\<exists>m. map_pages n (frame_addr g) s = Inr (s\<lparr>ram := m\<rparr>) \<and> memory_ok (s\<lparr>ram := m\<rparr>) \<and>
    identity_on s (s\<lparr>ram := m\<rparr>) g n \<and> (\<forall>h<1048576. available (s\<lparr>ram := m\<rparr>) h = (available s h \<and> \<not> (g \<le> h \<and> h < g + n)))"
  using assms
proof (induction n arbitrary: g s)
  case 0
  then show ?case by (intro exI [of _ "ram s"]) (auto simp: identity_on_def)
next
  case (Suc n)
  have g: "g < 1048576" using Suc.prems(2) by simp
  have here: "table_present s (g div 1024)" "bit (virtual_dir s (dir_index (frame_addr g))) 0" using Suc.prems(3) by force+
  obtain s2 where s2: "andthen (set_virtual_entry (frame_addr g) (frame_addr g) VIRTUAL_KERNEL s)
      (\<lambda>s1. set_linear_entry (frame_addr g) (frame_addr g) LINEAR_ALLOCATED s1) = Inr s2"
    and ok2: "memory_ok s2" and m2: "\<exists>m. s2 = s\<lparr>ram := m\<rparr>" and id2: "identity_on s s2 g 1"
    and vd2: "\<forall>j<1024. virtual_dir s2 j = virtual_dir s j"
    and tp2: "\<forall>i<1024. table_present s2 i = table_present s i"
    and av2: "\<forall>h<1048576. available s2 h = (available s h \<and> h \<noteq> g)"
    by (rule map_one [OF Suc.prems(1) g here])
  have "\<forall>k<n. table_present s2 ((g + 1 + k) div 1024) \<and>
      bit (virtual_dir s2 (dir_index (frame_addr (g + 1 + k)))) 0"
  proof (intro allI impI)
    fix k assume k: "k < n"
    then have lt: "g + 1 + k < 1048576" using Suc.prems(2) by simp
    have "table_present s ((g + (k + 1)) div 1024) \<and>
        bit (virtual_dir s (dir_index (frame_addr (g + (k + 1))))) 0"
      using Suc.prems(3) k by auto
    moreover have "g + (k + 1) = g + 1 + k" by simp
    ultimately show "table_present s2 ((g + 1 + k) div 1024) \<and>
        bit (virtual_dir s2 (dir_index (frame_addr (g + 1 + k)))) 0"
      using vd2 tp2 lt dir_frame [OF lt] by simp
  qed
  moreover have "g + 1 + n \<le> 1048576" using Suc.prems(2) by simp
  ultimately obtain m where m: "map_pages n (frame_addr (g + 1)) s2 = Inr (s2\<lparr>ram := m\<rparr>)"
    "memory_ok (s2\<lparr>ram := m\<rparr>)" "identity_on s2 (s2\<lparr>ram := m\<rparr>) (g + 1) n"
    "\<forall>h<1048576. available (s2\<lparr>ram := m\<rparr>) h = (available s2 h \<and> \<not> (g + 1 \<le> h \<and> h < g + 1 + n))"
    using Suc.IH [OF ok2] by blast
  have eq: "s2\<lparr>ram := m\<rparr> = s\<lparr>ram := m\<rparr>" using m2 by auto
  have "map_pages (Suc n) (frame_addr g) s = map_pages n (frame_addr (g + 1)) s2"
    using s2 by (auto simp: andthen_Inr_iff frame_addr_Suc)
  with m eq have "map_pages (Suc n) (frame_addr g) s = Inr (s\<lparr>ram := m\<rparr>)" by simp
  moreover have "identity_on s (s\<lparr>ram := m\<rparr>) g (Suc n)"
    using identity_on_append [OF id2 m(3)] by (simp add: eq)
  ultimately show ?case using m(2,4) av2 by (auto simp: eq)
qed


lemma mem_lock_Inr:
  "mem_lock s = Inr (saved, s1) \<longleftrightarrow> \<not> bit (kmemory_spinlock s) 31 \<and> saved = eflags_reg s \<and>
     s1 = s\<lparr>kmemory_spinlock := set_bit 31 (kmemory_spinlock s), eflags_reg := cli (eflags_reg s)\<rparr>"
  by (auto simp: mem_lock_def kspinlock_lock_irqsave_def spin_loop_eq)

lemma mem_unlock_after:
  "\<not> bit l 31 \<Longrightarrow> kmemory_spinlock s = set_bit 31 l \<Longrightarrow>
    mem_unlock saved s = s\<lparr>kmemory_spinlock := l, eflags_reg := saved\<rparr>"
  by (simp add: mem_unlock_def kspinlock_unlock_irqrestore_def unset_set_31)

lemma frame_addr_eq_0: "g < 1048576 \<Longrightarrow> frame_addr g = 0 \<longleftrightarrow> g = 0"
  by (auto simp: word_unat_eq_iff unat_frame_addr)

lemma zones_ok_frame:
  "zones_ok (s\<lparr>kmemory_spinlock := l, eflags_reg := e\<rparr>) count = zones_ok s count"
  by (simp add: zones_ok_def linear_tables_def table_present_def identity_mapped_def zone_tables_def
    zone_closed_def)

lemma linear_page_allocate_run:
  assumes "memory_ok s" "paging s" "zones_ok s count" "\<not> available s 0"
    and "\<forall>g<1048576. available s g \<longrightarrow> bit (virtual_dir s (dir_index (frame_addr g))) 0"
    and "mem_lock s = Inr (saved, s1)"
    and "get_free_pages count (if dma \<noteq> 0 then ZONE_DMA else ZONE_NORMAL) s1 = Inr (a, s2)"
  shows "\<exists>s' g. kmemory_linear_page_allocate count dma s = Inr (a, s') \<and>
    0 < count \<and> a = frame_addr g \<and> g + unat count \<le> 1048576 \<and>
    (\<forall>k<unat count. available s (g + k)) \<and>
    (\<forall>h<1048576. available s' h = (available s h \<and> \<not> (g \<le> h \<and> h < g + unat count))) \<and>
    (\<forall>x. translate s' x = (if g \<le> unat x div 4096 \<and> unat x div 4096 < g + unat count then Some x
      else translate s x)) \<and>
    kmemory_spinlock s' = kmemory_spinlock s \<and> eflags_reg s' = eflags_reg s \<and> memory_ok s'"
proof -
  let ?n = "unat count" and ?l = "kmemory_spinlock s"
  let ?s1 = "s\<lparr>kmemory_spinlock := set_bit 31 ?l, eflags_reg := cli (eflags_reg s)\<rparr>"
  let ?zone = "if dma \<noteq> 0 then ZONE_DMA else ZONE_NORMAL"
  have lock: "\<not> bit ?l 31" and saved: "saved = eflags_reg s" and s1: "s1 = ?s1"
    using assms(6) by (auto simp: mem_lock_Inr)
  have get: "get_free_pages count ?zone ?s1 = Inr (a, s2)" using assms(7) by (simp add: s1)
  have ok1: "memory_ok ?s1" by (rule memory_ok_frame [OF memory_ok_frame(2) [OF assms(1)]])
  have z1: "zones_ok ?s1 count" by (simp add: zones_ok_frame assms(3))
  obtain i where hit: "found ?s1 i count (a, s2)"
    using scan_zones_spec [OF z1, of ?zone] get by (auto simp: get_free_pages_def)
  obtain g z where g: "0 < count" "g + ?n \<le> 1048576" "a = frame_addr g" "\<forall>k<?n. available s (g + k)"
    and s2: "s2 = ?s1\<lparr>ram := store32 (ram ?s1) (linear_slot ?s1 (g + ?n - 1)) LINEAR_ALLOCATED, zones := z\<rparr>"
    using hit unfolding found_def by auto
  have n: "0 < ?n" using g(1) by (simp add: word_less_nat_alt)
  let ?h = "g + ?n - 1"
  have h: "?h < 1048576" "available ?s1 ?h" using g n by (auto dest: spec [of _ "?n - 1"])
  then have hp: "table_present ?s1 (?h div 1024)" unfolding available_def by blast
  let ?A = "?s1\<lparr>ram := store32 (ram ?s1) (linear_slot ?s1 ?h) LINEAR_ALLOCATED\<rparr>"
  note A = store_linear [OF ok1 h(1) hp, where v = LINEAR_ALLOCATED]
  have s2A: "s2 = ?A\<lparr>zones := z\<rparr>" by (simp add: s2)
  have "memory_ok ?A" using store_linear_ok(1) [OF ok1 h(1) hp, where v = LINEAR_ALLOCATED] by simp
  then have ok2: "memory_ok s2" unfolding s2A by (rule memory_ok_frame)
  have av2: "available s2 x \<longleftrightarrow> available s x \<and> x \<noteq> ?h" if "x < 1048576" for x
    using store_linear_available [OF ok1 h(1) hp that, of LINEAR_ALLOCATED] unfolding s2A by simp
  have pre: "\<forall>k<?n. table_present s2 ((g + k) div 1024) \<and> bit (virtual_dir s2 (dir_index (frame_addr (g + k)))) 0"
  proof (intro allI impI)
    fix k assume k: "k < ?n"
    then have "g + k < 1048576" "available s (g + k)" using g by simp_all
    then show "table_present s2 ((g + k) div 1024) \<and> bit (virtual_dir s2 (dir_index (frame_addr (g + k)))) 0"
      using assms(5) A(1) [OF index_less(1)] A(2) [OF dir_frame]
      unfolding s2A by (simp add: available_def table_present_def)
  qed
  obtain m where m: "map_pages ?n (frame_addr g) s2 = Inr (s2\<lparr>ram := m\<rparr>)" "memory_ok (s2\<lparr>ram := m\<rparr>)"
    "identity_on s2 (s2\<lparr>ram := m\<rparr>) g ?n"
    "\<forall>x<1048576. available (s2\<lparr>ram := m\<rparr>) x = (available s2 x \<and> \<not> (g \<le> x \<and> x < g + ?n))"
    using map_pages_identity [OF ok2 g(2) pre] by blast
  have "g \<noteq> 0" using g(4) n assms(4) by (metis add_0)
  then have a: "a \<noteq> 0" using g n by (simp add: frame_addr_eq_0)
  define s3 where s3: "s3 = s2\<lparr>ram := m\<rparr>"
  define s' where s': "s' = mem_unlock (eflags_reg s) (tlb_invalidate s3)"
  have run: "kmemory_linear_page_allocate count dma s = Inr (a, s')"
    unfolding kmemory_linear_page_allocate_def assms(6,7) saved
    using m(1) a g(3) assms(7) by (simp add: s' s3)
  have pg3: "paging s3" using assms(2) by (simp add: s3 s2)
  have ok3: "memory_ok s3" using m(2) by (simp add: s3)
  have s'': "s' = s3\<lparr>kmemory_spinlock := ?l, eflags_reg := eflags_reg s\<rparr>"
    unfolding s' tlb_invalidate_same [OF ok3 pg3] by (rule mem_unlock_after [OF lock]) (simp add: s3 s2)
  have "available s' x = (available s x \<and> \<not> (g \<le> x \<and> x < g + ?n))" if "x < 1048576" for x
    using m(4) that av2 [OF that] n by (auto simp: s'' s3)
  moreover have "translate s' x = (if g \<le> unat x div 4096 \<and> unat x div 4096 < g + ?n then Some x
      else translate s x)" for x
  proof -
    have "translate s' x = walk (ram s3) (vptd s3) x"
      using pg3 memory_okD(1) [OF ok3 pg3] by (simp add: s'' translate_def)
    moreover have "walk (ram s2) (vptd s2) x = translate s x"
      using A(5) [of x] memory_okD(1) [OF assms(1,2)] assms(2) by (simp add: s2 translate_def)
    ultimately show ?thesis using m(3) by (simp add: identity_on_def s3)
  qed
  moreover have "memory_ok s'" unfolding s'' by (rule memory_ok_frame [OF memory_ok_frame(2) [OF ok3]])
  ultimately show ?thesis using g run by (intro exI [of _ s'] exI [of _ g]) (simp add: s'')
qed



section \<open>A small machine\<close>

text \<open>
  Paging is on; page 1 is the page directory, page 2 the only page table, page 3 the linear directory
  and page 4 the only linear table, all mapped at their own addresses. Page 9 is assigned and to be
  zeroed, frame 5 is the only available one.
\<close>

definition small_ram :: bytes where
  "small_ram =
     store32 (store32 (store32 (store32 (store32 (store32 (store32 (store32 (\<lambda>_. 0)
       (entry_at 0x1000 0) 0x2007) (entry_at 0x2000 1) 0x1007) (entry_at 0x2000 2) 0x2007)
       (entry_at 0x2000 3) 0x3007) (entry_at 0x2000 4) 0x4007) (entry_at 0x2000 9) 0x600)
       (entry_at 0x3000 0) 0x4100) (entry_at 0x4000 5) 0x200"

definition small_machine :: kmem where
  "small_machine =
     \<lparr>ram = small_ram, cr3 = 0x1000, paging = True, eflags_reg = 0x202, kmemory_spinlock = 0,
      vptd = 0x1000, lptd = 0x3000,
      zones = (\<lambda>_. \<lparr>zone_next = 0, zone_start = 0, zone_end = 0\<rparr>)
        (ZONE_NORMAL := \<lparr>zone_next = 0x5000, zone_start = 0x5000, zone_end = 0x6000\<rparr>),
      virtual_block = 0, virtual_address = 0\<rparr>"

lemma small_load:
  assumes "page_aligned q" "j < 1024"
  shows "load32 small_ram (entry_at q j) =
    (if q = 0x4000 \<and> j = 5 then 0x200 else if q = 0x3000 \<and> j = 0 then 0x4100
     else if q = 0x2000 \<and> j = 9 then 0x600 else if q = 0x2000 \<and> j = 4 then 0x4007
     else if q = 0x2000 \<and> j = 3 then 0x3007 else if q = 0x2000 \<and> j = 2 then 0x2007
     else if q = 0x2000 \<and> j = 1 then 0x1007 else if q = 0x1000 \<and> j = 0 then 0x2007 else 0)"
proof -
  have al: "page_aligned 0x1000" "page_aligned 0x2000" "page_aligned 0x3000" "page_aligned 0x4000"
    by (simp_all add: page_aligned_def)
  have lt: "(0 :: u32) < 1024" "(1 :: u32) < 1024" "(2 :: u32) < 1024" "(3 :: u32) < 1024"
    "(4 :: u32) < 1024" "(5 :: u32) < 1024" "(9 :: u32) < 1024" by simp_all
  show ?thesis
    unfolding small_ram_def
    by (simp only: load_store_entry [OF al(1) assms(1) lt(1) assms(2)]
      load_store_entry [OF al(2) assms(1) lt(2) assms(2)] load_store_entry [OF al(2) assms(1) lt(3) assms(2)]
      load_store_entry [OF al(2) assms(1) lt(4) assms(2)] load_store_entry [OF al(2) assms(1) lt(5) assms(2)]
      load_store_entry [OF al(2) assms(1) lt(7) assms(2)] load_store_entry [OF al(3) assms(1) lt(1) assms(2)]
      load_store_entry [OF al(4) assms(1) lt(6) assms(2)] load32_zero eq_commute)
qed

lemma small_dirs:
  "j < 1024 \<Longrightarrow> virtual_dir small_machine j = (if j = 0 then 0x2007 else 0)"
  "i < 1024 \<Longrightarrow> dir_entry small_machine i = (if i = 0 then 0x4100 else 0)"
  using small_load [of "0x1000" j] small_load [of "0x3000" "word_of_nat i"]
  by (simp_all add: virtual_dir_def dir_entry_def small_machine_def page_aligned_def
    word_of_nat_eq_1024 [of i 0, simplified])

lemma small_present: "i < 1024 \<Longrightarrow> table_present small_machine i \<longleftrightarrow> i = 0"
  by (simp add: table_present_def small_dirs)

lemma small_available: "g < 1048576 \<Longrightarrow> available small_machine g \<longleftrightarrow> g = 5"
proof -
  assume g: "g < 1048576"
  note d = dir_frame [OF g]
  show ?thesis
  proof (cases "g div 1024 = 0")
    case False
    then show ?thesis using small_present [OF d] by (auto simp: available_def)
  next
    case True
    then have g': "g < 1024" by (simp add: div_eq_0_iff)
    have "load32 small_ram (entry_at 0x4000 (word_of_nat g)) AND LINEAR_AVAILABLE \<noteq> 0 \<longleftrightarrow> g = 5"
      using small_load [of "0x4000" "word_of_nat g"] g' word_of_nat_eq_1024 [of g 5]
      by (simp add: page_aligned_def)
    with True g' show ?thesis
      by (simp add: available_def small_present linear_slot_def small_dirs)
        (simp add: small_machine_def)
  qed
qed

lemma small_pages:
  "table_page small_machine q \<longleftrightarrow> q = 0x1000 \<or> q = 0x2000"
  "linear_page small_machine q \<longleftrightarrow> q = 0x3000 \<or> q = 0x4000"
proof -
  have "(\<exists>j<1024. bit (virtual_dir small_machine j) 0 \<and> q = page_base (virtual_dir small_machine j)) \<longleftrightarrow>
      q = 0x2000" by (auto simp: small_dirs split: if_splits intro: exI [of _ 0])
  then show "table_page small_machine q \<longleftrightarrow> q = 0x1000 \<or> q = 0x2000"
    by (auto simp: table_page_def small_machine_def)
  have "(\<exists>i<1024. table_present small_machine i \<and> q = page_base (dir_entry small_machine i)) \<longleftrightarrow>
      q = 0x4000" by (auto simp: small_dirs small_present intro: exI [of _ 0])
  then show "linear_page small_machine q \<longleftrightarrow> q = 0x3000 \<or> q = 0x4000"
    by (auto simp: linear_page_def small_machine_def)
qed

lemma small_identity:
  assumes "q \<in> {0x1000, 0x2000, 0x3000, 0x4000}"
  shows "identity_mapped small_machine q"
proof -
  have al: "page_aligned (vptd small_machine)" by (simp add: small_machine_def page_aligned_def)
  have "translate small_machine a = Some a" if a: "page_base a = q" for a
  proof -
    have "unat q = unat a div 4096 * 4096" using a unat_page_base [of a] by simp
    then have n: "unat a div 4096 \<in> {1, 2, 3, 4}" using assms by auto
    then have "unat a < 4194304" by auto
    then have d: "dir_index a = 0"
      by (simp add: word_unat_eq_iff unat_dir_index)
    have t: "table_index a = word_of_nat (unat a div 4096)"
      using n by (auto simp: word_unat_eq_iff unat_table_index unat_of_nat_small)
    have slot: "virtual_slot small_machine a = entry_at 0x2000 (table_index a)"
      by (simp add: virtual_slot_def d small_dirs)
    have "load32 small_ram (entry_at 0x2000 (table_index a)) = q OR 7"
      using small_load [of "0x2000" "table_index a"] n assms a \<open>unat q = _\<close>
      by (auto simp: t page_aligned_def)
    then have "load32 (ram small_machine) (virtual_slot small_machine a) = q OR 7"
      unfolding slot by (simp add: small_machine_def)
    then have "walk (ram small_machine) (vptd small_machine) a = Some (q OR (a AND 0xFFF))"
      using assms by (auto simp: walk_eq [OF al] d small_dirs)
    then show ?thesis using base_offset [of a] a by (simp add: translate_def small_machine_def)
  qed
  moreover have "page_aligned q" using assms by (auto simp: page_aligned_def)
  ultimately show ?thesis by (simp add: identity_mapped_def)
qed

lemma small_ok: "memory_ok small_machine"
proof -
  have f: "vptd small_machine = 0x1000" "lptd small_machine = 0x3000" "cr3 small_machine = 0x1000"
    by (simp_all add: small_machine_def)
  show ?thesis
    unfolding memory_ok_def f small_pages
    by (auto simp: small_dirs small_present small_available small_identity frame_addr_def
      page_aligned_def split: if_splits)
qed


lemma small_scanned: "scanned (zones small_machine ZONE_NORMAL) 5"
  by (simp add: scanned_def small_machine_def unat_dir_index)

lemma small_entry_9:
  assumes "page_base va = 0x9000"
  shows "dir_index va = 0" "load32 (ram small_machine) (virtual_slot small_machine va) = 0x600"
proof -
  have i: "dir_index va = dir_index 0x9000 \<and> table_index va = table_index 0x9000"
    unfolding same_page_iff using assms by simp
  then show d: "dir_index va = 0" by (simp add: dir_index_def)
  have "table_index va = 9" using i by (simp add: word_unat_eq_iff unat_table_index)
  then have "virtual_slot small_machine va = entry_at 0x2000 9"
    by (simp add: virtual_slot_def d small_dirs)
  then show "load32 (ram small_machine) (virtual_slot small_machine va) = 0x600"
    using small_load [of "0x2000" 9] by (simp add: small_machine_def page_aligned_def)
qed

theorem handle_page_fault_maps_fresh_frame_witness:
  "\<exists>s'. handle_page_fault 0x9ABC small_machine = Inr (Resumed s') \<and>
     translate s' 0x9ABC = Some 0x5ABC \<and> ram s' 0x5ABC = 0"
proof -
  have lock: "\<not> bit (kmemory_spinlock small_machine) 31" "paging small_machine"
    by (simp_all add: small_machine_def)
  have base: "page_base 0x9ABC = 0x9000" by simp
  note e = small_entry_9 [OF base]
  have dir: "bit (virtual_dir small_machine (dir_index 0x9ABC)) 0"
    "page_base (virtual_dir small_machine (dir_index 0x9ABC)) \<noteq> 0"
    by (simp_all add: e(1) small_dirs)
  have pte: "\<not> bit (load32 (ram small_machine) (virtual_slot small_machine 0x9ABC)) 0"
    "load32 (ram small_machine) (virtual_slot small_machine 0x9ABC) AND VIRTUAL_ASSIGNED \<noteq> 0"
    unfolding e(2) by simp_all
  have av: "available small_machine 5" by (simp add: small_available)
  from handle_page_fault_maps_fresh_frame [OF small_ok lock(2,1) dir pte _ small_scanned av]
  obtain s' g where s': "handle_page_fault 0x9ABC small_machine = Inr (Resumed s')" "g < 1048576"
    "available small_machine g"
    "translate s' 0x9ABC = Some (frame_addr g OR (0x9ABC AND 0xFFF))"
    "\<forall>a. page_base a = frame_addr g \<longrightarrow> ram s' a = 0"
    unfolding e(2) by force
  then have "g = 5" using small_available by blast
  with s' show ?thesis by (intro exI [of _ s']) (simp add: frame_addr_def)
qed

theorem set_virtual_entry_maps_page_witness:
  "\<exists>s'. set_virtual_entry 0x9000 0x7000 VIRTUAL_KERNEL small_machine = Inr s' \<and>
     walk (ram s') (vptd s') 0x9123 = Some 0x7123 \<and> walk (ram s') (vptd s') 0x1004 = Some 0x1004"
proof -
  have d: "bit (virtual_dir small_machine (dir_index 0x9000)) 0"
    using small_entry_9(1) [of "0x9000"] by (simp add: small_dirs)
  have "translate small_machine 0x1004 = Some 0x1004"
    using small_identity [of "0x1000"] by (simp add: identity_mapped_def)
  then have "walk (ram small_machine) (vptd small_machine) 0x1004 = Some 0x1004"
    by (simp add: translate_def small_machine_def)
  then show ?thesis
    using set_virtual_entry_maps_page [OF small_ok d, of "0x7000" VIRTUAL_KERNEL]
    by (fastforce simp: page_aligned_def)
qed


end
