(* ===== verification/Vmalloc.thy ===== *)
theory Vmalloc
  imports Paging
begin

unbundle bit_operations_syntax

text \<open>
  The virtual page allocator of \<^verbatim>\<open>arch/ia32/memory.c\<close>: \<^verbatim>\<open>kmemory_virtual_page_allocate\<close> and
  \<^verbatim>\<open>kmemory_virtual_page_unallocate\<close>, with their lists of \<^verbatim>\<open>struct vm_page\<close> in memory, and the copying
  and filling of virtual memory.
\<close>

section \<open>The structures in memory\<close>

text \<open>\<^verbatim>\<open>struct vm_block\<close>, at \<^verbatim>\<open>virtual_block\<close>, and \<^verbatim>\<open>struct vm_page\<close>: the addresses of the fields.\<close>

abbreviation (input) vb_free :: "kmem \<Rightarrow> u32" where "vb_free s \<equiv> virtual_block s"
abbreviation (input) vb_used :: "kmem \<Rightarrow> u32" where "vb_used s \<equiv> virtual_block s + 8"
abbreviation (input) vb_pages :: "kmem \<Rightarrow> u32" where "vb_pages s \<equiv> virtual_block s + 16"
abbreviation (input) vb_pages_index :: "kmem \<Rightarrow> u32" where "vb_pages_index s \<equiv> virtual_block s + 20"

abbreviation (input) vp_next :: "u32 \<Rightarrow> u32" where "vp_next p \<equiv> p"
abbreviation (input) vp_count :: "u32 \<Rightarrow> u32" where "vp_count p \<equiv> p + 8"
abbreviation (input) vp_page :: "u32 \<Rightarrow> u32" where "vp_page p \<equiv> p + 12"

abbreviation (input) VM_BLOCK_PAGES_COUNT :: u32 where "VM_BLOCK_PAGES_COUNT \<equiv> 256"

section \<open>Searching a list\<close>

text \<open>
  The \<^verbatim>\<open>while(current)\<close> loop over a list, with \<open>prev\<close> the address of the pointer that names
  \<open>current\<close>: it stops at the first node \<open>wanted\<close> accepts, or at the end of the list (\<open>None\<close>).
\<close>

definition search_turn :: "kmem \<Rightarrow> (u32 \<Rightarrow> stop + bool) \<Rightarrow> u32 \<times> u32 \<Rightarrow>
    stop + ((u32 \<times> u32) + (u32 \<times> u32) option)" where
  "search_turn s wanted = (\<lambda>(prev, current).
     if current = 0 then Inr (Inr None)
     else andthen (wanted current) (\<lambda>w.
       if w then Inr (Inr (Some (prev, current)))
       else andthen (rd32 s (vp_next current)) (\<lambda>n. Inr (Inl (vp_next current, n)))))"

definition search_list :: "kmem \<Rightarrow> (u32 \<Rightarrow> stop + bool) \<Rightarrow> u32 \<Rightarrow> stop + (u32 \<times> u32) option" where
  "search_list s wanted head =
     andthen (rd32 s head) (\<lambda>current. iterate (search_turn s wanted) (head, current))"

text \<open>\<^verbatim>\<open>(*prev) = current->next\<close>.\<close>

definition unlink :: "u32 \<Rightarrow> u32 \<Rightarrow> kmem \<Rightarrow> stop + kmem" where
  "unlink prev current s = andthen (rd32 s (vp_next current)) (\<lambda>n. wr32 prev n s)"

text \<open>\<^verbatim>\<open>current->next = *head; *head = current\<close>.\<close>

definition push_list :: "u32 \<Rightarrow> u32 \<Rightarrow> kmem \<Rightarrow> stop + kmem" where
  "push_list head current s =
     andthen (rd32 s head) (\<lambda>n. andthen (wr32 (vp_next current) n s) (\<lambda>s1. wr32 head current s1))"

section \<open>Allocation\<close>

text \<open>A frame taken for the kernel's own use, mapped, marked and cleared.\<close>

definition kernel_page :: "kmem \<Rightarrow> stop + (u32 \<times> kmem)" where
  "kernel_page s =
     andthen (get_free_pages 1 ZONE_NORMAL s) (\<lambda>(page, s1).
     if page = 0 then Inr (0, s1)
     else andthen (set_virtual_entry page page VIRTUAL_KERNEL s1) (\<lambda>s2.
       andthen (set_linear_entry page page LINEAR_ALLOCATED s2) (\<lambda>s3.
       andthen (clear_pages page 1 s3) (\<lambda>s4. Inr (page, s4)))))"

text \<open>
  No node of the free list is large enough: a new node is taken from the current page of nodes, or
  from a new page of nodes, and given the next stretch of addresses. \<open>None\<close> is the \<^verbatim>\<open>goto end\<close>.
\<close>

definition new_node :: "u32 \<Rightarrow> kmem \<Rightarrow> stop + (u32 option \<times> kmem)" where
  "new_node count s =
     andthen (rd32 s (vb_pages_index s)) (\<lambda>index.
     andthen (if VM_BLOCK_PAGES_COUNT \<le> index then
          andthen (kernel_page s) (\<lambda>(page, s1).
            if page = 0 then Inr (False, s1)
            else andthen (wr32 (vb_pages s1) page s1) (\<lambda>s2.
              andthen (wr32 (vb_pages_index s2) 0 s2) (\<lambda>s3. Inr (True, s3))))
        else Inr (True, s)) (\<lambda>(ok, s4).
     if \<not> ok then Inr (None, s4)
     else andthen (rd32 s4 (vb_pages s4)) (\<lambda>pages.
       andthen (rd32 s4 (vb_pages_index s4)) (\<lambda>index.
       andthen (wr32 (vb_pages_index s4) (index + 1) s4) (\<lambda>s5.
         let current = pages + 16 * index in
         andthen (wr32 (vp_count current) count s5) (\<lambda>s6.
         andthen (wr32 (vp_page current) (virtual_address s6) s6) (\<lambda>s7.
           Inr (Some current, s7\<lparr>virtual_address :=
             virtual_address s7 + (count * KPAGESIZE + KPAGESIZE)\<rparr>))))))))"

text \<open>
  The entries of one table: \<open>Inl\<close> when \<^verbatim>\<open>count_local\<close> has reached zero (\<^verbatim>\<open>goto done\<close>), \<open>Inr\<close> at the
  end of the table.
\<close>

function assign_table :: "u32 \<Rightarrow> nat \<Rightarrow> u32 \<Rightarrow> u32 \<Rightarrow> kmem \<Rightarrow> stop + (kmem + (u32 \<times> kmem))" where
  "assign_table pt i2 flags count s =
     (if i2 < 1024 then
        andthen (wr32 (entry_at pt (word_of_nat i2)) flags s) (\<lambda>s1.
          if count - 1 = 0 then Inr (Inl s1) else assign_table pt (i2 + 1) flags (count - 1) s1)
      else Inr (Inr (count, s)))"
  by pat_completeness auto
termination by (relation "measure (\<lambda>(pt, i2, flags, count, s). 1024 - i2)") auto

declare assign_table.simps [simp del]

text \<open>The page table of directory entry \<open>i1\<close>, made when it is missing.\<close>

definition table_for :: "nat \<Rightarrow> kmem \<Rightarrow> stop + (u32 \<times> kmem)" where
  "table_for i1 s =
     andthen (rd32 s (entry_at (vptd s) (word_of_nat i1))) (\<lambda>d.
       if page_base d \<noteq> 0 then Inr (page_base d, s)
       else andthen (kernel_page s) (\<lambda>(pt, s1).
         if pt = 0 then Inr (0, s1)
         else andthen (wr32 (entry_at (vptd s1) (word_of_nat i1)) (pt OR VIRTUAL_KERNEL) s1) (\<lambda>s2.
           Inr (pt, s2))))"

text \<open>The loop over the tables: \<open>(False, _)\<close> is the \<^verbatim>\<open>goto end\<close>.\<close>

function assign_tables :: "nat \<Rightarrow> nat \<Rightarrow> u32 \<Rightarrow> u32 \<Rightarrow> kmem \<Rightarrow> stop + (bool \<times> kmem)" where
  "assign_tables i1 i2 flags count s =
     (if i1 < 1024 then
        andthen (table_for i1 s) (\<lambda>(pt, s1).
          if pt = 0 then Inr (False, s1)
          else andthen (assign_table pt i2 flags count s1) (\<lambda>r. case r of
              Inl s2 \<Rightarrow> Inr (True, s2)
            | Inr (count1, s2) \<Rightarrow> assign_tables (i1 + 1) 0 flags count1 s2))
      else Inr (True, s))"
  by pat_completeness auto
termination by (relation "measure (\<lambda>(i1, i2, flags, count, s). 1024 - i1)") auto

declare assign_tables.simps [simp del]

definition kmemory_virtual_page_allocate :: "u32 \<Rightarrow> u32 \<Rightarrow> kmem \<Rightarrow> stop + (u32 \<times> kmem)" where
  "kmemory_virtual_page_allocate count zero s =
     andthen (mem_lock s) (\<lambda>(saved, s0).
     andthen (search_list s0 (\<lambda>p. andthen (rd32 s0 (vp_count p)) (\<lambda>c. Inr (count \<le> c))) (vb_free s0)) (\<lambda>hit.
     andthen (case hit of
         Some (prev, current) \<Rightarrow> andthen (unlink prev current s0) (\<lambda>s1. Inr (Some current, s1))
       | None \<Rightarrow> new_node count s0) (\<lambda>(node, s2). case node of
         None \<Rightarrow> Inr (0, mem_unlock saved s2)
       | Some current \<Rightarrow>
           andthen (rd32 s2 (vp_page current)) (\<lambda>page.
           andthen (assign_tables (unat (dir_index page)) (unat (table_index page))
               (if zero \<noteq> 0 then VIRTUAL_ASSIGNED OR VIRTUAL_ZERO else VIRTUAL_ASSIGNED) count s2) (\<lambda>(ok, s3).
           if \<not> ok then Inr (0, mem_unlock saved s3)
           else andthen (push_list (vb_used s3) current s3) (\<lambda>s4.
             let s5 = mem_unlock saved (tlb_invalidate s4) in
             andthen (rd32 s5 (vp_page current)) (\<lambda>page. Inr (page, s5))))))))"

section \<open>Release\<close>

text \<open>
  The calls of \<^verbatim>\<open>set_linear_entry\<close> here pass the frame as \<^verbatim>\<open>vaddr\<close> and \<^verbatim>\<open>0\<close> as \<^verbatim>\<open>laddr\<close>.
\<close>

function release_table :: "u32 \<Rightarrow> nat \<Rightarrow> u32 \<Rightarrow> kmem \<Rightarrow> stop + (kmem + (u32 \<times> kmem))" where
  "release_table pt i2 count s =
     (if i2 < 1024 then
        andthen (rd32 s (entry_at pt (word_of_nat i2))) (\<lambda>e.
        andthen (if e AND VIRTUAL_ALLOCATED \<noteq> 0 then set_linear_entry (page_base e) 0 LINEAR_AVAILABLE s
                 else Inr s) (\<lambda>s1.
        andthen (wr32 (entry_at pt (word_of_nat i2)) 0 s1) (\<lambda>s2.
          if count - 1 = 0 then Inr (Inl s2) else release_table pt (i2 + 1) (count - 1) s2)))
      else Inr (Inr (count, s)))"
  by pat_completeness auto
termination by (relation "measure (\<lambda>(pt, i2, count, s). 1024 - i2)") auto

declare release_table.simps [simp del]

function release_tables :: "nat \<Rightarrow> nat \<Rightarrow> u32 \<Rightarrow> kmem \<Rightarrow> stop + kmem" where
  "release_tables i1 i2 count s =
     (if i1 < 1024 then
        andthen (rd32 s (entry_at (vptd s) (word_of_nat i1))) (\<lambda>d.
        andthen (release_table (page_base d) i2 count s) (\<lambda>r. case r of
            Inl s1 \<Rightarrow> Inr s1
          | Inr (count1, s1) \<Rightarrow> release_tables (i1 + 1) 0 count1 s1))
      else Inr s)"
  by pat_completeness auto
termination by (relation "measure (\<lambda>(i1, i2, count, s). 1024 - i1)") auto

declare release_tables.simps [simp del]

text \<open>A pointer that is not in the list of used nodes is reported and otherwise ignored.\<close>

definition kmemory_virtual_page_unallocate :: "u32 \<Rightarrow> kmem \<Rightarrow> stop + kmem" where
  "kmemory_virtual_page_unallocate pointer s =
     andthen (mem_lock s) (\<lambda>(saved, s0).
     andthen (search_list s0 (\<lambda>p. andthen (rd32 s0 (vp_page p)) (\<lambda>page. Inr (page = pointer))) (vb_used s0)) (\<lambda>hit.
     case hit of
       None \<Rightarrow> Inr (mem_unlock saved s0)
     | Some (prev, current) \<Rightarrow>
         andthen (unlink prev current s0) (\<lambda>s1.
         andthen (rd32 s1 (vp_count current)) (\<lambda>count.
         andthen (rd32 s1 (vp_page current)) (\<lambda>page.
         andthen (release_tables (unat (dir_index page)) (unat (table_index page)) count s1) (\<lambda>s2.
         andthen (push_list (vb_free s2) current s2) (\<lambda>s3.
           Inr (mem_unlock saved (tlb_invalidate s3)))))))))"

section \<open>Linear accesses\<close>

definition kmemory_linear_read_kuint :: "u32 \<Rightarrow> kmem \<Rightarrow> stop + u32" where
  "kmemory_linear_read_kuint address s = rd32 s address"

definition kmemory_linear_read_kuint8 :: "u32 \<Rightarrow> kmem \<Rightarrow> stop + u8" where
  "kmemory_linear_read_kuint8 address s = rd8 s address"

definition kmemory_linear_read_kuint16 :: "u32 \<Rightarrow> kmem \<Rightarrow> stop + u16" where
  "kmemory_linear_read_kuint16 address s = rd16 s address"

definition kmemory_linear_read_kuint32 :: "u32 \<Rightarrow> kmem \<Rightarrow> stop + u32" where
  "kmemory_linear_read_kuint32 address s = rd32 s address"

text \<open>A \<^verbatim>\<open>kuint64\<close> is two words, the low one first.\<close>

definition kmemory_linear_read_kuint64 :: "u32 \<Rightarrow> kmem \<Rightarrow> stop + u64" where
  "kmemory_linear_read_kuint64 address s =
     andthen (rd32 s address) (\<lambda>lo. andthen (rd32 s (address + 4)) (\<lambda>hi.
       Inr (ucast lo OR push_bit 32 (ucast hi))))"

definition kmemory_linear_write_kuint :: "u32 \<Rightarrow> u32 \<Rightarrow> kmem \<Rightarrow> stop + kmem" where
  "kmemory_linear_write_kuint address v s = wr32 address v s"

definition kmemory_linear_write_kuint8 :: "u32 \<Rightarrow> u8 \<Rightarrow> kmem \<Rightarrow> stop + kmem" where
  "kmemory_linear_write_kuint8 address v s = wr8 address v s"

definition kmemory_linear_write_kuint16 :: "u32 \<Rightarrow> u16 \<Rightarrow> kmem \<Rightarrow> stop + kmem" where
  "kmemory_linear_write_kuint16 address v s = wr16 address v s"

definition kmemory_linear_write_kuint32 :: "u32 \<Rightarrow> u32 \<Rightarrow> kmem \<Rightarrow> stop + kmem" where
  "kmemory_linear_write_kuint32 address v s = wr32 address v s"

definition kmemory_linear_write_kuint64 :: "u32 \<Rightarrow> u64 \<Rightarrow> kmem \<Rightarrow> stop + kmem" where
  "kmemory_linear_write_kuint64 address v s =
     andthen (wr32 address (ucast v) s) (\<lambda>s1. wr32 (address + 4) (ucast (drop_bit 32 v)) s1)"

section \<open>Copying and filling\<close>

text \<open>\<^verbatim>\<open>rep movs\<close> with the direction flag clear: \<open>n\<close> elements of \<open>width\<close> bytes.\<close>

primrec rep_movs :: "(kmem \<Rightarrow> u32 \<Rightarrow> stop + 'w) \<Rightarrow> (u32 \<Rightarrow> 'w \<Rightarrow> kmem \<Rightarrow> stop + kmem) \<Rightarrow> u32 \<Rightarrow> nat \<Rightarrow>
    u32 \<Rightarrow> u32 \<Rightarrow> kmem \<Rightarrow> stop + (u32 \<times> u32 \<times> kmem)" where
  "rep_movs rd wr width 0 di si s = Inr (di, si, s)"
| "rep_movs rd wr width (Suc n) di si s =
     andthen (rd s si) (\<lambda>v. andthen (wr di v s) (\<lambda>s1. rep_movs rd wr width n (di + width) (si + width) s1))"

definition copy_pages :: "u32 \<Rightarrow> u32 \<Rightarrow> u32 \<Rightarrow> kmem \<Rightarrow> stop + kmem" where
  "copy_pages destination source count s =
     andthen (rep_movs rd32 wr32 4 (unat (count * 1024)) destination source s) (\<lambda>(di, si, s1). Inr s1)"

text \<open>Words, then a half word when bit 1 of the size is set, then a byte when bit 0 is.\<close>

definition kmemory_virtual_copy :: "u32 \<Rightarrow> u32 \<Rightarrow> u32 \<Rightarrow> kmem \<Rightarrow> stop + (u32 \<times> kmem)" where
  "kmemory_virtual_copy destination source len s =
     andthen (rep_movs rd32 wr32 4 (unat (len div 4)) destination source s) (\<lambda>(di, si, s1).
     andthen (rep_movs rd16 wr16 2 (if len AND 0x02 \<noteq> 0 then 1 else 0) di si s1) (\<lambda>(di1, si1, s2).
     andthen (rep_movs rd8 wr8 1 (if len AND 0x01 \<noteq> 0 then 1 else 0) di1 si1 s2) (\<lambda>(di2, si2, s3).
       Inr (destination, s3))))"

text \<open>
  \<^verbatim>\<open>xchgb %al, %ah; rep stosw; stosb\<close>. The compiler puts \<open>value\<close> in \<^verbatim>\<open>al\<close>; \<open>ah\<close> is what it leaves
  in the other byte of \<^verbatim>\<open>ax\<close>. After the exchange the low byte, stored first, is \<open>ah\<close>.
\<close>

primrec rep_stosw :: "nat \<Rightarrow> u16 \<Rightarrow> u32 \<Rightarrow> kmem \<Rightarrow> stop + (u32 \<times> kmem)" where
  "rep_stosw 0 ax di s = Inr (di, s)"
| "rep_stosw (Suc n) ax di s = andthen (wr16 di ax s) (\<lambda>s1. rep_stosw n ax (di + 2) s1)"

definition kmemory_virtual_fill :: "u8 \<Rightarrow> u32 \<Rightarrow> u32 \<Rightarrow> u8 \<Rightarrow> kmem \<Rightarrow> stop + (u32 \<times> kmem)" where
  "kmemory_virtual_fill ah pointer len val s =
     (let ax = half_of_bytes ah val in
      andthen (rep_stosw (unat (len div 2)) ax pointer s) (\<lambda>(di, s1).
      andthen (if len AND 0x01 \<noteq> 0 then wr8 di (ucast ax) s1 else Inr s1) (\<lambda>s2.
        Inr (pointer, s2))))"


section \<open>Writing a stretch of bytes\<close>

text \<open>Memory in which the \<open>n\<close> bytes from \<open>p\<close> on are given by \<open>f\<close>.\<close>

definition overlay :: "bytes \<Rightarrow> u32 \<Rightarrow> nat \<Rightarrow> (nat \<Rightarrow> u8) \<Rightarrow> bytes" where
  "overlay m p n f = (\<lambda>x. if unat (x - p) < n then f (unat (x - p)) else m x)"

lemma overlay_0 [simp]: "overlay m p 0 f = m"
  by (simp add: overlay_def)

lemma overlay_Suc:
  assumes "n < 4294967296"
  shows "(overlay m p n f)(p + word_of_nat n := f n) = overlay m p (Suc n) f"
proof
  fix x
  have "x = p + word_of_nat n \<longleftrightarrow> x - p = word_of_nat n" by (auto simp: algebra_simps)
  also have "\<dots> \<longleftrightarrow> unat (x - p) = n"
    using assms by (auto simp: word_unat_eq_iff unat_of_nat_small)
  finally have "x = p + word_of_nat n \<longleftrightarrow> unat (x - p) = n" .
  then show "((overlay m p n f)(p + word_of_nat n := f n)) x = overlay m p (Suc n) f x"
    by (auto simp: overlay_def less_Suc_eq)
qed

lemma overlay_2:
  assumes "n + 1 < 4294967296"
  shows "(overlay m p n f)(p + word_of_nat n := f n, p + word_of_nat n + 1 := f (n + 1)) =
    overlay m p (n + 2) f"
proof -
  have "p + word_of_nat n + 1 = p + word_of_nat (Suc n)" "n + 1 = Suc n" "n + 2 = Suc (Suc n)"
    by (simp_all add: add.assoc add.commute)
  moreover have "n < 4294967296" "Suc n < 4294967296" using assms by simp_all
  ultimately show ?thesis by (simp only: overlay_Suc)
qed

lemma overlay_4:
  assumes "n + 3 < 4294967296"
  shows "(overlay m p n f)(p + word_of_nat n := f n, p + word_of_nat n + 1 := f (n + 1),
      p + word_of_nat n + 2 := f (n + 2), p + word_of_nat n + 3 := f (n + 3)) = overlay m p (n + 4) f"
proof -
  have "p + word_of_nat n + 2 = p + word_of_nat (n + 2)" "p + word_of_nat n + 3 = p + word_of_nat (n + 2) + 1"
    "n + 3 = n + 2 + 1" "n + 4 = n + 2 + 2" by (simp_all add: algebra_simps)
  then show ?thesis using overlay_2 [of n m p f] overlay_2 [of "n + 2" m p f] assms by (simp only:)
qed

lemma bytes_of_word:
  "ucast (word_of_bytes b0 b1 b2 b3) = b0" "ucast (drop_bit 8 (word_of_bytes b0 b1 b2 b3)) = b1"
  "ucast (drop_bit 16 (word_of_bytes b0 b1 b2 b3)) = b2"
  "ucast (drop_bit 24 (word_of_bytes b0 b1 b2 b3)) = b3"
  by (rule bit_word_eqI; auto simp: word_of_bytes_def bit_simps dest: bit_imp_le_length)+

lemma bytes_of_half:
  "ucast (half_of_bytes b0 b1) = b0" "ucast (drop_bit 8 (half_of_bytes b0 b1)) = b1"
  by (rule bit_word_eqI; auto simp: half_of_bytes_def bit_simps dest: bit_imp_le_length)+

section \<open>Copying\<close>

text \<open>No byte of the source is in the destination.\<close>

definition separate :: "u32 \<Rightarrow> u32 \<Rightarrow> nat \<Rightarrow> bool" where
  "separate dst src n \<longleftrightarrow> (\<forall>k<n. n \<le> unat (src + word_of_nat k - dst))"

abbreviation (input) copied :: "bytes \<Rightarrow> u32 \<Rightarrow> u32 \<Rightarrow> nat \<Rightarrow> bytes" where
  "copied m dst src n \<equiv> overlay m dst n (\<lambda>k. m (src + word_of_nat k))"

lemma copied_source: "separate dst src l \<Longrightarrow> n \<le> l \<Longrightarrow> k < l \<Longrightarrow>
    copied m dst src n (src + word_of_nat k) = m (src + word_of_nat k)"
  by (force simp: overlay_def separate_def)

lemma copy_step:
  assumes "\<not> paging s" "separate dst src l" "l < 4294967296"
  defines "st \<equiv> \<lambda>n. s\<lparr>ram := copied (ram s) dst src n\<rparr>"
  shows "n + 4 \<le> l \<Longrightarrow> andthen (rd32 (st n) (src + word_of_nat n)) (\<lambda>v. wr32 (dst + word_of_nat n) v (st n)) = Inr (st (n + 4))"
    "n + 2 \<le> l \<Longrightarrow> andthen (rd16 (st n) (src + word_of_nat n)) (\<lambda>v. wr16 (dst + word_of_nat n) v (st n)) = Inr (st (n + 2))"
    "n + 1 \<le> l \<Longrightarrow> andthen (rd8 (st n) (src + word_of_nat n)) (\<lambda>v. wr8 (dst + word_of_nat n) v (st n)) = Inr (st (n + 1))"
proof -
  have off: "\<not> paging (st n)" using assms(1) by (simp add: st_def)
  have src: "ram (st n) (src + word_of_nat n + word_of_nat j) = ram s (src + word_of_nat (n + j))"
    if "n + j < l" for j
    using copied_source [OF assms(2), of n "n + j" "ram s"] that by (simp add: st_def add.assoc)
  show "andthen (rd32 (st n) (src + word_of_nat n)) (\<lambda>v. wr32 (dst + word_of_nat n) v (st n)) = Inr (st (n + 4))"
    if "n + 4 \<le> l"
    using src [of 0] src [of 1] src [of 2] src [of 3] that assms(3) off
      overlay_4 [of n "ram s" dst "\<lambda>k. ram s (src + word_of_nat k)"]
    by (simp add: unpaged_access load32_def store32_def bytes_of_word) (simp add: st_def)
  show "andthen (rd16 (st n) (src + word_of_nat n)) (\<lambda>v. wr16 (dst + word_of_nat n) v (st n)) = Inr (st (n + 2))"
    if "n + 2 \<le> l"
    using src [of 0] src [of 1] that assms(3) off
      overlay_2 [of n "ram s" dst "\<lambda>k. ram s (src + word_of_nat k)"]
    by (simp add: rd16_def wr16_def rd8_def phys_def translate_def bytes_of_half) (simp add: st_def)
  show "andthen (rd8 (st n) (src + word_of_nat n)) (\<lambda>v. wr8 (dst + word_of_nat n) v (st n)) = Inr (st (n + 1))"
    if "n + 1 \<le> l"
    using src [of 0] that assms(3) off overlay_Suc [of n "ram s" dst "\<lambda>k. ram s (src + word_of_nat k)"]
    by (simp add: rd8_def wr8_def phys_def translate_def) (simp add: st_def)
qed


lemma rep_movs_steps:
  assumes "\<And>k. k + w \<le> l \<Longrightarrow>
      andthen (rd (st k) (src + word_of_nat k)) (\<lambda>v. wr (dst + word_of_nat k) v (st k)) = Inr (st (k + w))"
    and "k + n * w \<le> l"
  shows "rep_movs rd wr (word_of_nat w) n (dst + word_of_nat k) (src + word_of_nat k) (st k) =
    Inr (dst + word_of_nat (k + n * w), src + word_of_nat (k + n * w), st (k + n * w))"
  using assms(2)
proof (induction n arbitrary: k)
  case (Suc n)
  have "k + w \<le> l" using Suc.prems by simp
  from assms(1) [OF this] have
    "rep_movs rd wr (word_of_nat w) (Suc n) (dst + word_of_nat k) (src + word_of_nat k) (st k) =
     rep_movs rd wr (word_of_nat w) n (dst + word_of_nat (k + w)) (src + word_of_nat (k + w)) (st (k + w))"
    by (auto simp: andthen_Inr_iff add.assoc)
  also have "\<dots> = Inr (dst + word_of_nat (k + w + n * w), src + word_of_nat (k + w + n * w), st (k + w + n * w))"
    using Suc.prems by (intro Suc.IH) simp
  finally show ?case by (simp add: add.assoc)
qed simp

lemma size_bits:
  fixes len :: u32
  shows "len AND 0x02 \<noteq> 0 \<longleftrightarrow> odd (unat len div 2)" "len AND 0x01 \<noteq> 0 \<longleftrightarrow> odd (unat len)"
proof -
  have "len AND 2 \<noteq> 0 \<longleftrightarrow> bit len 1" using and_exp_eq_0_iff_not_bit [of len 1] by simp
  then show "len AND 0x02 \<noteq> 0 \<longleftrightarrow> odd (unat len div 2)" by (simp add: bit_unat)
  have "len AND 1 \<noteq> 0 \<longleftrightarrow> bit len 0" using and_exp_eq_0_iff_not_bit [of len 0] by simp
  then show "len AND 0x01 \<noteq> 0 \<longleftrightarrow> odd (unat len)" by (simp add: bit_unat)
qed

lemma size_split: "n = 4 * (n div 4) + (if odd (n div 2) then 2 else 0) + (if odd n then 1 else 0)" for n :: nat
  by presburger


lemma fill_steps:
  fixes s :: kmem and p :: u32 and ah val :: u8
  assumes "\<not> paging s" "k + 2 * n < 4294967296" "even k"
  defines "f \<equiv> \<lambda>i :: nat. if even i then ah else val"
  defines "st \<equiv> \<lambda>n. s\<lparr>ram := overlay (ram s) p n f\<rparr>"
  shows "rep_stosw n (half_of_bytes ah val) (p + word_of_nat k) (st k) = Inr (p + word_of_nat (k + 2 * n), st (k + 2 * n))"
  using assms(2,3)
proof (induction n arbitrary: k)
  case (Suc n)
  have "wr16 (p + word_of_nat k) (half_of_bytes ah val) (st k) = Inr (st (k + 2))"
    using overlay_2 [of k "ram s" p f] Suc.prems assms(1)
    by (simp add: wr16_def phys_def translate_def st_def bytes_of_half f_def)
  moreover have "rep_stosw n (half_of_bytes ah val) (p + word_of_nat (k + 2)) (st (k + 2)) =
      Inr (p + word_of_nat (k + 2 + 2 * n), st (k + 2 + 2 * n))"
    using Suc.prems by (intro Suc.IH) simp_all
  moreover have "p + word_of_nat k + 2 = p + word_of_nat (k + 2)" "k + 2 + 2 * n = k + 2 * Suc n"
    by (simp_all add: add.assoc add.commute)
  ultimately show ?case by (simp only: rep_stosw.simps andthen.simps)
qed simp



text \<open>A machine before paging is switched on, with a few bytes in its memory.\<close>

definition bare_machine :: kmem where
  "bare_machine =
     \<lparr>ram = (\<lambda>_. 0)(0x2000 := 1, 0x2001 := 2, 0x2002 := 3), cr3 = 0, paging = False, eflags_reg = 2,
      kmemory_spinlock = 0, vptd = 0, lptd = 0, zones = \<lambda>_. \<lparr>zone_next = 0, zone_start = 0, zone_end = 0\<rparr>,
      virtual_block = 0, virtual_address = 0\<rparr>"



section \<open>What a release does to the frames\<close>

text \<open>Page number \<open>p\<close> is not one of the tables.\<close>

definition plain_page :: "kmem \<Rightarrow> nat \<Rightarrow> bool" where
  "plain_page s p \<longleftrightarrow> \<not> table_page s (frame_addr p) \<and> \<not> linear_page s (frame_addr p)"

text \<open>One entry of a run: the state before and after, with what the whole run keeps.\<close>

definition released :: "kmem \<Rightarrow> kmem \<Rightarrow> nat \<Rightarrow> nat \<Rightarrow> bool" where
  "released s s' p n \<longleftrightarrow> memory_ok s' \<and> (\<exists>m. s' = s\<lparr>ram := m\<rparr>) \<and>
     (\<forall>j<1024. virtual_dir s' j = virtual_dir s j) \<and> (\<forall>i<1024. table_present s' i = table_present s i) \<and>
     (\<forall>h. plain_page s' h = plain_page s h) \<and>
     (\<forall>g<1048576. g \<noteq> 0 \<longrightarrow> available s' g = available s g) \<and>
     (\<forall>x. walk (ram s') (vptd s') x =
       (if p \<le> unat x div 4096 \<and> unat x div 4096 < p + n then None else walk (ram s) (vptd s) x))"

lemma release_one:
  fixes s :: kmem
  assumes ok: "memory_ok s" and zero: "table_present s 0" "plain_page s 0"
    and p: "p < 1048576" "plain_page s p" and here: "bit (virtual_dir s (dir_index (frame_addr p))) 0"
  shows "\<exists>s2. andthen (rd32 s (virtual_slot s (frame_addr p))) (\<lambda>e.
      andthen (if e AND VIRTUAL_ALLOCATED \<noteq> 0 then set_linear_entry (page_base e) 0 LINEAR_AVAILABLE s else Inr s) (\<lambda>s1.
        wr32 (virtual_slot s (frame_addr p)) 0 s1)) = Inr s2 \<and> released s s2 p 1"
proof -
  let ?slot = "virtual_slot s (frame_addr p)"
  define e where "e = load32 (ram s) ?slot"
  have base: "page_base (frame_addr p) = frame_addr p" by (rule page_base_aligned [OF page_aligned_frame [OF p(1)]])
  have z: "frame_addr 0 = 0" by (simp add: frame_addr_def)
  have present: "table_present s (0 div 1024)" using zero(1) by simp
  let ?v = "page_base e OR LINEAR_AVAILABLE"
  define s1 where "s1 = (if e AND VIRTUAL_ALLOCATED \<noteq> 0
    then s\<lparr>ram := store32 (ram s) (linear_slot s 0) ?v\<rparr> else s)"
  have set: "(if e AND VIRTUAL_ALLOCATED \<noteq> 0 then set_linear_entry (page_base e) 0 LINEAR_AVAILABLE s
      else Inr s) = Inr s1"
    using set_linear_frame [OF ok _ present, of "page_base e" LINEAR_AVAILABLE] by (simp add: s1_def z)
  have "memory_ok s1 \<and> (\<forall>q. table_page s1 q = table_page s q) \<and> (\<forall>q. linear_page s1 q = linear_page s q)"
    using store_linear_ok [OF ok _ present disjI2, where v = ?v] zero(2) ok
    by (auto simp: s1_def plain_page_def)
  then have ok1: "memory_ok s1" and tp1: "\<And>q. table_page s1 q = table_page s q"
    and lp1: "\<And>q. linear_page s1 q = linear_page s q" by blast+
  have vd1: "\<And>j. j < 1024 \<Longrightarrow> virtual_dir s1 j = virtual_dir s j"
    and de1: "\<And>i. i < 1024 \<Longrightarrow> dir_entry s1 i = dir_entry s i"
    and wk1: "\<And>x. walk (ram s1) (vptd s) x = walk (ram s) (vptd s) x"
    using store_linear(1,2,5) [OF ok _ present, where v = ?v] by (auto simp: s1_def)
  have av1: "\<And>g. g < 1048576 \<Longrightarrow> g \<noteq> 0 \<Longrightarrow> available s1 g = available s g"
    using store_linear_available [OF ok _ present, where v = ?v] by (auto simp: s1_def)
  have here1: "bit (virtual_dir s1 (dir_index (frame_addr p))) 0" by (simp add: vd1 here)
  have slot1: "virtual_slot s1 (frame_addr p) = ?slot" by (simp add: virtual_slot_def vd1)
  define s2 where "s2 = s1\<lparr>ram := store32 (ram s1) (virtual_slot s1 (frame_addr p)) 0\<rparr>"
  note st = store_virtual [OF ok1 here1, where v = 0, folded s2_def]
  have no: "\<not> (table_page s1 (page_base (frame_addr p)) \<or> linear_page s1 (page_base (frame_addr p)))"
    using p(2) by (simp add: plain_page_def tp1 lp1 base)
  have ok2: "memory_ok s2" "\<And>q. table_page s2 q = table_page s1 q" "\<And>q. linear_page s2 q = linear_page s1 q"
    "\<And>h. h < 1048576 \<Longrightarrow> available s2 h = available s1 h"
    using store_virtual_ok [OF ok1 here1, where v = 0, folded s2_def] no by blast+
  have vp: "vptd s2 = vptd s" "vptd s1 = vptd s" by (simp_all add: s2_def s1_def)
  have "walk (ram s2) (vptd s2) x = (if unat x div 4096 = p then None else walk (ram s) (vptd s) x)" for x
    using st(4) [of x] wk1 [of x] page_base_frame [OF p(1), of x] by (simp add: vp base)
  moreover have "\<exists>m. s2 = s\<lparr>ram := m\<rparr>"
    by (intro exI [of _ "ram s2"]) (simp add: s2_def s1_def)
  ultimately have "released s s2 p 1"
    unfolding released_def using ok2 st(1,2) vd1 de1 av1 tp1 lp1
    by (simp add: plain_page_def table_present_def)
  moreover have "wr32 ?slot 0 s1 = Inr s2"
    using access_virtual_slot(2) [OF ok1 here1] by (simp add: slot1 s2_def)
  ultimately show ?thesis
    using access_virtual_slot(1) [OF ok here] set by (auto simp: e_def [symmetric])
qed

lemma released_append:
  "released s s1 p 1 \<Longrightarrow> released s1 s2 (p + 1) n \<Longrightarrow> released s s2 p (Suc n)"
  unfolding released_def by (intro conjI; (elim conjE)?; force)


lemma release_run:
  fixes s :: kmem
  assumes "memory_ok s" "table_present s 0" "plain_page s 0" "i1 < 1024" "i2 + unat count \<le> 1024" "0 < count"
    and "bit (virtual_dir s (word_of_nat i1)) 0" "\<forall>k<unat count. plain_page s (1024 * i1 + i2 + k)"
  shows "\<exists>s'. release_table (page_base (virtual_dir s (word_of_nat i1))) i2 count s = Inr (Inl s') \<and>
    released s s' (1024 * i1 + i2) (unat count)"
  using assms
proof (induction "unat count" arbitrary: s i2 count)
  case 0
  then show ?case by (simp add: word_less_nat_alt)
next
  case (Suc n)
  let ?p = "1024 * i1 + i2" and ?pt = "page_base (virtual_dir s (word_of_nat i1))"
  have i2: "i2 < 1024" using Suc.hyps(2) Suc.prems(5) by simp
  then have p: "?p < 1048576" "?p div 1024 = i1" "?p mod 1024 = i2" using Suc.prems(4) by simp_all
  note ix = frame_addr_indices [OF p(1), unfolded p(2,3)]
  have slot: "virtual_slot s (frame_addr ?p) = entry_at ?pt (word_of_nat i2)"
    by (simp add: virtual_slot_def ix)
  have "plain_page s ?p" using Suc.prems(8) Suc.hyps(2) by (metis Nat.add_0_right zero_less_Suc)
  moreover have "bit (virtual_dir s (dir_index (frame_addr ?p))) 0" using Suc.prems(7) by (simp add: ix)
  ultimately obtain s2 where s2: "andthen (rd32 s (entry_at ?pt (word_of_nat i2))) (\<lambda>e.
      andthen (if e AND VIRTUAL_ALLOCATED \<noteq> 0 then set_linear_entry (page_base e) 0 LINEAR_AVAILABLE s else Inr s) (\<lambda>s1.
        wr32 (entry_at ?pt (word_of_nat i2)) 0 s1)) = Inr s2" and rel: "released s s2 ?p 1"
    using release_one [OF Suc.prems(1-3) p(1)] unfolding slot by blast
  have go: "release_table ?pt i2 count s =
      (if count - 1 = 0 then Inr (Inl s2) else release_table ?pt (i2 + 1) (count - 1) s2)"
  proof -
    have "release_table ?pt i2 count s = andthen (andthen (rd32 s (entry_at ?pt (word_of_nat i2))) (\<lambda>e.
      andthen (if e AND VIRTUAL_ALLOCATED \<noteq> 0 then set_linear_entry (page_base e) 0 LINEAR_AVAILABLE s else Inr s) (\<lambda>s1.
        wr32 (entry_at ?pt (word_of_nat i2)) 0 s1)))
      (\<lambda>s2. if count - 1 = 0 then Inr (Inl s2) else release_table ?pt (i2 + 1) (count - 1) s2)"
      using i2 by (subst release_table.simps) (simp add: andthen_assoc)
    then show ?thesis unfolding s2 by simp
  qed
  have n: "unat (count - 1) = n" using Suc.hyps(2) Suc.prems(6) by (simp add: unat_minus_one word_neq_0_conv)
  show ?case
  proof (cases "n = 0")
    case True
    then have "count - 1 = 0" using n by (simp add: unat_eq_zero)
    then show ?thesis using go rel Suc.hyps(2) True by auto
  next
    case False
    then have c: "count - 1 \<noteq> 0" "0 < count - 1" using n by (auto simp: word_less_nat_alt)
    have same: "virtual_dir s2 (word_of_nat i1) = virtual_dir s (word_of_nat i1)"
      using rel Suc.prems(4) by (simp add: released_def)
    have pres: "memory_ok s2" "table_present s2 0" "plain_page s2 0"
      using rel Suc.prems(2,3) by (auto simp: released_def)
    have plain: "\<forall>k<unat (count - 1). plain_page s2 (1024 * i1 + (i2 + 1) + k)"
    proof (intro allI impI)
      fix k assume "k < unat (count - 1)"
      then have "Suc k < unat count" using n Suc.hyps(2) by simp
      then have "plain_page s (1024 * i1 + i2 + Suc k)" using Suc.prems(8) by blast
      then show "plain_page s2 (1024 * i1 + (i2 + 1) + k)" using rel by (simp add: released_def)
    qed
    obtain s' where s': "release_table ?pt (i2 + 1) (count - 1) s2 = Inr (Inl s')"
      "released s2 s' (1024 * i1 + (i2 + 1)) n"
      using Suc.hyps(1) [OF n [symmetric] pres Suc.prems(4) _ c(2) _ plain] Suc.prems(5,7) Suc.hyps(2) n
      by (auto simp: same)
    have "released s s' ?p (Suc n)"
      using released_append [OF rel] s'(2) by (simp add: add.assoc)
    then show ?thesis using go c(1) s'(1) Suc.hyps(2) by simp
  qed
qed



end
