(* ===== verification/Ioport.thy ===== *)
theory Ioport
  imports Machine
begin

unbundle bit_operations_syntax

text \<open>
  \<^verbatim>\<open>arch/ia32/ioport.c\<close>. The devices behind the ports are hardware: a \<open>bus\<close> says how their state
  \<open>'d\<close> answers the \<^verbatim>\<open>in\<close> and \<^verbatim>\<open>out\<close> instructions of each width, and is a parameter of every routine.
\<close>

record 'd bus =
  in8 :: "u16 \<Rightarrow> 'd \<Rightarrow> u8 \<times> 'd"
  in16 :: "u16 \<Rightarrow> 'd \<Rightarrow> u16 \<times> 'd"
  in32 :: "u16 \<Rightarrow> 'd \<Rightarrow> u32 \<times> 'd"
  out8 :: "u16 \<Rightarrow> u8 \<Rightarrow> 'd \<Rightarrow> 'd"
  out16 :: "u16 \<Rightarrow> u16 \<Rightarrow> 'd \<Rightarrow> 'd"
  out32 :: "u16 \<Rightarrow> u32 \<Rightarrow> 'd \<Rightarrow> 'd"

section \<open>Single accesses\<close>

text \<open>The instructions take the port from \<^verbatim>\<open>dx\<close>, the low half of \<open>port\<close>.\<close>

definition kioport_in_kuint :: "'d bus \<Rightarrow> u32 \<Rightarrow> 'd \<Rightarrow> u32 \<times> 'd" where
  "kioport_in_kuint bus port d = in32 bus (ucast port) d"

definition kioport_in_kuint8 :: "'d bus \<Rightarrow> u32 \<Rightarrow> 'd \<Rightarrow> u8 \<times> 'd" where
  "kioport_in_kuint8 bus port d = in8 bus (ucast port) d"

definition kioport_in_kuint16 :: "'d bus \<Rightarrow> u32 \<Rightarrow> 'd \<Rightarrow> u16 \<times> 'd" where
  "kioport_in_kuint16 bus port d = in16 bus (ucast port) d"

definition kioport_in_kuint32 :: "'d bus \<Rightarrow> u32 \<Rightarrow> 'd \<Rightarrow> u32 \<times> 'd" where
  "kioport_in_kuint32 bus port d = in32 bus (ucast port) d"

definition kioport_in_kuint64 :: "'d bus \<Rightarrow> u32 \<Rightarrow> 'd \<Rightarrow> u64 \<times> 'd" where
  "kioport_in_kuint64 bus port d = (0, d)"

definition kioport_out_kuint :: "'d bus \<Rightarrow> u32 \<Rightarrow> u32 \<Rightarrow> 'd \<Rightarrow> 'd" where
  "kioport_out_kuint bus port value d = out32 bus (ucast port) value d"

definition kioport_out_kuint8 :: "'d bus \<Rightarrow> u32 \<Rightarrow> u8 \<Rightarrow> 'd \<Rightarrow> 'd" where
  "kioport_out_kuint8 bus port value d = out8 bus (ucast port) value d"

definition kioport_out_kuint16 :: "'d bus \<Rightarrow> u32 \<Rightarrow> u16 \<Rightarrow> 'd \<Rightarrow> 'd" where
  "kioport_out_kuint16 bus port value d = out16 bus (ucast port) value d"

definition kioport_out_kuint32 :: "'d bus \<Rightarrow> u32 \<Rightarrow> u32 \<Rightarrow> 'd \<Rightarrow> 'd" where
  "kioport_out_kuint32 bus port value d = out32 bus (ucast port) value d"

definition kioport_out_kuint64 :: "'d bus \<Rightarrow> u32 \<Rightarrow> u64 \<Rightarrow> 'd \<Rightarrow> 'd" where
  "kioport_out_kuint64 bus port value d = d"

section \<open>Arrays\<close>

text \<open>
  \<^verbatim>\<open>rep ins\<close> and \<^verbatim>\<open>rep outs\<close> with the direction flag clear: \<open>n\<close> transfers between the port and the
  elements of \<open>width\<close> bytes from \<open>a\<close> on.
\<close>

primrec rep_ins :: "('d \<Rightarrow> 'w \<times> 'd) \<Rightarrow> (u32 \<Rightarrow> 'w \<Rightarrow> 'm \<Rightarrow> stop + 'm) \<Rightarrow> u32 \<Rightarrow> nat \<Rightarrow> u32 \<Rightarrow> 'm \<Rightarrow> 'd \<Rightarrow>
    stop + ('m \<times> 'd)" where
  "rep_ins inp wr width 0 a s d = Inr (s, d)"
| "rep_ins inp wr width (Suc n) a s d =
     (let (v, d1) = inp d in
      andthen (wr a v s) (\<lambda>s1. rep_ins inp wr width n (a + width) s1 d1))"

primrec rep_outs :: "('w \<Rightarrow> 'd \<Rightarrow> 'd) \<Rightarrow> ('m \<Rightarrow> u32 \<Rightarrow> stop + 'w) \<Rightarrow> u32 \<Rightarrow> nat \<Rightarrow> u32 \<Rightarrow> 'm \<Rightarrow> 'd \<Rightarrow> stop + 'd" where
  "rep_outs outp rd width 0 a s d = Inr d"
| "rep_outs outp rd width (Suc n) a s d =
     andthen (rd s a) (\<lambda>v. rep_outs outp rd width n (a + width) s (outp v d))"

definition kioport_in_kuint_array ::
    "'d bus \<Rightarrow> u32 \<Rightarrow> u32 \<Rightarrow> u32 \<Rightarrow> ('a) machine_scheme \<Rightarrow> 'd \<Rightarrow> stop + (('a) machine_scheme \<times> 'd)" where
  "kioport_in_kuint_array bus port array len s d =
     rep_ins (in32 bus (ucast port)) wr32 4 (unat len) array s d"

definition kioport_in_kuint8_array ::
    "'d bus \<Rightarrow> u32 \<Rightarrow> u32 \<Rightarrow> u32 \<Rightarrow> ('a) machine_scheme \<Rightarrow> 'd \<Rightarrow> stop + (('a) machine_scheme \<times> 'd)" where
  "kioport_in_kuint8_array bus port array len s d =
     rep_ins (in8 bus (ucast port)) wr8 1 (unat len) array s d"

definition kioport_in_kuint16_array ::
    "'d bus \<Rightarrow> u32 \<Rightarrow> u32 \<Rightarrow> u32 \<Rightarrow> ('a) machine_scheme \<Rightarrow> 'd \<Rightarrow> stop + (('a) machine_scheme \<times> 'd)" where
  "kioport_in_kuint16_array bus port array len s d =
     rep_ins (in16 bus (ucast port)) wr16 2 (unat len) array s d"

definition kioport_in_kuint32_array ::
    "'d bus \<Rightarrow> u32 \<Rightarrow> u32 \<Rightarrow> u32 \<Rightarrow> ('a) machine_scheme \<Rightarrow> 'd \<Rightarrow> stop + (('a) machine_scheme \<times> 'd)" where
  "kioport_in_kuint32_array bus port array len s d =
     rep_ins (in32 bus (ucast port)) wr32 4 (unat len) array s d"

definition kioport_in_kuint64_array ::
    "'d bus \<Rightarrow> u32 \<Rightarrow> u32 \<Rightarrow> u32 \<Rightarrow> ('a) machine_scheme \<Rightarrow> 'd \<Rightarrow> stop + (('a) machine_scheme \<times> 'd)" where
  "kioport_in_kuint64_array bus port array len s d = Inr (s, d)"

definition kioport_out_kuint_array ::
    "'d bus \<Rightarrow> u32 \<Rightarrow> u32 \<Rightarrow> u32 \<Rightarrow> ('a) machine_scheme \<Rightarrow> 'd \<Rightarrow> stop + 'd" where
  "kioport_out_kuint_array bus port array len s d =
     rep_outs (out32 bus (ucast port)) rd32 4 (unat len) array s d"

definition kioport_out_kuint8_array ::
    "'d bus \<Rightarrow> u32 \<Rightarrow> u32 \<Rightarrow> u32 \<Rightarrow> ('a) machine_scheme \<Rightarrow> 'd \<Rightarrow> stop + 'd" where
  "kioport_out_kuint8_array bus port array len s d =
     rep_outs (out8 bus (ucast port)) rd8 1 (unat len) array s d"

definition kioport_out_kuint16_array ::
    "'d bus \<Rightarrow> u32 \<Rightarrow> u32 \<Rightarrow> u32 \<Rightarrow> ('a) machine_scheme \<Rightarrow> 'd \<Rightarrow> stop + 'd" where
  "kioport_out_kuint16_array bus port array len s d =
     rep_outs (out16 bus (ucast port)) rd16 2 (unat len) array s d"

definition kioport_out_kuint32_array ::
    "'d bus \<Rightarrow> u32 \<Rightarrow> u32 \<Rightarrow> u32 \<Rightarrow> ('a) machine_scheme \<Rightarrow> 'd \<Rightarrow> stop + 'd" where
  "kioport_out_kuint32_array bus port array len s d =
     rep_outs (out32 bus (ucast port)) rd32 4 (unat len) array s d"

definition kioport_out_kuint64_array ::
    "'d bus \<Rightarrow> u32 \<Rightarrow> u32 \<Rightarrow> u32 \<Rightarrow> ('a) machine_scheme \<Rightarrow> 'd \<Rightarrow> stop + 'd" where
  "kioport_out_kuint64_array bus port array len s d = Inr d"

section \<open>What a transfer does\<close>

text \<open>The values \<open>n\<close> successive reads of a port give, and the device after them.\<close>

primrec port_reads :: "('d \<Rightarrow> 'w \<times> 'd) \<Rightarrow> nat \<Rightarrow> 'd \<Rightarrow> 'w list \<times> 'd" where
  "port_reads inp 0 d = ([], d)"
| "port_reads inp (Suc n) d =
     (let (v, d1) = inp d; (vs, d2) = port_reads inp n d1 in (v # vs, d2))"

lemma port_reads_length: "length (fst (port_reads inp n d)) = n"
  by (induction n arbitrary: d) (auto simp: split_beta Let_def)

text \<open>The bytes \<open>vs\<close> laid out from \<open>a\<close> on.\<close>

definition filled :: "bytes \<Rightarrow> u32 \<Rightarrow> u8 list \<Rightarrow> bytes" where
  "filled m a vs = (\<lambda>x. if unat (x - a) < length vs then vs ! unat (x - a) else m x)"

lemma filled_Cons:
  assumes "length vs < 4294967296"
  shows "filled (m(a := v)) (a + 1) vs = filled m a (v # vs)"
proof
  fix x
  show "filled (m(a := v)) (a + 1) vs x = filled m a (v # vs) x"
  proof (cases "x = a")
    case True
    have "unat (a - (a + 1)) = 4294967295" by (simp add: unsigned_minus_1_eq_mask mask_eq_exp_minus_1)
    then show ?thesis using True assms by (simp add: filled_def)
  next
    case False
    then have "x - a \<noteq> 0" by simp
    then have "unat (x - a) = Suc (unat (x - a - 1))"
      by (simp add: unat_minus_one Suc_diff_1 unat_gt_0)
    moreover have sub: "x - (a + 1) = x - a - 1" by simp
    ultimately show ?thesis using False unfolding filled_def sub by simp
  qed
qed

lemma rep_ins8_unpaged:
  assumes "\<not> paging s" "n \<le> 4294967296"
  shows "rep_ins inp wr8 1 n a s d =
    Inr (s\<lparr>ram := filled (ram s) a (fst (port_reads inp n d))\<rparr>, snd (port_reads inp n d))"
  using assms
proof (induction n arbitrary: a s d)
  case 0
  then show ?case by (simp add: filled_def)
next
  case (Suc n)
  obtain v d1 where v: "inp d = (v, d1)" by (cases "inp d")
  let ?s1 = "s\<lparr>ram := (ram s)(a := v)\<rparr>"
  have "wr8 a v s = Inr ?s1" using Suc.prems(1) by (simp add: wr8_def phys_def translate_def)
  then have "rep_ins inp wr8 1 (Suc n) a s d = rep_ins inp wr8 1 n (a + 1) ?s1 d1"
    by (simp add: v)
  also have "\<dots> = Inr (?s1\<lparr>ram := filled (ram ?s1) (a + 1) (fst (port_reads inp n d1))\<rparr>,
      snd (port_reads inp n d1))"
    using Suc.prems by (intro Suc.IH) simp_all
  also have "filled (ram ?s1) (a + 1) (fst (port_reads inp n d1)) = filled (ram s) a (v # fst (port_reads inp n d1))"
    using Suc.prems(2) filled_Cons [of "fst (port_reads inp n d1)" "ram s" a v]
    by (simp only: port_reads_length machine.simps) simp
  finally show ?case by (simp add: v Let_def split_beta)
qed

lemma rep_outs8_filled:
  assumes "\<not> paging s" "\<forall>k<length vs. ram s (a + word_of_nat k) = vs ! k"
  shows "rep_outs outp rd8 1 (length vs) a s d = Inr (fold outp vs d)"
  using assms
proof (induction vs arbitrary: a d)
  case (Cons v vs)
  have "ram s a = v" using Cons.prems(2) [THEN spec, of 0] by simp
  moreover have "\<forall>k<length vs. ram s (a + 1 + word_of_nat k) = vs ! k"
  proof (intro allI impI)
    fix k assume "k < length vs"
    then show "ram s (a + 1 + word_of_nat k) = vs ! k"
      using Cons.prems(2) [THEN spec, of "Suc k"] by (simp add: add.assoc)
  qed
  ultimately show ?case
    using Cons.IH [of "a + 1"] Cons.prems(1) by (simp add: rd8_def phys_def translate_def)
qed simp


text \<open>A device whose ports count upwards, and one that records what it is sent.\<close>

definition counter_bus :: "u8 bus" where
  "counter_bus = \<lparr>in8 = \<lambda>p d. (d, d + 1), in16 = \<lambda>p d. (ucast d, d), in32 = \<lambda>p d. (ucast d, d),
     out8 = \<lambda>p v d. d, out16 = \<lambda>p v d. d, out32 = \<lambda>p v d. d\<rparr>"

definition recorder_bus :: "u8 list bus" where
  "recorder_bus = \<lparr>in8 = \<lambda>p d. (0, d), in16 = \<lambda>p d. (0, d), in32 = \<lambda>p d. (0, d),
     out8 = \<lambda>p v d. d @ [v], out16 = \<lambda>p v d. d, out32 = \<lambda>p v d. d\<rparr>"


end
