(* ===== verification/Processor.thy ===== *)
theory Processor
  imports Prelude
begin

unbundle bit_operations_syntax

text \<open>
  \<^verbatim>\<open>arch/ia32/processor.c\<close>: the flags register and the byte order routines. A routine that works on
  \<^verbatim>\<open>*value\<close> is a function of the value; the branches for \<^verbatim>\<open>CPU == 386\<close> are not compiled.
\<close>

text \<open>The pair is the caller's \<^verbatim>\<open>*flags\<close> and the flags register.\<close>

definition kprocessor_flags_save :: "u32 \<times> u32 \<Rightarrow> u32 \<times> u32" where
  "kprocessor_flags_save = (\<lambda>(flags, eflags). (eflags, eflags))"

definition kprocessor_flags_restore :: "u32 \<times> u32 \<Rightarrow> u32 \<times> u32" where
  "kprocessor_flags_restore = (\<lambda>(flags, eflags). (flags, flags))"

text \<open>\<^verbatim>\<open>bswapl\<close>, and \<^verbatim>\<open>xchgb\<close> of the two bytes of a 16 bit register.\<close>

definition bswapl :: "u32 \<Rightarrow> u32" where
  "bswapl v = push_bit 24 (v AND 0xFF) OR push_bit 8 (v AND 0xFF00) OR
     (drop_bit 8 v AND 0xFF00) OR drop_bit 24 v"

definition xchgb :: "u16 \<Rightarrow> u16" where
  "xchgb v = push_bit 8 (v AND 0xFF) OR drop_bit 8 v"

definition kprocessor_byteswap_kuint :: "u32 \<Rightarrow> u32" where
  "kprocessor_byteswap_kuint value = bswapl value"

definition kprocessor_byteswap_kuint8 :: "u8 \<Rightarrow> u8" where
  "kprocessor_byteswap_kuint8 value = value"

definition kprocessor_byteswap_kuint16 :: "u16 \<Rightarrow> u16" where
  "kprocessor_byteswap_kuint16 value = xchgb value"

definition kprocessor_byteswap_kuint32 :: "u32 \<Rightarrow> u32" where
  "kprocessor_byteswap_kuint32 value = bswapl value"

text \<open>The two words of the value, the low one first, are swapped and exchanged.\<close>

definition kprocessor_byteswap_kuint64 :: "u64 \<Rightarrow> u64" where
  "kprocessor_byteswap_kuint64 value =
     (let w0 = ucast value :: u32; w1 = ucast (drop_bit 32 value) :: u32;
          (r0, r1) = (bswapl w1, bswapl w0)
      in ucast r0 OR push_bit 32 (ucast r1))"

section \<open>Byte order\<close>

text \<open>Byte \<open>i\<close> of a word.\<close>

definition byte_of :: "'a :: len word \<Rightarrow> nat \<Rightarrow> u8" where
  "byte_of v i = ucast (drop_bit (8 * i) v)"

lemma byte_masks: "(0xFF :: 'a :: len word) = mask 8" "(0xFF00 :: 'a :: len word) = push_bit 8 (mask 8)"
  by (simp_all add: mask_eq_exp_minus_1 push_bit_eq_mult)

lemma byte_bit: "bit (byte_of v i) n \<longleftrightarrow> n < 8 \<and> bit v (8 * i + n)"
  by (auto simp: byte_of_def bit_simps)

text \<open>A word is its bytes.\<close>

lemma bytes_eq:
  fixes v w :: "'a :: len word"
  assumes "\<And>i. 8 * i < LENGTH('a) \<Longrightarrow> byte_of v i = byte_of w i"
  shows "v = w"
proof (rule bit_word_eqI)
  fix n assume n: "n < LENGTH('a)"
  have "8 * (n div 8) \<le> n" by simp
  with n have "8 * (n div 8) < LENGTH('a)" by linarith
  from assms [OF this] have "bit (byte_of v (n div 8)) (n mod 8) = bit (byte_of w (n div 8)) (n mod 8)"
    by simp
  then show "bit v n = bit w n" by (simp add: byte_bit)
qed

lemma bswapl_bytes:
  assumes "i < 4"
  shows "byte_of (bswapl v) i = byte_of v (3 - i)"
proof -
  from assms have "i = 0 \<or> i = 1 \<or> i = 2 \<or> i = 3" by arith
  then show ?thesis
    by (elim disjE; simp; intro bit_word_eqI)
      (auto simp: byte_bit bswapl_def byte_masks bit_simps dest: bit_imp_le_length)
qed

lemma xchgb_bytes: "i < 2 \<Longrightarrow> byte_of (xchgb v) i = byte_of v (1 - i)"
  by (intro bit_word_eqI) (auto simp: less_2_cases_iff byte_bit xchgb_def byte_masks bit_simps
    dest: bit_imp_le_length)

lemma byteswap64_bytes:
  assumes "i < 8"
  shows "byte_of (kprocessor_byteswap_kuint64 v) i = byte_of v (7 - i)"
proof (cases "i < 4")
  case True
  have "byte_of (kprocessor_byteswap_kuint64 v) i = byte_of (bswapl (ucast (drop_bit 32 v))) i"
    using True by (intro bit_word_eqI)
      (auto simp: kprocessor_byteswap_kuint64_def Let_def byte_bit bit_simps dest: bit_imp_le_length)
  also have "\<dots> = byte_of (ucast (drop_bit 32 v) :: u32) (3 - i)" by (rule bswapl_bytes [OF True])
  also have "\<dots> = byte_of v (7 - i)"
    using True by (intro bit_word_eqI) (auto simp: byte_bit bit_simps algebra_simps diff_mult_distrib2)
  finally show ?thesis .
next
  case False
  define j where "j = i - 4"
  have j: "i = j + 4" "j < 4" using False assms by (simp_all add: j_def)
  have "byte_of (kprocessor_byteswap_kuint64 v) i = byte_of (bswapl (ucast v)) j"
    using j by (intro bit_word_eqI)
      (auto simp: kprocessor_byteswap_kuint64_def Let_def byte_bit bit_simps dest: bit_imp_le_length)
  also have "\<dots> = byte_of (ucast v :: u32) (3 - j)" by (rule bswapl_bytes [OF j(2)])
  also have "\<dots> = byte_of v (7 - i)"
    using j by (intro bit_word_eqI) (auto simp: byte_bit bit_simps)
  finally show ?thesis .
qed

text \<open>
  Each \<^verbatim>\<open>kprocessor_byteswap\<close> routine reverses the order of the bytes of its value, so that a
  second call gives the value back.
\<close>

theorem byteswap_reverses_bytes:
  "(\<forall>i<2. byte_of (kprocessor_byteswap_kuint16 v) i = byte_of v (1 - i)) \<and>
   (\<forall>i<4. byte_of (kprocessor_byteswap_kuint32 w) i = byte_of w (3 - i)) \<and>
   (\<forall>i<8. byte_of (kprocessor_byteswap_kuint64 x) i = byte_of x (7 - i)) \<and>
   kprocessor_byteswap_kuint16 (kprocessor_byteswap_kuint16 v) = v \<and>
   kprocessor_byteswap_kuint32 (kprocessor_byteswap_kuint32 w) = w \<and>
   kprocessor_byteswap_kuint64 (kprocessor_byteswap_kuint64 x) = x"
proof (intro conjI allI impI)
  show "kprocessor_byteswap_kuint16 (kprocessor_byteswap_kuint16 v) = v"
    by (rule bytes_eq) (simp add: kprocessor_byteswap_kuint16_def xchgb_bytes)
  show "kprocessor_byteswap_kuint32 (kprocessor_byteswap_kuint32 w) = w"
    by (rule bytes_eq) (simp add: kprocessor_byteswap_kuint32_def bswapl_bytes)
  show "kprocessor_byteswap_kuint64 (kprocessor_byteswap_kuint64 x) = x"
    by (rule bytes_eq) (simp add: byteswap64_bytes)
qed (simp_all add: kprocessor_byteswap_kuint16_def kprocessor_byteswap_kuint32_def xchgb_bytes
  bswapl_bytes byteswap64_bytes)

theorem byteswap_reverses_bytes_witness:
  "byte_of (kprocessor_byteswap_kuint32 0x12345678) 0 = 0x12"
proof -
  have "byte_of (kprocessor_byteswap_kuint32 0x12345678) 0 = byte_of (0x12345678 :: u32) 3"
    using byteswap_reverses_bytes [of 0 "0x12345678" 0] by simp
  then show ?thesis by (simp add: byte_of_def)
qed

end
