(* ===== verification/Time.thy ===== *)
theory Time
  imports Ioport Spinlock
begin

unbundle bit_operations_syntax

text \<open>
  \<^verbatim>\<open>arch/ia32/time.c\<close>: the clock, read from the CMOS real time clock and advanced by its interrupt,
  which also decides when the running thread has to give way.
\<close>

section \<open>State\<close>

text \<open>
  The file's variables; \<open>clock_eflags\<close> is the flags register, which the \<^verbatim>\<open>irqsave\<close> locks move.
  \<^verbatim>\<open>kint64\<close> and \<^verbatim>\<open>kint32\<close> values are words, read by \<open>sint\<close>.
\<close>

record clock =
  current_second :: u64
  current_nanosecond :: u32
  thread_ticks :: u32
  time_ticks :: u32
  ktime_spinlock :: u32
  clock_eflags :: u32

section \<open>Reading the real time clock\<close>

text \<open>The macro computes in \<^verbatim>\<open>int\<close> on a \<^verbatim>\<open>kuint8\<close>: at most 165, without wrapping.\<close>

definition bcd_to_binary :: "u8 \<Rightarrow> u32" where
  "bcd_to_binary v = ucast (v AND 0xF) + ucast (drop_bit 4 v) * 10"

text \<open>\<^verbatim>\<open>kioport_out_kuint8(0x70, reg); kioport_in_kuint8(0x71)\<close>.\<close>

definition cmos_read :: "'d bus \<Rightarrow> u8 \<Rightarrow> 'd \<Rightarrow> u8 \<times> 'd" where
  "cmos_read bus reg d = kioport_in_kuint8 bus 0x71 (kioport_out_kuint8 bus 0x70 reg d)"

text \<open>The loop that waits until bit 7 of register A (update in progress) is clear.\<close>

definition cmos_wait :: "'d bus \<Rightarrow> 'd \<Rightarrow> stop + 'd" where
  "cmos_wait bus d = iterate (\<lambda>d. let (value, d1) = cmos_read bus 0x0A d
     in if value AND 0x80 \<noteq> 0 then Inr (Inl d1) else Inr (Inr d1)) d"

text \<open>The last statement: minutes since 1970 in a \<^verbatim>\<open>kuint\<close>, then seconds in a \<^verbatim>\<open>kint64\<close>.\<close>

definition epoch_second :: "u32 \<Rightarrow> u32 \<Rightarrow> u32 \<Rightarrow> u32 \<Rightarrow> u32 \<Rightarrow> u32 \<Rightarrow> u64" where
  "epoch_second year month day hour minute second =
     (let (m, y) = (if sint (month - 2) \<le> 0 then (month - 2 + 12, year - 1) else (month - 2, year));
          minutes = ((((y div 4) - (y div 100) + (y div 400) + ((367 * m) div 12) + day)
             + (y * 365) - 719499) * 24 + hour) * 60 + minute
      in ucast minutes * 60 + ucast second)"

definition read_rtc :: "'d bus \<Rightarrow> 'd \<Rightarrow> stop + ((u64 \<times> u32) \<times> 'd)" where
  "read_rtc bus d =
     andthen (cmos_wait bus d) (\<lambda>d0.
       let (century, d1) = cmos_read bus 0x32 d0;
           (year, d2) = cmos_read bus 0x09 d1;
           (month, d3) = cmos_read bus 0x08 d2;
           (day, d4) = cmos_read bus 0x07 d3;
           (hour, d5) = cmos_read bus 0x04 d4;
           (minute, d6) = cmos_read bus 0x02 d5;
           (second, d7) = cmos_read bus 0x00 d6
       in Inr ((epoch_second (100 * bcd_to_binary century + bcd_to_binary year)
                 (bcd_to_binary month) (bcd_to_binary day) (bcd_to_binary hour)
                 (bcd_to_binary minute) (bcd_to_binary second), 0), d7))"

section \<open>The interrupt\<close>

text \<open>Returns whether the interrupted thread has to yield.\<close>

definition rtc_irq_handler :: "'d bus \<Rightarrow> clock \<times> 'd \<Rightarrow> stop + (u32 \<times> clock \<times> 'd)" where
  "rtc_irq_handler bus = (\<lambda>(c, d).
     let (value, d1) = cmos_read bus 0x0C d
     in andthen (kspinlock_lock (ktime_spinlock c)) (\<lambda>lock.
       let c1 = c\<lparr>ktime_spinlock := lock\<rparr>;
           c2 = (if value AND 0x40 \<noteq> 0
                 then c1\<lparr>current_nanosecond := current_nanosecond c1 + 1000000000 div 1024\<rparr> else c1)
       in andthen (if value AND 0x10 \<noteq> 0 then
              (let c3 = c2\<lparr>time_ticks := time_ticks c2 - 1\<rparr> in
               if time_ticks c2 \<noteq> 0
               then Inr (c3\<lparr>current_second := current_second c3 + 1, current_nanosecond := 0\<rparr>, d1)
               else andthen (read_rtc bus d1) (\<lambda>((second, nanosecond), d2).
                 Inr (c3\<lparr>current_second := second, current_nanosecond := nanosecond, time_ticks := 37\<rparr>, d2)))
            else Inr (c2, d1)) (\<lambda>(c4, d3).
          let c5 = c4\<lparr>ktime_spinlock := kspinlock_unlock (ktime_spinlock c4)\<rparr> in
          if thread_ticks c5 = 0 then Inr (1, c5\<lparr>thread_ticks := 11\<rparr>, d3)
          else Inr (0, c5\<lparr>thread_ticks := thread_ticks c5 - 1\<rparr>, d3))))"

text \<open>
  \<^verbatim>\<open>ktime_init\<close> up to the first reading of the clock; the handler is then assigned to IRQ 8 (theory
  \<open>Irq\<close>).
\<close>

definition ktime_init :: "'d bus \<Rightarrow> clock \<times> 'd \<Rightarrow> stop + (clock \<times> 'd)" where
  "ktime_init bus = (\<lambda>(c, d).
     andthen (cmos_wait bus d) (\<lambda>d0.
       let (a, d1) = cmos_read bus 0x0A d0;
           d2 = kioport_out_kuint8 bus 0x71 ((a AND 0xF0) OR 0x06) (kioport_out_kuint8 bus 0x70 0x0A d1);
           (b, d3) = cmos_read bus 0x0B d2;
           d4 = kioport_out_kuint8 bus 0x71 ((b AND 0x0F) OR 0x52) (kioport_out_kuint8 bus 0x70 0x0B d3);
           (ack, d5) = cmos_read bus 0x0C d4
       in andthen (read_rtc bus d5) (\<lambda>((second, nanosecond), d6).
            Inr (c\<lparr>current_second := second, current_nanosecond := nanosecond\<rparr>, d6))))"

section \<open>The clock for the rest of the kernel\<close>

definition clock_lock :: "clock \<Rightarrow> stop + (u32 \<times> clock)" where
  "clock_lock c =
     andthen (kspinlock_lock_irqsave \<lparr>lock_word = ktime_spinlock c, irqsave = 0, eflags = clock_eflags c\<rparr>)
       (\<lambda>l. Inr (irqsave l, c\<lparr>ktime_spinlock := lock_word l, clock_eflags := eflags l\<rparr>))"

definition clock_unlock :: "u32 \<Rightarrow> clock \<Rightarrow> clock" where
  "clock_unlock saved c =
     (let l = kspinlock_unlock_irqrestore
         \<lparr>lock_word = ktime_spinlock c, irqsave = saved, eflags = clock_eflags c\<rparr>
      in c\<lparr>ktime_spinlock := lock_word l, clock_eflags := eflags l\<rparr>)"

definition ktime_get :: "clock \<Rightarrow> stop + ((u64 \<times> u32) \<times> clock)" where
  "ktime_get c = andthen (clock_lock c) (\<lambda>(saved, c1).
     Inr ((current_second c1, current_nanosecond c1), clock_unlock saved c1))"

definition ktime_set :: "u64 \<Rightarrow> u32 \<Rightarrow> clock \<Rightarrow> stop + clock" where
  "ktime_set second nanosecond c = andthen (clock_lock c) (\<lambda>(saved, c1).
     Inr (clock_unlock saved (c1\<lparr>current_second := second, current_nanosecond := nanosecond\<rparr>)))"

section \<open>The calendar\<close>

text \<open>The Gregorian calendar as a reference: days since the first of January 1970.\<close>

definition leap_year :: "nat \<Rightarrow> bool" where
  "leap_year y \<longleftrightarrow> 4 dvd y \<and> (\<not> 100 dvd y \<or> 400 dvd y)"

definition year_days :: "nat \<Rightarrow> nat" where
  "year_days y = (if leap_year y then 366 else 365)"

definition month_days :: "nat \<Rightarrow> nat \<Rightarrow> nat" where
  "month_days y m =
     (if m = 2 then (if leap_year y then 29 else 28) else if m \<in> {4, 6, 9, 11} then 30 else 31)"

definition day_number :: "nat \<Rightarrow> nat \<Rightarrow> nat \<Rightarrow> nat" where
  "day_number y m d = (\<Sum>k\<leftarrow>[1970..<y]. year_days k) + (\<Sum>k\<leftarrow>[1..<m]. month_days y k) + (d - 1)"

definition valid_date :: "nat \<Rightarrow> nat \<Rightarrow> nat \<Rightarrow> bool" where
  "valid_date y m d \<longleftrightarrow> 1970 \<le> y \<and> y \<le> 9999 \<and> 1 \<le> m \<and> m \<le> 12 \<and> 1 \<le> d \<and> d \<le> month_days y m"

text \<open>The leap days the code counts up to the end of year \<open>y\<close>.\<close>

definition leaps :: "nat \<Rightarrow> int" where
  "leaps y = int (y div 4) - int (y div 100) + int (y div 400)"

lemma div_Suc_step: "int (Suc y div k) = int (y div k) + (if k dvd Suc y then 1 else 0)"
  by (simp add: div_Suc dvd_eq_mod_eq_0)

lemma leaps_Suc: "leaps (Suc y) = leaps y + (if leap_year (Suc y) then 1 else 0)"
proof -
  have "(100 :: nat) dvd 400" "(4 :: nat) dvd 100" by simp_all
  then have d: "400 dvd Suc y \<longrightarrow> 100 dvd Suc y" "100 dvd Suc y \<longrightarrow> 4 dvd Suc y"
    using dvd_trans by blast+
  define p q r where pqr: "p = (4 dvd Suc y)" "q = (100 dvd Suc y)" "r = (400 dvd Suc y)"
  have "(a + x) - (b + z) + (c + w) = (a - b + c) + (x - z + w)" for a b c x z w :: int by simp
  then have "leaps (Suc y) = leaps y +
      ((if p then 1 else 0) - (if q then 1 else 0) + (if r then 1 else 0))"
    unfolding leaps_def div_Suc_step pqr .
  moreover have "((if p then 1 else 0) - (if q then 1 else 0) + (if r then 1 else 0) :: int) =
      (if p \<and> (\<not> q \<or> r) then 1 else 0)"
    using d unfolding pqr [symmetric] by (cases p; cases q; cases r; simp)
  ultimately show ?thesis unfolding leap_year_def pqr [symmetric] by simp
qed

lemma days_before_year:
  "1970 \<le> y \<Longrightarrow> int (\<Sum>k\<leftarrow>[1970..<y]. year_days k) = 365 * (int y - 1970) + leaps (y - 1) - 477"
proof (induction y rule: dec_induct)
  case base
  then show ?case by (simp add: leaps_def)
next
  case (step y)
  then have "Suc (y - 1) = y" by simp
  then have "leaps y = leaps (y - 1) + (if leap_year y then 1 else 0)" using leaps_Suc [of "y - 1"] by simp
  with step show ?case by (simp add: year_days_def)
qed


lemma month_cases: "1 \<le> m \<Longrightarrow> m \<le> 12 \<Longrightarrow> m \<in> {1, 2, 3, 4, 5, 6, 7, 8, 9, 10, 11, 12 :: nat}"
  by auto presburger

text \<open>The code's day count, over the integers: months are counted from March.\<close>

definition code_days :: "nat \<Rightarrow> nat \<Rightarrow> nat \<Rightarrow> int" where
  "code_days y m d = (let (m', y') = (if m \<le> 2 then (m + 10, y - 1) else (m - 2, y))
     in leaps y' + int (367 * m' div 12) + int d + 365 * int y' - 719499)"

lemma code_days_day_number:
  assumes "valid_date y m d"
  shows "code_days y m d = int (day_number y m d)"
proof -
  have m: "m \<in> {1, 2, 3, 4, 5, 6, 7, 8, 9, 10, 11, 12}"
    using assms month_cases by (simp add: valid_date_def)
  have y: "1970 \<le> y" "1 \<le> d" using assms by (simp_all add: valid_date_def)
  have l: "leaps y = leaps (y - 1) + (if leap_year y then 1 else 0)"
    using leaps_Suc [of "y - 1"] y by simp
  have upt: "[Suc 0..<Suc 0] = []" "[Suc 0..<2] = [1]" "[Suc 0..<3] = [1, 2]" "[Suc 0..<4] = [1, 2, 3]"
    "[Suc 0..<5] = [1, 2, 3, 4]" "[Suc 0..<6] = [1, 2, 3, 4, 5]" "[Suc 0..<7] = [1, 2, 3, 4, 5, 6]"
    "[Suc 0..<8] = [1, 2, 3, 4, 5, 6, 7]" "[Suc 0..<9] = [1, 2, 3, 4, 5, 6, 7, 8]"
    "[Suc 0..<10] = [1, 2, 3, 4, 5, 6, 7, 8, 9]" "[Suc 0..<11] = [1, 2, 3, 4, 5, 6, 7, 8, 9, 10]"
    "[Suc 0..<12] = [1, 2, 3, 4, 5, 6, 7, 8, 9, 10, 11 :: nat]"
    by (simp_all add: upt_rec)
  have s: "int (day_number y m d) =
      365 * (int y - 1970) + leaps (y - 1) - 477 + int (\<Sum>k\<leftarrow>[1..<m]. month_days y k) + (int d - 1)"
    using days_before_year [OF y(1)] y(2) by (simp add: day_number_def of_nat_diff)
  have y': "int (y - Suc 0) = int y - 1" using y by simp
  show ?thesis
    using m unfolding s by (auto simp: code_days_def upt month_days_def l y')
qed


lemma word_of_nat_div:
  assumes "a < 4294967296" "k < 4294967296"
  shows "(word_of_nat (a div k) :: u32) = word_of_nat a div word_of_nat k"
proof -
  have "a div k < 4294967296" using assms(1) div_le_dividend le_less_trans by blast
  then show ?thesis using assms by (simp add: word_unat_eq_iff unat_div unat_of_nat_small)
qed

text \<open>The code's day count is the integer one, as a word.\<close>

lemma word_days:
  assumes "y < 10000" "m \<le> 12"
  shows "((word_of_nat y div 4) - (word_of_nat y div 100) + (word_of_nat y div 400) +
      ((367 * word_of_nat m) div 12) + word_of_nat d) + (word_of_nat y * 365) - 719499 =
    (word_of_int (leaps y + int (367 * m div 12) + int d + 365 * int y - 719499) :: u32)"
proof -
  have "word_of_nat (367 * m div 12) = ((367 * word_of_nat m) div 12 :: u32)"
    using word_of_nat_div [of "367 * m" 12] assms(2) by simp
  moreover have "word_of_nat (y div 4) = (word_of_nat y div 4 :: u32)"
    "word_of_nat (y div 100) = (word_of_nat y div 100 :: u32)"
    "word_of_nat (y div 400) = (word_of_nat y div 400 :: u32)"
    using word_of_nat_div [of y 4] word_of_nat_div [of y 100] word_of_nat_div [of y 400] assms(1) by simp_all
  ultimately show ?thesis by (simp add: leaps_def algebra_simps)
qed

lemma day_number_bound:
  assumes "valid_date y m d"
  shows "day_number y m d \<le> 2933033"
proof -
  define y' m' where ym: "y' = (if m \<le> 2 then y - 1 else y)" "m' = (if m \<le> 2 then m + 10 else m - 2)"
  have b: "y' \<le> 9999" "m' \<le> 12" "d \<le> 31"
    using assms by (auto simp: ym valid_date_def month_days_def split: if_splits)
  have "leaps y' \<le> int (y' div 4)" by (simp add: leaps_def div_le_mono2)
  also have "\<dots> \<le> 2499" using b(1) by simp
  finally have "leaps y' \<le> 2499" .
  moreover have "367 * m' div 12 \<le> 367" using b(2) by simp
  moreover have "code_days y m d = leaps y' + int (367 * m' div 12) + int d + 365 * int y' - 719499"
    by (simp add: code_days_def ym)
  ultimately have "code_days y m d \<le> 2933033" using b by linarith
  then show ?thesis using code_days_day_number [OF assms] by simp
qed

lemma ucast_of_nat32: "n < 4294967296 \<Longrightarrow> ucast (word_of_nat n :: u32) = (word_of_nat n :: u64)"
  by (simp add: word_unat_eq_iff unsigned_ucast_eq take_bit_nat_eq_self unat_of_nat_small)

text \<open>The word arithmetic of \<^verbatim>\<open>read_rtc\<close> loses nothing for any date from 1970 to the end of 9999.\<close>

lemma epoch_second_calendar:
  assumes "valid_date y m d" "h < 24" "mi < 60" "sec < 60"
  shows "unat (epoch_second (word_of_nat y) (word_of_nat m) (word_of_nat d) (word_of_nat h)
      (word_of_nat mi) (word_of_nat sec)) = 86400 * day_number y m d + 3600 * h + 60 * mi + sec"
proof -
  have m: "m \<in> {1, 2, 3, 4, 5, 6, 7, 8, 9, 10, 11, 12}" and y: "1970 \<le> y" "y \<le> 9999"
    using assms month_cases by (simp_all add: valid_date_def)
  define y' m' where ym: "y' = (if m \<le> 2 then y - 1 else y)" "m' = (if m \<le> 2 then m + 10 else m - 2)"
  have b: "y' < 10000" "m' \<le> 12" using m y by (auto simp: ym)
  have sel: "(if sint (word_of_nat m - 2 :: u32) \<le> 0 then (word_of_nat m - 2 + 12, word_of_nat y - 1)
      else (word_of_nat m - 2, word_of_nat y)) = (word_of_nat m' :: u32, word_of_nat y' :: u32)"
    using m y by (auto simp: ym of_nat_diff)
  let ?N = "(day_number y m d * 24 + h) * 60 + mi"
  have "code_days y m d = leaps y' + int (367 * m' div 12) + int d + 365 * int y' - 719499"
    by (simp add: code_days_def ym)
  then have cd: "leaps y' + int (367 * m' div 12) + int d + 365 * int y' - 719499 = int (day_number y m d)"
    using code_days_day_number [OF assms(1)] by simp
  have days: "((word_of_nat y' div 4) - (word_of_nat y' div 100) + (word_of_nat y' div 400) +
      ((367 * word_of_nat m') div 12) + word_of_nat d) + (word_of_nat y' * 365) - 719499 =
    (word_of_nat (day_number y m d) :: u32)"
    unfolding word_days [OF b] cd by simp
  have "?N < 4294967296" using day_number_bound [OF assms(1)] assms(2,3) by simp
  then have minutes: "unat (word_of_nat ?N :: u32) = ?N" by (intro unat_of_nat_small) simp
  have "epoch_second (word_of_nat y) (word_of_nat m) (word_of_nat d) (word_of_nat h)
      (word_of_nat mi) (word_of_nat sec) = ucast (word_of_nat ?N :: u32) * 60 + ucast (word_of_nat sec :: u32)"
    unfolding epoch_second_def sel prod.case Let_def days by (simp add: algebra_simps)
  also have "\<dots> = (word_of_nat (?N * 60 + sec) :: u64)"
  proof -
    have "ucast (word_of_nat ?N :: u32) = (word_of_nat ?N :: u64)"
      "ucast (word_of_nat sec :: u32) = (word_of_nat sec :: u64)"
      by (rule ucast_of_nat32, fact, rule ucast_of_nat32, use assms(4) in simp)
    then show ?thesis by (simp only: of_nat_add of_nat_mult of_nat_numeral)
  qed
  also have "unat \<dots> = ?N * 60 + sec"
    using day_number_bound [OF assms(1)] assms(2-4) by (intro unat_of_nat_small) simp
  finally show ?thesis by simp
qed


text \<open>The documented behaviour of the CMOS clock: register \<open>r\<close> of its state is read through the index port.\<close>

definition cmos_clock :: "'d bus \<Rightarrow> ('d \<Rightarrow> u8 \<Rightarrow> u8) \<Rightarrow> bool" where
  "cmos_clock bus regs \<longleftrightarrow> (\<forall>r d. fst (in8 bus 0x71 (out8 bus 0x70 r d)) = regs d r \<and>
     regs (snd (in8 bus 0x71 (out8 bus 0x70 r d))) = regs d)"

definition to_bcd :: "nat \<Rightarrow> u8" where
  "to_bcd n = word_of_nat (16 * (n div 10) + n mod 10)"

lemma bcd_to_binary_to_bcd: "n < 100 \<Longrightarrow> bcd_to_binary (to_bcd n) = word_of_nat n"
proof -
  assume n: "n < 100"
  then have q: "n div 10 < 10" by simp
  have u: "unat (to_bcd n) = 16 * (n div 10) + n mod 10"
    unfolding to_bcd_def using q by (intro unat_of_nat_small) (simp add: less_mult_imp_div_less)
  have lo: "unat (to_bcd n AND 0xF) = n mod 10"
    unfolding and_low_mask unat_take_bit_mod u by simp
  have hi: "unat (drop_bit 4 (to_bcd n)) = n div 10"
    by (subst unat_drop_bit_eq) (simp add: drop_bit_eq_div u)
  have "unat (bcd_to_binary (to_bcd n)) = n mod 10 + n div 10 * 10"
    using q by (simp add: bcd_to_binary_def unat_word_ariths unsigned_ucast_eq lo hi take_bit_nat_eq_self)
  also have "\<dots> = n" by simp
  finally show ?thesis using n by (simp add: word_unat_eq_iff unat_of_nat_small)
qed

text \<open>The clock shows a date and a time, in BCD and 24 hour mode, and is not being updated.\<close>

definition clock_shows :: "(u8 \<Rightarrow> u8) \<Rightarrow> nat \<Rightarrow> nat \<Rightarrow> nat \<Rightarrow> nat \<Rightarrow> nat \<Rightarrow> nat \<Rightarrow> bool" where
  "clock_shows r y m d h mi sec \<longleftrightarrow> r 0x0A AND 0x80 = 0 \<and>
     r 0x32 = to_bcd (y div 100) \<and> r 0x09 = to_bcd (y mod 100) \<and> r 0x08 = to_bcd m \<and>
     r 0x07 = to_bcd d \<and> r 0x04 = to_bcd h \<and> r 0x02 = to_bcd mi \<and> r 0x00 = to_bcd sec"

lemma cmos_read_clock:
  assumes "cmos_clock bus regs"
  obtains d' where "cmos_read bus r d = (regs d r, d')" "regs d' = regs d"
  using assms [unfolded cmos_clock_def, rule_format, where r = r and d = d]
  by (cases "in8 bus 0x71 (out8 bus 0x70 r d)")
    (auto simp: cmos_read_def kioport_in_kuint8_def kioport_out_kuint8_def)

text \<open>
  C23: when the real time clock shows a date from 1970 to 9999 and a time of day, \<^verbatim>\<open>read_rtc\<close> returns,
  with the seconds since 1970 of that moment and no nanoseconds.
\<close>

theorem read_rtc_reads_calendar:
  assumes "cmos_clock bus regs" "clock_shows (regs dev) y m d h mi sec"
    and "valid_date y m d" "h < 24" "mi < 60" "sec < 60"
  shows "\<exists>t dev'. read_rtc bus dev = Inr ((t, 0), dev') \<and>
    unat t = 86400 * day_number y m d + 3600 * h + 60 * mi + sec \<and> regs dev' = regs dev"
proof -
  let ?r = "regs dev"
  obtain d0 where 0: "cmos_read bus 0x0A dev = (?r 0x0A, d0)" "regs d0 = ?r"
    using cmos_read_clock [OF assms(1)] by metis
  obtain d1 where 1: "cmos_read bus 0x32 d0 = (?r 0x32, d1)" "regs d1 = ?r"
    using cmos_read_clock [OF assms(1), of "0x32" d0] 0 by metis
  obtain d2 where 2: "cmos_read bus 0x09 d1 = (?r 0x09, d2)" "regs d2 = ?r"
    using cmos_read_clock [OF assms(1), of "0x09" d1] 1 by metis
  obtain d3 where 3: "cmos_read bus 0x08 d2 = (?r 0x08, d3)" "regs d3 = ?r"
    using cmos_read_clock [OF assms(1), of "0x08" d2] 2 by metis
  obtain d4 where 4: "cmos_read bus 0x07 d3 = (?r 0x07, d4)" "regs d4 = ?r"
    using cmos_read_clock [OF assms(1), of "0x07" d3] 3 by metis
  obtain d5 where 5: "cmos_read bus 0x04 d4 = (?r 0x04, d5)" "regs d5 = ?r"
    using cmos_read_clock [OF assms(1), of "0x04" d4] 4 by metis
  obtain d6 where 6: "cmos_read bus 0x02 d5 = (?r 0x02, d6)" "regs d6 = ?r"
    using cmos_read_clock [OF assms(1), of "0x02" d5] 5 by metis
  obtain d7 where 7: "cmos_read bus 0x00 d6 = (?r 0x00, d7)" "regs d7 = ?r"
    using cmos_read_clock [OF assms(1), of "0x00" d6] 6 by metis
  have "cmos_wait bus dev = Inr d0"
    unfolding cmos_wait_def using assms(2) by (subst iterate_unfold) (simp add: 0 clock_shows_def)
  moreover have y: "y div 100 < 100" "y mod 100 < 100" "m < 100" "d < 100" "h < 100" "mi < 100" "sec < 100"
    using assms(3-6) by (auto simp: valid_date_def month_days_def split: if_splits)
  moreover have "100 * word_of_nat (y div 100) + word_of_nat (y mod 100) = (word_of_nat y :: u32)"
  proof -
    have "100 * (y div 100) + y mod 100 = y" by simp
    then show ?thesis by (metis of_nat_add of_nat_mult of_nat_numeral)
  qed
  ultimately have "read_rtc bus dev = Inr ((epoch_second (word_of_nat y) (word_of_nat m) (word_of_nat d)
      (word_of_nat h) (word_of_nat mi) (word_of_nat sec), 0), d7)"
    using assms(2) by (simp add: read_rtc_def 1 2 3 4 5 6 7 clock_shows_def bcd_to_binary_to_bcd)
  moreover have "unat (epoch_second (word_of_nat y) (word_of_nat m) (word_of_nat d)
      (word_of_nat h) (word_of_nat mi) (word_of_nat sec)) = 86400 * day_number y m d + 3600 * h + 60 * mi + sec"
    by (rule epoch_second_calendar [OF assms(3-6)])
  ultimately show ?thesis using 7(2) by blast
qed


text \<open>A clock chip that holds its registers: the device state is the index and the registers.\<close>

definition rtc_chip :: "(u8 \<times> (u8 \<Rightarrow> u8)) bus" where
  "rtc_chip = \<lparr>in8 = \<lambda>p d. (snd d (fst d), d), in16 = \<lambda>p d. (0, d), in32 = \<lambda>p d. (0, d),
     out8 = \<lambda>p v d. if p = 0x70 then (v, snd d) else d, out16 = \<lambda>p v d. d, out32 = \<lambda>p v d. d\<rparr>"

definition rtc_2001 :: "u8 \<Rightarrow> u8" where
  "rtc_2001 = (\<lambda>_. 0)(0x0A := 0x26, 0x32 := 0x20, 0x09 := 0x01, 0x08 := 0x03, 0x07 := 0x23,
     0x04 := 0x12, 0x02 := 0x34, 0x00 := 0x56)"

theorem read_rtc_reads_calendar_witness:
  "\<exists>t dev'. read_rtc rtc_chip (0, rtc_2001) = Inr ((t, 0), dev') \<and> unat t = 985350896"
proof -
  have c: "cmos_clock rtc_chip snd" by (simp add: cmos_clock_def rtc_chip_def)
  have disp: "clock_shows (snd (0 :: u8, rtc_2001)) 2001 3 23 12 34 56"
    by (simp add: clock_shows_def rtc_2001_def to_bcd_def)
  have v: "valid_date 2001 3 23" by (simp add: valid_date_def month_days_def)
  have "int (day_number 2001 3 23) = 11404"
    unfolding code_days_day_number [OF v, symmetric] by (simp add: code_days_def leaps_def)
  then have "day_number 2001 3 23 = 11404" by simp
  then show ?thesis using read_rtc_reads_calendar [OF c disp v] by auto
qed

section \<open>Ticks\<close>

text \<open>\<open>n\<close> interrupts of the clock, and what the handler returned for each.\<close>

primrec rtc_run :: "nat \<Rightarrow> 'd bus \<Rightarrow> clock \<times> 'd \<Rightarrow> stop + (u32 list \<times> clock \<times> 'd)" where
  "rtc_run 0 bus s = Inr ([], s)"
| "rtc_run (Suc n) bus s =
     andthen (rtc_irq_handler bus s) (\<lambda>(rc, s1).
     andthen (rtc_run n bus s1) (\<lambda>(rcs, s2). Inr (rc # rcs, s2)))"

lemma handler_ticks:
  assumes "rtc_irq_handler bus (c, d) = Inr (rc, c', d')"
  shows "rc = (if thread_ticks c = 0 then 1 else 0) \<and>
    thread_ticks c' = (if thread_ticks c = 0 then 11 else thread_ticks c - 1)"
proof -
  obtain val d1 where v: "cmos_read bus 0x0C d = (val, d1)" by fastforce
  show ?thesis
    using assms unfolding rtc_irq_handler_def prod.case v Let_def
    by (auto simp: andthen_Inr_iff split: if_splits prod.splits)
qed

lemma rtc_run_ticks:
  assumes "rtc_run n bus (c, d) = Inr (rcs, s')" "unat (thread_ticks c) < 12"
  shows "length rcs = n \<and> (\<forall>k<n. rcs ! k = (if k mod 12 = unat (thread_ticks c) then 1 else 0))"
  using assms
proof (induction n arbitrary: c d rcs)
  case (Suc n)
  obtain rc c1 d1 rest where h: "rtc_irq_handler bus (c, d) = Inr (rc, c1, d1)"
    and r: "rtc_run n bus (c1, d1) = Inr (rest, s')" "rcs = rc # rest"
    using Suc.prems(1) by (auto simp: andthen_Inr_iff)
  note t = handler_ticks [OF h]
  let ?t = "unat (thread_ticks c)"
  have t1: "unat (thread_ticks c1) = (if ?t = 0 then 11 else ?t - 1)"
    using t by (auto simp: unat_minus_one unat_eq_zero)
  then have IH: "length rest = n \<and> (\<forall>k<n. rest ! k = (if k mod 12 = unat (thread_ticks c1) then 1 else 0))"
    using Suc.IH [OF r(1)] Suc.prems(2) by simp
  have "(rc # rest) ! k = (if k mod 12 = ?t then 1 else 0)" if k: "k < Suc n" for k
  proof (cases k)
    case 0
    then show ?thesis using t by (simp add: unat_eq_zero eq_commute [of 0])
  next
    case (Suc j)
    have "j mod 12 = unat (thread_ticks c1) \<longleftrightarrow> Suc j mod 12 = ?t"
      using t1 Suc.prems(2) by (auto simp: mod_Suc)
    then show ?thesis using IH k Suc by simp
  qed
  with r(2) IH show ?case by simp
qed simp

text \<open>
  Time slices. Whatever the interrupts report, of the calls of \<^verbatim>\<open>rtc_irq_handler\<close> exactly every
  twelfth asks for a thread switch, the first one after as many calls as \<^verbatim>\<open>thread_ticks\<close> says.
\<close>

theorem every_twelfth_tick_yields:
  assumes "rtc_run n bus (c, d) = Inr (rcs, s')" "thread_ticks c < 12"
  shows "length rcs = n \<and> (\<forall>k<n. rcs ! k = (if k mod 12 = unat (thread_ticks c) then 1 else 0))"
  by (rule rtc_run_ticks [OF assms(1)]) (use assms(2) in \<open>simp add: word_less_nat_alt\<close>)

lemma ktime_get_free:
  assumes "\<not> bit (ktime_spinlock c) 31"
  shows "ktime_get c = Inr ((current_second c, current_nanosecond c), c)"
  using assms unset_set_31 [OF assms]
  by (simp add: ktime_get_def clock_lock_def clock_unlock_def kspinlock_lock_irqsave_def spin_loop_eq
    kspinlock_unlock_irqrestore_def)

text \<open>
  With the lock free \<^verbatim>\<open>ktime_set\<close> and \<^verbatim>\<open>ktime_get\<close> return, a reading after a setting gives what was
  set, a reading changes nothing, and with the lock held neither returns.
\<close>

theorem ktime_get_after_set:
  "ktime_set second nanosecond c =
     (if bit (ktime_spinlock c) 31 then Inl Spins
      else Inr (c\<lparr>current_second := second, current_nanosecond := nanosecond\<rparr>)) \<and>
   andthen (ktime_set second nanosecond c) ktime_get =
     (if bit (ktime_spinlock c) 31 then Inl Spins
      else Inr ((second, nanosecond), c\<lparr>current_second := second, current_nanosecond := nanosecond\<rparr>))"
proof -
  have "ktime_set second nanosecond c = (if bit (ktime_spinlock c) 31 then Inl Spins
      else Inr (c\<lparr>current_second := second, current_nanosecond := nanosecond\<rparr>))"
    using unset_set_31 [of "ktime_spinlock c"]
    by (simp add: ktime_set_def clock_lock_def clock_unlock_def kspinlock_lock_irqsave_def spin_loop_eq
      kspinlock_unlock_irqrestore_def)
  then show ?thesis by (simp add: ktime_get_free)
qed

text \<open>Fourteen periodic interrupts from a chip whose register C reports them.\<close>

definition ticking :: "u8 \<Rightarrow> u8" where
  "ticking = (\<lambda>_. 0)(0x0C := 0x40)"

theorem every_twelfth_tick_yields_witness:
  "\<exists>rcs s'. rtc_run 14 rtc_chip (\<lparr>current_second = 0, current_nanosecond = 0, thread_ticks = 1,
     time_ticks = 0, ktime_spinlock = 0, clock_eflags = 0\<rparr>, (0, ticking)) = Inr (rcs, s') \<and>
   rcs ! 1 = 1 \<and> rcs ! 12 = 0 \<and> rcs ! 13 = 1"
proof -
  have turn: "\<exists>rc c'. rtc_irq_handler rtc_chip (c, i, ticking) = Inr (rc, c', 0x0C, ticking) \<and> ktime_spinlock c' = 0"
    if "ktime_spinlock c = 0" for c i
    using that by (simp add: rtc_irq_handler_def cmos_read_def kioport_in_kuint8_def
      kioport_out_kuint8_def rtc_chip_def kspinlock_lock_eq kspinlock_unlock_def Let_def ticking_def)
  have run: "\<exists>rcs s'. rtc_run n rtc_chip (c, i, ticking) = Inr (rcs, s')" if "ktime_spinlock c = 0" for n c i
    using that
  proof (induction n arbitrary: c i)
    case (Suc n)
    obtain rc c' where "rtc_irq_handler rtc_chip (c, i, ticking) = Inr (rc, c', 0x0C, ticking)"
      "ktime_spinlock c' = 0" using turn [OF Suc.prems] by blast
    with Suc.IH [of c' "0x0C"] show ?case by auto
  qed simp
  let ?c = "\<lparr>current_second = 0, current_nanosecond = 0, thread_ticks = 1, time_ticks = 0,
    ktime_spinlock = 0, clock_eflags = 0\<rparr> :: clock"
  obtain rcs s' where r: "rtc_run 14 rtc_chip (?c, 0, ticking) = Inr (rcs, s')" using run [of ?c 14 0] by auto
  have t: "thread_ticks ?c < 12" by simp
  show ?thesis using every_twelfth_tick_yields [OF r t] r by (intro exI [of _ rcs] exI [of _ s']) simp
qed

end
