(* ===== verification/Thread.thy ===== *)
theory Thread
  imports Vmalloc Time
begin

unbundle bit_operations_syntax

text \<open>
  \<^verbatim>\<open>arch/ia32/thread.c\<close>: the ring of threads, the scheduler and the operations on threads. A
  \<^verbatim>\<open>struct thread\<close> is a record stored under its address; following a pointer that names none is a
  page fault, reported with the pointer as its address.
\<close>

section \<open>State\<close>

record thread =
  t_next :: u32
  t_tid :: u32
  t_status :: u32
  t_priority :: u32
  t_data :: u32
  t_key :: u32
  t_stack :: u32
  t_stack_size :: u32
  t_esp :: u32
  t_second :: u64
  t_nanosecond :: u32
  t_fpu :: "u8 list"

abbreviation (input) STATUS_ALIVE :: u32 where "STATUS_ALIVE \<equiv> 0x00000001"
abbreviation (input) STATUS_SLEEP :: u32 where "STATUS_SLEEP \<equiv> 0x00000002"
abbreviation (input) STATUS_SUSPEND :: u32 where "STATUS_SUSPEND \<equiv> 0x00000004"

text \<open>
  The file's variables, with the clock, the memory manager, and the part of the processor a switch
  touches: \<open>regs_esp\<close> is the stack pointer saved by the interrupt (\<^verbatim>\<open>regs->esp\<close>), \<open>fpu_regs\<close> the state of
  the floating point unit, \<open>fpu_reset\<close> its state after \<^verbatim>\<open>fnsave\<close>.
\<close>

record sched =
  threads :: "u32 \<Rightarrow> thread option"
  current_thread :: u32
  thread_list :: u32
  kthread_spinlock :: u32
  tid_counter :: u32
  sclock :: clock
  regs_esp :: u32
  fpu_regs :: "u8 list"
  fpu_reset :: "u8 list"
  memory :: kmem

definition thread_at :: "u32 \<Rightarrow> sched \<Rightarrow> stop + thread" where
  "thread_at p s = (case threads s p of None \<Rightarrow> Inl (Page_Fault p) | Some t \<Rightarrow> Inr t)"

definition put_thread :: "u32 \<Rightarrow> thread \<Rightarrow> sched \<Rightarrow> sched" where
  "put_thread p t s = s\<lparr>threads := (threads s)(p \<mapsto> t)\<rparr>"

definition thread_lock :: "sched \<Rightarrow> stop + sched" where
  "thread_lock s = andthen (kspinlock_lock (kthread_spinlock s)) (\<lambda>l. Inr (s\<lparr>kthread_spinlock := l\<rparr>))"

definition thread_unlock :: "sched \<Rightarrow> sched" where
  "thread_unlock s = s\<lparr>kthread_spinlock := kspinlock_unlock (kthread_spinlock s)\<rparr>"

section \<open>The scheduler\<close>

text \<open>The wake-up time of a sleeping thread has come: the signed comparisons of \<^verbatim>\<open>schedule_thread\<close>.\<close>

definition due :: "u64 \<times> u32 \<Rightarrow> thread \<Rightarrow> bool" where
  "due now t \<longleftrightarrow> sint (t_second t) < sint (fst now) \<or>
     t_second t = fst now \<and> sint (t_nanosecond t) \<le> sint (snd now)"

text \<open>
  The \<^verbatim>\<open>for\<close> loop, from the thread \<open>ntp\<close> on: the thread it stops at and the threads then. \<open>None\<close> is a
  loop without end.
\<close>

partial_function (option) schedule_from ::
    "u64 \<times> u32 \<Rightarrow> (u32 \<Rightarrow> thread option) \<Rightarrow> u32 \<Rightarrow> (stop + (u32 \<times> (u32 \<Rightarrow> thread option))) option" where
  "schedule_from now ts ntp =
     (if ntp = 0 then Some (Inr (0, ts))
      else case ts ntp of
        None \<Rightarrow> Some (Inl (Page_Fault ntp))
      | Some t \<Rightarrow>
          if t_status t AND STATUS_SLEEP \<noteq> 0 then
            if due now t then Some (Inr (ntp, ts(ntp \<mapsto> t\<lparr>t_second := 0, t_nanosecond := 0,
              t_status := t_status t AND NOT STATUS_SLEEP\<rparr>)))
            else schedule_from now ts (t_next t)
          else if t_status t AND STATUS_SUSPEND \<noteq> 0 then schedule_from now ts (t_next t)
          else if t_status t AND STATUS_ALIVE \<noteq> 0 then Some (Inr (ntp, ts))
          else schedule_from now ts (t_next t))"

declare schedule_from.simps [code]

definition schedule_thread :: "sched \<Rightarrow> stop + (u32 \<times> sched)" where
  "schedule_thread s =
     andthen (ktime_get (sclock s)) (\<lambda>(now, c).
     andthen (thread_at (current_thread s) s) (\<lambda>t.
     case schedule_from now (threads s) (t_next t) of
       None \<Rightarrow> Inl Spins
     | Some r \<Rightarrow> andthen r (\<lambda>(ntp, ts). Inr (ntp, s\<lparr>threads := ts, sclock := c\<rparr>))))"

text \<open>\<^verbatim>\<open>thread_switch\<close>, the handler of \<^verbatim>\<open>int $0x30\<close>.\<close>

definition thread_switch :: "sched \<Rightarrow> stop + sched" where
  "thread_switch s =
     andthen (thread_lock s) (\<lambda>s1.
     andthen (thread_at (current_thread s1) s1) (\<lambda>t.
     let s2 = put_thread (current_thread s1) (t\<lparr>t_fpu := fpu_regs s1, t_esp := regs_esp s1\<rparr>)
          (s1\<lparr>fpu_regs := fpu_reset s1\<rparr>)
     in andthen (schedule_thread s2) (\<lambda>(ntp, s3).
        let s4 = s3\<lparr>current_thread := ntp\<rparr>
        in andthen (thread_at (current_thread s4) s4) (\<lambda>n.
           Inr (thread_unlock (s4\<lparr>regs_esp := t_esp n, fpu_regs := t_fpu n\<rparr>))))))"

section \<open>Operations on a thread\<close>

text \<open>\<^verbatim>\<open>find_thread\<close>; no statement of the program ever assigns \<^verbatim>\<open>thread_list\<close>.\<close>

definition find_thread :: "u32 \<Rightarrow> sched \<Rightarrow> stop + u32" where
  "find_thread tid s =
     andthen (thread_at (current_thread s) s) (\<lambda>c.
       if t_tid c = tid then Inr (current_thread s)
       else iterate (\<lambda>ntp. if ntp = 0 then Inr (Inr 0)
              else andthen (thread_at ntp s) (\<lambda>t.
                if t_tid t = tid then Inr (Inr ntp) else Inr (Inl (t_next t)))) (thread_list s))"

text \<open>
  What the operations share: under the lock, the thread is found, the code's assignments \<open>f\<close> are made
  through the pointer, and the lock is given back. The result is the pointer, the thread before, and
  the state.
\<close>

definition on_thread :: "u32 \<Rightarrow> (thread \<Rightarrow> thread) \<Rightarrow> sched \<Rightarrow> stop + (u32 \<times> thread \<times> sched)" where
  "on_thread tid f s =
     andthen (thread_lock s) (\<lambda>s1.
     andthen (find_thread tid s1) (\<lambda>p.
     andthen (thread_at p s1) (\<lambda>t. Inr (p, t, thread_unlock (put_thread p (f t) s1)))))"

text \<open>\<^verbatim>\<open>if(local_thread == current_thread) int $0x30\<close>.\<close>

definition switch_if_current :: "u32 \<Rightarrow> sched \<Rightarrow> stop + sched" where
  "switch_if_current p s = (if p = current_thread s then thread_switch s else Inr s)"

definition kthread_current :: "sched \<Rightarrow> stop + u32" where
  "kthread_current s = andthen (thread_at (current_thread s) s) (\<lambda>t. Inr (t_tid t))"

definition kthread_yield :: "sched \<Rightarrow> stop + sched" where
  "kthread_yield s = thread_switch s"

definition kthread_kill :: "u32 \<Rightarrow> sched \<Rightarrow> stop + sched" where
  "kthread_kill tid s =
     andthen (on_thread tid (\<lambda>t. t\<lparr>t_status := t_status t AND NOT STATUS_ALIVE\<rparr>) s)
       (\<lambda>(p, t, s1). switch_if_current p s1)"

definition kthread_kill_current :: "sched \<Rightarrow> stop + sched" where
  "kthread_kill_current s =
     andthen (thread_at (current_thread s) s) (\<lambda>t. kthread_kill (t_tid t) s)"

definition kthread_suspend :: "u32 \<Rightarrow> sched \<Rightarrow> stop + sched" where
  "kthread_suspend tid s =
     andthen (on_thread tid (\<lambda>t. t\<lparr>t_status := t_status t OR STATUS_SUSPEND\<rparr>) s)
       (\<lambda>(p, t, s1). switch_if_current p s1)"

definition kthread_resume :: "u32 \<Rightarrow> sched \<Rightarrow> stop + sched" where
  "kthread_resume tid s =
     andthen (on_thread tid (\<lambda>t. t\<lparr>t_status := t_status t AND NOT STATUS_SUSPEND\<rparr>) s)
       (\<lambda>(p, t, s1). switch_if_current p s1)"

definition kthread_priority_set :: "u32 \<Rightarrow> u32 \<Rightarrow> sched \<Rightarrow> stop + sched" where
  "kthread_priority_set tid priority s =
     andthen (on_thread tid (\<lambda>t. t\<lparr>t_priority := priority\<rparr>) s) (\<lambda>(p, t, s1). Inr s1)"

definition kthread_priority_get :: "u32 \<Rightarrow> sched \<Rightarrow> stop + (u32 \<times> sched)" where
  "kthread_priority_get tid s =
     andthen (on_thread tid (\<lambda>t. t) s) (\<lambda>(p, t, s1). Inr (t_priority t, s1))"

definition kthread_key_set :: "u32 \<Rightarrow> u32 \<Rightarrow> sched \<Rightarrow> stop + (u32 \<times> sched)" where
  "kthread_key_set tid k s =
     andthen (on_thread tid (\<lambda>t. t\<lparr>t_key := k\<rparr>) s) (\<lambda>(p, t, s1). Inr (t_key t, s1))"

definition kthread_key_get :: "u32 \<Rightarrow> sched \<Rightarrow> stop + (u32 \<times> sched)" where
  "kthread_key_get tid s =
     andthen (on_thread tid (\<lambda>t. t) s) (\<lambda>(p, t, s1). Inr (t_key t, s1))"

text \<open>The clock is read through the pointer's fields while the lock is held.\<close>

definition kthread_sleep :: "u32 \<Rightarrow> u64 \<Rightarrow> u32 \<Rightarrow> sched \<Rightarrow> stop + sched" where
  "kthread_sleep tid second nanosecond s =
     andthen (thread_lock s) (\<lambda>s1.
     andthen (find_thread tid s1) (\<lambda>p.
     andthen (ktime_get (sclock s1)) (\<lambda>((now_second, now_nanosecond), c).
     andthen (thread_at p s1) (\<lambda>t.
       switch_if_current p (thread_unlock (put_thread p
         (t\<lparr>t_second := now_second + second, t_nanosecond := now_nanosecond + nanosecond,
            t_status := t_status t OR STATUS_SLEEP\<rparr>) (s1\<lparr>sclock := c\<rparr>)))))))"

section \<open>Creation\<close>

text \<open>
  A store to memory that may not be mapped yet: the page fault handler is run and the instruction
  repeated. A fault that is not resolved ends in \<^verbatim>\<open>kthread_kill_current\<close>.
\<close>

definition store_retry :: "u32 \<Rightarrow> u32 \<Rightarrow> kmem \<Rightarrow> stop + kmem" where
  "store_retry a v m =
     (case wr32 a v m of
        Inl (Page_Fault va) \<Rightarrow> andthen (handle_page_fault va m) (\<lambda>r. case r of
            Resumed m1 \<Rightarrow> wr32 a v m1
          | Kill_Current m1 \<Rightarrow> Inl (Page_Fault va))
      | r \<Rightarrow> r)"

text \<open>The words stored below the top of the new stack, and the stores themselves.\<close>

definition initial_stack :: "u32 \<Rightarrow> u32 \<Rightarrow> u32 \<Rightarrow> u32 list" where
  "initial_stack function data kill_current =
     [data, kill_current, 0x200, 0x10, function, 0, 0, 0, 0, 0, 0, 0, 0, 0]"

primrec store_stack :: "u32 \<Rightarrow> u32 list \<Rightarrow> kmem \<Rightarrow> stop + kmem" where
  "store_stack tos [] m = Inr m"
| "store_stack tos (w # ws) m = andthen (store_retry (tos - 4) w m) (\<lambda>m1. store_stack (tos - 4) ws m1)"

definition blank_thread :: thread where
  "blank_thread = \<lparr>t_next = 0, t_tid = 0, t_status = 0, t_priority = 0, t_data = 0, t_key = 0, t_stack = 0,
     t_stack_size = 0, t_esp = 0, t_second = 0, t_nanosecond = 0, t_fpu = []\<rparr>"

text \<open>
  The part of \<^verbatim>\<open>kthread_create\<close> under the lock: the floating point state is saved for both threads, the
  new thread goes into the ring behind the current one.
\<close>

definition link_thread :: "u32 \<Rightarrow> sched \<Rightarrow> stop + (u32 \<times> sched)" where
  "link_thread ntp s =
     andthen (kspinlock_lock_irqsave
       \<lparr>lock_word = kthread_spinlock s, irqsave = 0, eflags = eflags_reg (memory s)\<rparr>) (\<lambda>l.
     andthen (thread_at (current_thread s) s) (\<lambda>c.
     andthen (thread_at ntp s) (\<lambda>n.
       let tid = tid_counter s + 1;
           s1 = put_thread (current_thread s) (c\<lparr>t_fpu := fpu_regs s, t_next := ntp\<rparr>)
             (put_thread ntp (n\<lparr>t_fpu := fpu_reset s, t_next := t_next c, t_tid := tid\<rparr>) s);
           u = kspinlock_unlock_irqrestore l
       in Inr (tid, s1\<lparr>tid_counter := tid, kthread_spinlock := lock_word u,
            memory := (memory s1)\<lparr>eflags_reg := eflags u\<rparr>\<rparr>))))"

text \<open>The end of \<^verbatim>\<open>kthread_create\<close>: the thread is linked and \<^verbatim>\<open>int $0x30\<close> gives up the processor.\<close>

definition start_thread :: "u32 \<Rightarrow> sched \<Rightarrow> stop + (u32 \<times> sched)" where
  "start_thread ntp s =
     andthen (link_thread ntp s) (\<lambda>(tid, s1). andthen (thread_switch s1) (\<lambda>s2. Inr (tid, s2)))"

text \<open>
  \<open>kill_current\<close> is the address of \<^verbatim>\<open>kthread_kill_current\<close>. A failed allocation gives back what there
  is and returns 0; \<^verbatim>\<open>flags\<close> is not used.
\<close>

definition kthread_create :: "u32 \<Rightarrow> u32 \<Rightarrow> u32 \<Rightarrow> u32 \<Rightarrow> sched \<Rightarrow> stop + (u32 \<times> sched)" where
  "kthread_create kill_current function data stack_size s =
     andthen (kmemory_virtual_page_allocate 1 1 (memory s)) (\<lambda>(ntp, m1).
     if ntp = 0 then Inr (0, s\<lparr>memory := m1\<rparr>)
     else andthen (if stack_size \<noteq> 0 then kmemory_virtual_page_allocate stack_size 0 m1 else Inr (0, m1))
       (\<lambda>(stk, m2).
       if stack_size \<noteq> 0 \<and> stk = 0 then
         andthen (kmemory_virtual_page_unallocate ntp m2) (\<lambda>m3. Inr (0, s\<lparr>memory := m3\<rparr>))
       else
         (let tos = (if stack_size \<noteq> 0 then stk + stack_size * KPAGESIZE else ntp + KPAGESIZE);
              t = blank_thread\<lparr>t_stack := stk, t_status := STATUS_ALIVE, t_data := data, t_key := 0,
                t_stack_size := stack_size, t_esp := tos - (1 + 1 + 3 + 1 + 7) * 4\<rparr>
          in andthen (store_stack tos (initial_stack function data kill_current) m2) (\<lambda>m3.
             start_thread ntp (put_thread ntp t (s\<lparr>memory := m3\<rparr>))))))"

text \<open>
  \<^verbatim>\<open>kthread_setup\<close>: the boot thread, in a page that is not cleared; \<open>junk\<close> is what the page holds.
\<close>

definition kthread_setup :: "thread \<Rightarrow> sched \<Rightarrow> stop + (u32 \<times> sched)" where
  "kthread_setup junk s =
     andthen (kmemory_linear_page_allocate 1 1 (memory s)) (\<lambda>(p, m).
       let tid = tid_counter s + 1;
           t = junk\<lparr>t_tid := tid, t_status := STATUS_ALIVE, t_priority := - 1, t_key := 0, t_stack := 0,
             t_stack_size := 0, t_next := p, t_esp := p + KPAGESIZE\<rparr>
       in Inr (t_esp t, put_thread p t (s\<lparr>memory := m, current_thread := p, tid_counter := tid\<rparr>)))"


section \<open>The ring\<close>

text \<open>Following \<^verbatim>\<open>next\<close> from \<open>x\<close> visits \<open>as\<close> and arrives at \<open>y\<close>.\<close>

primrec path :: "(u32 \<Rightarrow> thread option) \<Rightarrow> u32 \<Rightarrow> u32 list \<Rightarrow> u32 \<Rightarrow> bool" where
  "path ts x [] y \<longleftrightarrow> x = y"
| "path ts x (a # as) y \<longleftrightarrow> x = a \<and> a \<noteq> 0 \<and> (\<exists>t. ts a = Some t \<and> path ts (t_next t) as y)"

text \<open>The threads in the order of the ring, the current one first.\<close>

definition ring :: "(u32 \<Rightarrow> thread option) \<Rightarrow> u32 list \<Rightarrow> bool" where
  "ring ts as \<longleftrightarrow> as \<noteq> [] \<and> distinct as \<and> path ts (hd as) as (hd as)"

lemma path_append: "path ts x (as @ bs) y \<longleftrightarrow> (\<exists>z. path ts x as z \<and> path ts z bs y)"
  by (induction as arbitrary: x) auto

text \<open>A change of threads that keeps every \<^verbatim>\<open>next\<close> keeps the paths.\<close>

definition same_next :: "(u32 \<Rightarrow> thread option) \<Rightarrow> (u32 \<Rightarrow> thread option) \<Rightarrow> bool" where
  "same_next ts ts' \<longleftrightarrow> (\<forall>a. map_option t_next (ts' a) = map_option t_next (ts a))"

lemma same_next_refl [simp]: "same_next ts ts"
  by (simp add: same_next_def)

lemma same_next_trans: "same_next ts ts' \<Longrightarrow> same_next ts' ts'' \<Longrightarrow> same_next ts ts''"
  by (simp add: same_next_def)

lemma same_next_update: "ts a = Some t \<Longrightarrow> t_next t' = t_next t \<Longrightarrow> same_next ts (ts(a \<mapsto> t'))"
  by (auto simp: same_next_def)

lemma path_same_next: "same_next ts ts' \<Longrightarrow> path ts x as y \<Longrightarrow> path ts' x as y"
proof (induction as arbitrary: x)
  case (Cons a as)
  then show ?case by (auto simp: same_next_def) (metis map_option_eq_Some)
qed simp

lemma ring_same_next: "same_next ts ts' \<Longrightarrow> ring ts as \<Longrightarrow> ring ts' as"
  using path_same_next by (auto simp: ring_def)

lemma ring_rotate: "ring ts (c # as) \<Longrightarrow> ring ts (as @ [c])"
proof (cases as)
  case (Cons a as')
  assume r: "ring ts (c # as)"
  then obtain t where t: "ts c = Some t" "c \<noteq> 0" "path ts (t_next t) (a # as') c"
    by (auto simp: ring_def Cons)
  then have "t_next t = a" by simp
  with t r show ?thesis by (auto simp: ring_def Cons path_append)
qed (simp add: ring_def)

text \<open>What the loop of the scheduler accepts, and what it leaves of the accepted thread.\<close>

definition runnable :: "u64 \<times> u32 \<Rightarrow> thread \<Rightarrow> bool" where
  "runnable now t \<longleftrightarrow> (if t_status t AND STATUS_SLEEP \<noteq> 0 then due now t
     else t_status t AND STATUS_SUSPEND = 0 \<and> t_status t AND STATUS_ALIVE \<noteq> 0)"

definition woken :: "thread \<Rightarrow> thread" where
  "woken t = (if t_status t AND STATUS_SLEEP \<noteq> 0
     then t\<lparr>t_second := 0, t_nanosecond := 0, t_status := t_status t AND NOT STATUS_SLEEP\<rparr> else t)"

lemma woken_next [simp]: "t_next (woken t) = t_next t" "t_esp (woken t) = t_esp t" "t_fpu (woken t) = t_fpu t"
  by (simp_all add: woken_def)

lemma schedule_from_step:
  assumes "ts a = Some t" "a \<noteq> 0"
  shows "schedule_from now ts a =
    (if runnable now t then Some (Inr (a, ts(a \<mapsto> woken t))) else schedule_from now ts (t_next t))"
  using assms by (subst schedule_from.simps) (auto simp: runnable_def woken_def map_upd_triv)

abbreviation (input) ready :: "u64 \<times> u32 \<Rightarrow> (u32 \<Rightarrow> thread option) \<Rightarrow> u32 \<Rightarrow> bool" where
  "ready now ts a \<equiv> runnable now (the (ts a))"

lemma schedule_from_path:
  assumes "path ts x as y"
  shows "schedule_from now ts x = (case find (ready now ts) as of
      Some a \<Rightarrow> Some (Inr (a, ts(a \<mapsto> woken (the (ts a))))) | None \<Rightarrow> schedule_from now ts y)"
  using assms by (induction as arbitrary: x) (auto simp: schedule_from_step)

text \<open>Among threads that are not runnable and lead to each other the loop never ends.\<close>

lemma schedule_from_diverges:
  assumes "\<forall>a\<in>S. a \<noteq> 0 \<and> (\<exists>t. ts a = Some t \<and> \<not> runnable now t \<and> t_next t \<in> S)" and "a \<in> S"
  shows "schedule_from now ts a = None"
proof (rule ccontr)
  assume "schedule_from now ts a \<noteq> None"
  then obtain r where r: "schedule_from now ts a = Some r" by blast
  have "ts = ts0 \<longrightarrow> now = now0 \<longrightarrow> a \<notin> S"
    if "schedule_from now0 ts0 a = Some r" for now0 ts0 a r
    using that
  proof (rule schedule_from.raw_induct
      [where P = "\<lambda>now0 ts0 a r. ts = ts0 \<longrightarrow> now = now0 \<longrightarrow> a \<notin> S", rotated])
    fix f now0 ts0 ntp r
    assume IH: "\<And>now0 ts0 a r. f now0 ts0 a = Some r \<Longrightarrow> ts = ts0 \<longrightarrow> now = now0 \<longrightarrow> a \<notin> S"
      and eq: "(if ntp = 0 then Some (Inr (0, ts0))
        else case ts0 ntp of None \<Rightarrow> Some (Inl (Page_Fault ntp))
        | Some t \<Rightarrow> if t_status t AND STATUS_SLEEP \<noteq> 0 then
            if due now0 t then Some (Inr (ntp, ts0(ntp \<mapsto> t\<lparr>t_second := 0, t_nanosecond := 0,
              t_status := t_status t AND NOT STATUS_SLEEP\<rparr>)))
            else f now0 ts0 (t_next t)
          else if t_status t AND STATUS_SUSPEND \<noteq> 0 then f now0 ts0 (t_next t)
          else if t_status t AND STATUS_ALIVE \<noteq> 0 then Some (Inr (ntp, ts0))
          else f now0 ts0 (t_next t)) = Some r"
    show "ts = ts0 \<longrightarrow> now = now0 \<longrightarrow> ntp \<notin> S"
    proof (intro impI notI)
      assume same: "ts = ts0" "now = now0" and "ntp \<in> S"
      then obtain t where "ntp \<noteq> 0" "ts0 ntp = Some t" "\<not> runnable now0 t" "t_next t \<in> S"
        using assms(1) by blast
      with eq have "f now0 ts0 (t_next t) = Some r" by (auto simp: runnable_def split: if_splits)
      from IH [OF this] same \<open>t_next t \<in> S\<close> show False by blast
    qed
  qed
  from this [OF r] assms(2) show False by blast
qed

lemma path_nodes:
  "path ts x as y \<Longrightarrow> a \<in> set as \<Longrightarrow> a \<noteq> 0 \<and> (\<exists>t. ts a = Some t \<and> t_next t \<in> insert y (set as))"
proof (induction as arbitrary: x)
  case (Cons b bs)
  then obtain t where t: "ts b = Some t" "path ts (t_next t) bs y" "b \<noteq> 0" by auto
  have "t_next t \<in> insert y (set bs)" using t(2) by (cases bs) auto
  then show ?case using Cons t by auto
qed simp

lemma schedule_ring:
  assumes "ring ts (c # as)" "ts c = Some t"
  shows "schedule_from now ts (t_next t) = (case find (ready now ts) (as @ [c]) of
      Some a \<Rightarrow> Some (Inr (a, ts(a \<mapsto> woken (the (ts a))))) | None \<Rightarrow> None)"
proof -
  have p: "path ts (t_next t) (as @ [c]) (t_next t)"
    using assms by (auto simp: ring_def path_append)
  show ?thesis
  proof (cases "find (ready now ts) (as @ [c])")
    case (Some a)
    then show ?thesis using schedule_from_path [OF p, of now] by simp
  next
    case None
    let ?S = "set (as @ [c])"
    have "t_next t \<in> ?S" using p by (cases as) auto
    moreover have "\<forall>a\<in>?S. a \<noteq> 0 \<and> (\<exists>t. ts a = Some t \<and> \<not> runnable now t \<and> t_next t \<in> ?S)"
    proof
      fix a assume a: "a \<in> ?S"
      then obtain u where u: "a \<noteq> 0" "ts a = Some u" "t_next u \<in> insert (t_next t) ?S"
        using path_nodes [OF p] by blast
      moreover have "\<not> runnable now u" using None a u(2) by (force simp: find_None_iff)
      ultimately show "a \<noteq> 0 \<and> (\<exists>t. ts a = Some t \<and> \<not> runnable now t \<and> t_next t \<in> ?S)"
        using \<open>t_next t \<in> ?S\<close> by auto
    qed
    ultimately have "schedule_from now ts (t_next t) = None" by (intro schedule_from_diverges [of ?S])
    then show ?thesis using None by simp
  qed
qed


section \<open>A switch\<close>

definition now_of :: "sched \<Rightarrow> u64 \<times> u32" where
  "now_of s = (current_second (sclock s), current_nanosecond (sclock s))"

text \<open>The locks a switch takes are free.\<close>

definition locks_free :: "sched \<Rightarrow> bool" where
  "locks_free s \<longleftrightarrow> \<not> bit (kthread_spinlock s) 31 \<and> \<not> bit (ktime_spinlock (sclock s)) 31"

lemma ring_current: "ring ts (c # as) \<Longrightarrow> c \<noteq> 0 \<and> (\<exists>t. ts c = Some t)"
  by (auto simp: ring_def)

lemma ring_thread: "ring ts as \<Longrightarrow> a \<in> set as \<Longrightarrow> \<exists>t. ts a = Some t"
  using path_nodes by (fastforce simp: ring_def)

lemma sched_same_clock [simp]: "s\<lparr>threads := ts, sclock := sclock s\<rparr> = s\<lparr>threads := ts\<rparr>"
  by (cases s) simp

lemma schedule_thread_ring:
  assumes "ring (threads s) (current_thread s # as)" "\<not> bit (ktime_spinlock (sclock s)) 31"
  shows "schedule_thread s = (case find (ready (now_of s) (threads s)) (as @ [current_thread s]) of
      None \<Rightarrow> Inl Spins
    | Some a \<Rightarrow> Inr (a, s\<lparr>threads := (threads s)(a \<mapsto> woken (the (threads s a)))\<rparr>))"
proof -
  obtain t where t: "threads s (current_thread s) = Some t" using ring_current [OF assms(1)] by blast
  have "schedule_thread s = (case schedule_from (now_of s) (threads s) (t_next t) of
      None \<Rightarrow> Inl Spins | Some r \<Rightarrow> andthen r (\<lambda>(ntp, ts). Inr (ntp, s\<lparr>threads := ts\<rparr>)))"
    using t by (simp add: schedule_thread_def ktime_get_free [OF assms(2)] thread_at_def now_of_def
      split: option.splits)
  then show ?thesis
    unfolding schedule_ring [OF assms(1) t] by (simp split: option.splits)
qed

text \<open>The threads with the context of the current one saved.\<close>

definition saved_threads :: "sched \<Rightarrow> u32 \<Rightarrow> thread option" where
  "saved_threads s = (threads s)(current_thread s \<mapsto>
     (the (threads s (current_thread s)))\<lparr>t_fpu := fpu_regs s, t_esp := regs_esp s\<rparr>)"

lemma saved_same_next: "threads s (current_thread s) = Some t \<Longrightarrow> same_next (threads s) (saved_threads s)"
  by (auto simp: saved_threads_def intro!: same_next_update)

lemma saved_ready: "ready now (saved_threads s) a = ready now (threads s) a"
  if "threads s (current_thread s) = Some t"
  using that by (simp add: saved_threads_def runnable_def due_def)

lemma thread_switch_ring:
  assumes r: "ring (threads s) (current_thread s # as)" and l: "locks_free s"
  shows "thread_switch s = (case find (ready (now_of s) (threads s)) (as @ [current_thread s]) of
      None \<Rightarrow> Inl Spins
    | Some a \<Rightarrow> Inr (s\<lparr>threads := (saved_threads s)(a \<mapsto> woken (the (saved_threads s a))),
        current_thread := a, regs_esp := t_esp (the (saved_threads s a)),
        fpu_regs := t_fpu (the (saved_threads s a))\<rparr>))"
proof -
  obtain t where t: "threads s (current_thread s) = Some t" using ring_current [OF r] by blast
  let ?l = "kthread_spinlock s"
  let ?s2 = "s\<lparr>kthread_spinlock := set_bit 31 ?l, fpu_regs := fpu_reset s, threads := saved_threads s\<rparr>"
  have r2: "ring (threads ?s2) (current_thread ?s2 # as)"
    using ring_same_next [OF saved_same_next [OF t] r] by simp
  have now: "now_of ?s2 = now_of s" by (simp add: now_of_def)
  have sch: "schedule_thread ?s2 =
      (case find (ready (now_of s) (saved_threads s)) (as @ [current_thread s]) of None \<Rightarrow> Inl Spins
      | Some a \<Rightarrow> Inr (a, ?s2\<lparr>threads := (saved_threads s)(a \<mapsto> woken (the (saved_threads s a)))\<rparr>))"
    using l by (subst schedule_thread_ring [OF r2]) (simp_all add: now locks_free_def split: option.split)
  have "thread_switch s = andthen (schedule_thread ?s2) (\<lambda>(ntp, s3).
      let s4 = s3\<lparr>current_thread := ntp\<rparr>
      in andthen (thread_at (current_thread s4) s4) (\<lambda>n.
         Inr (thread_unlock (s4\<lparr>regs_esp := t_esp n, fpu_regs := t_fpu n\<rparr>))))"
    using l t by (simp add: thread_switch_def thread_lock_def kspinlock_lock_eq locks_free_def
      thread_at_def put_thread_def saved_threads_def Let_def)
  then show ?thesis
    using l unset_set_31 [of ?l]
    by (simp add: sch saved_ready [OF t] thread_at_def thread_unlock_def kspinlock_unlock_def locks_free_def
      split: option.splits)
qed

text \<open>The stack pointer and floating point state a thread runs with, or will run with.\<close>

definition context_of :: "sched \<Rightarrow> u32 \<Rightarrow> u32 \<times> u8 list" where
  "context_of s a = (if a = current_thread s then (regs_esp s, fpu_regs s)
     else (t_esp (the (threads s a)), t_fpu (the (threads s a))))"

lemma context_saved:
  "threads s (current_thread s) = Some t \<Longrightarrow>
    context_of s a = (t_esp (the (saved_threads s a)), t_fpu (the (saved_threads s a)))"
  by (simp add: context_of_def saved_threads_def)

text \<open>The threads in ring order, from one of them on.\<close>

lemma ring_from:
  assumes "ring ts xs" "a \<in> set xs"
  obtains bs where "ring ts (a # bs)" "set (a # bs) = set xs"
proof -
  obtain us vs where xs: "xs = us @ a # vs" using assms(2) by (auto simp: in_set_conv_decomp)
  have "ring ts (drop n xs @ take n xs)" if "n \<le> length xs" for n
    using that
  proof (induction n)
    case (Suc n)
    then have n: "n < length xs" by simp
    then have "drop n xs @ take n xs = xs ! n # (drop (Suc n) xs @ take n xs)" by (simp add: Cons_nth_drop_Suc)
    with Suc n have "ring ts ((drop (Suc n) xs @ take n xs) @ [xs ! n])"
      by (intro ring_rotate) simp
    with n show ?case by (simp add: take_Suc_conv_app_nth)
  qed (use assms(1) in simp)
  from this [of "length us"] have "ring ts (a # vs @ us)" by (simp add: xs)
  with that [of "vs @ us"] show thesis by (auto simp: xs)
qed

lemma switch_keeps:
  assumes r: "ring (threads s) (current_thread s # as)" and l: "locks_free s"
    and sw: "thread_switch s = Inr s'"
  shows "\<exists>bs. ring (threads s') (current_thread s' # bs) \<and>
    set (current_thread s' # bs) = set (current_thread s # as) \<and> locks_free s' \<and>
    (\<forall>a\<in>set (current_thread s # as). context_of s' a = context_of s a) \<and>
    runnable (now_of s) (the (threads s (current_thread s')))"
proof -
  obtain t where t: "threads s (current_thread s) = Some t" using ring_current [OF r] by blast
  obtain a where a: "find (ready (now_of s) (threads s)) (as @ [current_thread s]) = Some a"
    and s': "s' = s\<lparr>threads := (saved_threads s)(a \<mapsto> woken (the (saved_threads s a))),
        current_thread := a, regs_esp := t_esp (the (saved_threads s a)),
        fpu_regs := t_fpu (the (saved_threads s a))\<rparr>"
    using sw unfolding thread_switch_ring [OF r l] by (auto split: option.splits)
  have mem: "a \<in> set (current_thread s # as)" and run: "ready (now_of s) (threads s) a"
    using a by (auto simp: find_Some_iff in_set_conv_nth nth_append split: if_splits) 
  have r1: "ring (saved_threads s) (current_thread s # as)"
    by (rule ring_same_next [OF saved_same_next [OF t] r])
  obtain u where u: "saved_threads s a = Some u" using ring_thread [OF r1 mem] by blast
  have "same_next (saved_threads s) ((saved_threads s)(a \<mapsto> woken u))"
    by (rule same_next_update) (use u in simp_all)
  then have "same_next (saved_threads s) (threads s')" by (simp add: s' u)
  then have r2: "ring (threads s') (current_thread s # as)" by (rule ring_same_next [OF _ r1])
  obtain bs where "ring (threads s') (a # bs)" "set (a # bs) = set (current_thread s # as)"
    by (rule ring_from [OF r2 mem])
  moreover have "context_of s' b = context_of s b" if "b \<in> set (current_thread s # as)" for b
    using context_saved [OF t, of b] by (simp add: context_of_def s')
  ultimately show ?thesis using run l by (auto simp: s' locks_free_def)
qed

section \<open>Threads that are all ready\<close>

text \<open>The thread runs until it leaves the given stack pointer and floating point state, and yields.\<close>

definition turn :: "u32 \<times> u8 list \<Rightarrow> sched \<Rightarrow> stop + sched" where
  "turn w s = kthread_yield (s\<lparr>regs_esp := fst w, fpu_regs := snd w\<rparr>)"

primrec run_turns :: "(u32 \<times> u8 list) list \<Rightarrow> sched \<Rightarrow> stop + sched" where
  "run_turns [] s = Inr s"
| "run_turns (w # ws) s = andthen (turn w s) (run_turns ws)"

lemma run_turns_snoc: "run_turns (ws @ [w]) s = andthen (run_turns ws s) (turn w)"
proof (induction ws arbitrary: s)
  case Nil
  show ?case by (cases "turn w s") simp_all
next
  case (Cons v ws)
  show ?case by (cases "turn v s") (simp_all add: Cons)
qed

definition plain_ready :: "thread \<Rightarrow> bool" where
  "plain_ready t \<longleftrightarrow> t_status t AND STATUS_SLEEP = 0 \<and> t_status t AND STATUS_SUSPEND = 0 \<and>
     t_status t AND STATUS_ALIVE \<noteq> 0"

lemma plain_ready_runs: "plain_ready t \<Longrightarrow> runnable now t" "plain_ready t \<Longrightarrow> woken t = t"
  by (simp_all add: plain_ready_def runnable_def woken_def)

text \<open>What holds between two turns: the current thread heads the ring.\<close>

definition all_ready :: "sched \<Rightarrow> u32 list \<Rightarrow> bool" where
  "all_ready s xs \<longleftrightarrow> ring (threads s) xs \<and> current_thread s = hd xs \<and> locks_free s \<and>
     (\<forall>a\<in>set xs. plain_ready (the (threads s a)))"

lemma turn_all_ready:
  assumes "all_ready s xs"
  shows "\<exists>s'. turn w s = Inr s' \<and> all_ready s' (rotate1 xs) \<and>
    (\<forall>a\<in>set xs. context_of s' a = (if a = current_thread s then w else context_of s a)) \<and>
    (regs_esp s', fpu_regs s') = context_of s' (current_thread s') \<and> sclock s' = sclock s"
proof -
  obtain c as where xs: "xs = c # as" using assms by (cases xs) (auto simp: all_ready_def ring_def)
  let ?s = "s\<lparr>regs_esp := fst w, fpu_regs := snd w\<rparr>"
  have c: "current_thread s = c" and r: "ring (threads ?s) (current_thread ?s # as)" and l: "locks_free ?s"
    and pr: "\<forall>a\<in>set (c # as). plain_ready (the (threads s a))"
    using assms by (auto simp: all_ready_def xs locks_free_def)
  obtain t where t: "threads ?s (current_thread ?s) = Some t" using ring_current [OF r] by blast
  define a where "a = hd (as @ [c])"
  have mem: "a \<in> set (c # as)" by (cases as) (simp_all add: a_def)
  have "find (ready (now_of ?s) (threads ?s)) (as @ [c]) = Some a"
    using pr by (cases as) (simp_all add: a_def plain_ready_runs)
  moreover have sv: "plain_ready (the (saved_threads ?s b)) = plain_ready (the (threads s b))" for b
    using t by (simp add: saved_threads_def plain_ready_def)
  moreover have r1: "ring (saved_threads ?s) (c # as)"
    using ring_same_next [OF saved_same_next [OF t] r] by (simp add: c)
  moreover obtain u where u: "saved_threads ?s a = Some u" using ring_thread [OF r1 mem] by blast
  moreover have "woken u = u" using sv [of a] pr mem u by (intro plain_ready_runs) auto
  ultimately have sw: "thread_switch ?s = Inr (?s\<lparr>threads := saved_threads ?s, current_thread := a,
      regs_esp := t_esp u, fpu_regs := t_fpu u\<rparr>)"
    using thread_switch_ring [OF r l] by (simp add: c fun_upd_idem)
  let ?s1 = "?s\<lparr>threads := saved_threads ?s, current_thread := a, regs_esp := t_esp u, fpu_regs := t_fpu u\<rparr>"
  have "a = hd (rotate1 xs)" by (simp add: xs a_def)
  moreover have "ring (saved_threads ?s) (rotate1 xs)" using ring_rotate [OF r1] by (simp add: xs)
  ultimately have "all_ready ?s1 (rotate1 xs)"
    using l pr sv by (simp add: all_ready_def locks_free_def xs)
  moreover have "\<forall>b\<in>set xs. context_of ?s1 b = (if b = current_thread s then w else context_of s b)"
    using u by (auto simp: context_of_def saved_threads_def c)
  moreover have "context_of ?s1 a = (t_esp u, t_fpu u)"
    using u by (simp add: context_of_def)
  ultimately show ?thesis unfolding turn_def kthread_yield_def sw by (intro exI [of _ ?s1]) simp
qed

lemma run_turns_all_ready:
  assumes "all_ready s xs" "length ws \<le> length xs"
  shows "\<exists>s'. run_turns ws s = Inr s' \<and> all_ready s' (rotate (length ws) xs) \<and>
    (\<forall>j<length xs. context_of s' (xs ! j) = (if j < length ws then ws ! j else context_of s (xs ! j)))"
  using assms(2)
proof (induction ws rule: rev_induct)
  case (snoc w ws)
  let ?k = "length ws"
  from snoc obtain s1 where s1: "run_turns ws s = Inr s1" "all_ready s1 (rotate ?k xs)"
    "\<forall>j<length xs. context_of s1 (xs ! j) = (if j < ?k then ws ! j else context_of s (xs ! j))"
    by auto
  from turn_all_ready [OF s1(2), of w] obtain s' where s': "turn w s1 = Inr s'"
    "all_ready s' (rotate1 (rotate ?k xs))"
    "\<forall>a\<in>set xs. context_of s' a = (if a = current_thread s1 then w else context_of s1 a)" by auto
  have d: "distinct xs" and ne: "xs \<noteq> []" using assms(1) by (simp_all add: all_ready_def ring_def)
  have "current_thread s1 = xs ! ?k"
    using s1(2) ne snoc.prems by (simp add: all_ready_def hd_rotate_conv_nth)
  then have "context_of s' (xs ! j) = (if j < Suc ?k then (ws @ [w]) ! j else context_of s (xs ! j))"
    if "j < length xs" for j
    using that s'(3) s1(3) d snoc.prems by (auto simp: nth_append nth_eq_iff_index_eq less_Suc_eq)
  with s' s1(1) show ?case by (simp add: run_turns_snoc)
qed (use assms in simp)

text \<open>
  C5: round robin. In a ring of threads that are alive and neither sleep nor are suspended, every turn
  goes to the next thread of the ring; after a round every thread has run exactly once, the first one
  is current again, and each thread's stack pointer and floating point state are exactly what it left
  when it yielded.
\<close>
theorem round_robin:
  assumes "all_ready s xs" and "length ws \<le> length xs"
  shows "\<exists>s'. run_turns ws s = Inr s' \<and> all_ready s' (rotate (length ws) xs) \<and>
    current_thread s' = xs ! (length ws mod length xs) \<and>
    (\<forall>j<length xs. context_of s' (xs ! j) = (if j < length ws then ws ! j else context_of s (xs ! j)))"
proof -
  have "xs \<noteq> []" using assms(1) by (simp add: all_ready_def ring_def)
  then show ?thesis
    using run_turns_all_ready [OF assms] by (fastforce simp: all_ready_def hd_rotate_conv_nth)
qed

text \<open>Two threads: \<open>0x1000\<close> runs, \<open>0x2000\<close> waits with an older context.\<close>

definition two_threads :: sched where
  "two_threads =
     \<lparr>threads = [0x1000 \<mapsto> blank_thread\<lparr>t_next := 0x2000, t_tid := 1, t_status := 1\<rparr>,
        0x2000 \<mapsto> blank_thread\<lparr>t_next := 0x1000, t_tid := 2, t_status := 1, t_esp := 0x2FC0, t_fpu := [7]\<rparr>],
      current_thread = 0x1000, thread_list = 0, kthread_spinlock = 0, tid_counter = 2,
      sclock = \<lparr>current_second = 100, current_nanosecond = 5, thread_ticks = 0, time_ticks = 0,
        ktime_spinlock = 0, clock_eflags = 0x202\<rparr>,
      regs_esp = 0x1FC0, fpu_regs = [1], fpu_reset = [0], memory = two_free_frames\<rparr>"

lemma two_threads_ok: "ring (threads two_threads) (current_thread two_threads # [0x2000])" "locks_free two_threads"
  by (simp_all add: two_threads_def ring_def locks_free_def blank_thread_def)

lemma two_threads_ready: "all_ready two_threads [0x1000, 0x2000]"
  using two_threads_ok
  by (simp add: all_ready_def two_threads_def plain_ready_def blank_thread_def)

theorem round_robin_witness:
  "\<exists>s'. run_turns [(0x1F00, [2]), (0x2F00, [9])] two_threads = Inr s' \<and> current_thread s' = 0x1000 \<and>
    context_of s' 0x1000 = (0x1F00, [2]) \<and> context_of s' 0x2000 = (0x2F00, [9])"
proof -
  have len: "length [(0x1F00 :: u32, [2 :: u8]), (0x2F00, [9])] \<le> length [0x1000 :: u32, 0x2000]" by simp
  from round_robin [OF two_threads_ready len] obtain s' where
    s': "run_turns [(0x1F00, [2]), (0x2F00, [9])] two_threads = Inr s'" "current_thread s' = 0x1000"
      and c: "\<forall>j<length [0x1000 :: u32, 0x2000]. context_of s' ([0x1000, 0x2000] ! j) =
        (if j < length [(0x1F00 :: u32, [2 :: u8]), (0x2F00, [9])] then [(0x1F00, [2]), (0x2F00, [9])] ! j
         else context_of two_threads ([0x1000, 0x2000] ! j))"
    by auto
  have "context_of s' 0x1000 = (0x1F00, [2])" "context_of s' 0x2000 = (0x2F00, [9])"
    using c [THEN spec, of 0] c [THEN spec, of 1] by simp_all
  with s' show ?thesis by blast
qed

section \<open>The scheduler's choice\<close>



section \<open>Killed threads\<close>

text \<open>
  How the system goes on: threads switch, the current one computes, and the clock interrupt sets the
  clock between two uses of its lock.
\<close>

inductive runs :: "sched \<Rightarrow> sched \<Rightarrow> bool" for s where
  start: "runs s s"
| switch: "runs s s1 \<Longrightarrow> thread_switch s1 = Inr s2 \<Longrightarrow> runs s s2"
| compute: "runs s s1 \<Longrightarrow> runs s (s1\<lparr>regs_esp := e, fpu_regs := f\<rparr>)"
| tick: "runs s s1 \<Longrightarrow> \<not> bit (ktime_spinlock c) 31 \<Longrightarrow> runs s (s1\<lparr>sclock := c\<rparr>)"

definition dead :: "sched \<Rightarrow> u32 \<Rightarrow> bool" where
  "dead s a \<longleftrightarrow> (\<exists>t. threads s a = Some t \<and> t_status t AND STATUS_SLEEP = 0 \<and> t_status t AND STATUS_ALIVE = 0)"

lemma dead_not_runnable: "dead s a \<Longrightarrow> \<not> runnable now (the (threads s a))"
  by (auto simp: dead_def runnable_def)

text \<open>The current thread is in a ring, with the locks of a switch free.\<close>

definition ring_ok :: "sched \<Rightarrow> u32 set \<Rightarrow> bool" where
  "ring_ok s S \<longleftrightarrow> (\<exists>as. ring (threads s) (current_thread s # as) \<and> set (current_thread s # as) = S) \<and> locks_free s"

lemma clear_alive: "(x AND - 2) AND STATUS_SLEEP = x AND STATUS_SLEEP" "(x AND - 2) AND STATUS_ALIVE = 0" for x :: u32
proof -
  have "- 2 AND STATUS_SLEEP = STATUS_SLEEP" "- 2 AND STATUS_ALIVE = 0" by simp_all
  then show "(x AND - 2) AND STATUS_SLEEP = x AND STATUS_SLEEP" "(x AND - 2) AND STATUS_ALIVE = 0"
    by (simp_all only: and.assoc and_zero_eq)
qed

lemma switch_dead:
  assumes "ring_ok s S" "dead s d" "thread_switch s = Inr s'"
  shows "ring_ok s' S \<and> dead s' d \<and> current_thread s' \<noteq> d"
proof -
  obtain as where as: "ring (threads s) (current_thread s # as)" "set (current_thread s # as) = S" "locks_free s"
    using assms(1) by (auto simp: ring_ok_def)
  from switch_keeps [OF as(1,3) assms(3)] have k: "ring_ok s' S"
    and run: "runnable (now_of s) (the (threads s (current_thread s')))"
    using as(2) by (auto simp: ring_ok_def)
  then have ne: "current_thread s' \<noteq> d" using dead_not_runnable [OF assms(2)] by blast
  obtain a where "s' = s\<lparr>threads := (saved_threads s)(a \<mapsto> woken (the (saved_threads s a))),
        current_thread := a, regs_esp := t_esp (the (saved_threads s a)), fpu_regs := t_fpu (the (saved_threads s a))\<rparr>"
    using assms(3) unfolding thread_switch_ring [OF as(1,3)] by (auto split: option.splits)
  with ne assms(2) have "dead s' d" by (auto simp: dead_def saved_threads_def)
  with k ne show ?thesis by simp
qed

lemma runs_dead:
  assumes "runs s s'" "ring_ok s S" "dead s d" "current_thread s \<noteq> d"
  shows "ring_ok s' S \<and> dead s' d \<and> current_thread s' \<noteq> d"
  using assms
proof (induction rule: runs.induct)
  case (switch s1 s2)
  then show ?case using switch_dead by blast
qed (auto simp: ring_ok_def dead_def locks_free_def)

lemma on_thread_current:
  assumes "threads s (current_thread s) = Some t" "\<not> bit (kthread_spinlock s) 31"
  shows "on_thread (t_tid t) f s = Inr (current_thread s, t, put_thread (current_thread s) (f t) s)"
  using assms unset_set_31 [OF assms(2)]
  by (simp add: on_thread_def thread_lock_def kspinlock_lock_eq find_thread_def thread_at_def
    thread_unlock_def put_thread_def kspinlock_unlock_def)

lemma ring_ok_put:
  assumes "ring_ok s S" "threads s (current_thread s) = Some t" "t_next t' = t_next t"
  shows "ring_ok (put_thread (current_thread s) t' s) S"
  using assms ring_same_next [OF same_next_update [of "threads s" "current_thread s" t t', OF assms(2,3)]]
  by (auto simp: ring_ok_def put_thread_def locks_free_def)

lemma kill_current_dead:
  assumes "ring_ok s S" and "threads s (current_thread s) = Some t" and "t_status t AND STATUS_SLEEP = 0"
    and "kthread_kill_current s = Inr s1"
  shows "ring_ok s1 S \<and> dead s1 (current_thread s) \<and> current_thread s1 \<noteq> current_thread s"
proof -
  let ?t = "t\<lparr>t_status := t_status t AND NOT STATUS_ALIVE\<rparr>"
  let ?s = "put_thread (current_thread s) ?t s"
  have "kthread_kill_current s = thread_switch ?s"
    using assms(1,2) on_thread_current [OF assms(2)]
    by (simp add: kthread_kill_current_def kthread_kill_def thread_at_def switch_if_current_def
      ring_ok_def locks_free_def put_thread_def)
  moreover have "ring_ok ?s S" by (rule ring_ok_put [OF assms(1,2)]) simp
  moreover have "dead ?s (current_thread s)"
    using assms(3) by (simp add: dead_def put_thread_def clear_alive)
  ultimately show ?thesis using switch_dead [of ?s S "current_thread s" s1] assms(4) by simp
qed


lemma two_threads_kill_any: "\<exists>s1. kthread_kill_current (two_threads\<lparr>memory := m\<rparr>) = Inr s1 \<and> current_thread s1 = 0x2000"
proof -
  let ?s = "put_thread 0x1000 (blank_thread\<lparr>t_next := 0x2000, t_tid := 1, t_status := 0\<rparr>) (two_threads\<lparr>memory := m\<rparr>)"
  have "kthread_kill_current (two_threads\<lparr>memory := m\<rparr>) = thread_switch ?s"
    by (simp add: kthread_kill_current_def kthread_kill_def on_thread_def thread_lock_def kspinlock_lock_eq
      find_thread_def thread_at_def thread_unlock_def put_thread_def kspinlock_unlock_def switch_if_current_def
      two_threads_def blank_thread_def unset_set_31)
  moreover have r: "ring (threads ?s) (current_thread ?s # [0x2000])" "locks_free ?s"
    by (simp_all add: two_threads_def ring_def blank_thread_def put_thread_def locks_free_def)
  ultimately show ?thesis
    unfolding thread_switch_ring [OF r]
    by (simp add: two_threads_def runnable_def blank_thread_def put_thread_def)
qed

lemma two_threads_kill: "\<exists>s1. kthread_kill_current two_threads = Inr s1 \<and> current_thread s1 = 0x2000"
  using two_threads_kill_any [of "memory two_threads"] by simp


section \<open>New threads\<close>

lemma eflags_through_irqsave:
  assumes "\<not> bit l 31" "kspinlock_lock_irqsave \<lparr>lock_word = l, irqsave = i, eflags = e\<rparr> = Inr k"
  shows "lock_word (kspinlock_unlock_irqrestore k) = l \<and> eflags (kspinlock_unlock_irqrestore k) = e"
  using assms unset_set_31 [OF assms(1)]
  by (auto simp: kspinlock_lock_irqsave_def spin_loop_eq kspinlock_unlock_irqrestore_def)

lemma lock_irqsave_free:
  "\<not> bit l 31 \<Longrightarrow> \<exists>k. kspinlock_lock_irqsave \<lparr>lock_word = l, irqsave = i, eflags = e\<rparr> = Inr k"
  by (simp add: kspinlock_lock_irqsave_def spin_loop_eq)

lemma path_outside: "a \<notin> set as \<Longrightarrow> path (ts(a := v)) x as y = path ts x as y"
  by (induction as arbitrary: x) auto

lemma link_thread_ring:
  assumes r: "ring (threads s) (current_thread s # as)" and l: "locks_free s"
    and n: "threads s ntp = Some n" "ntp \<noteq> 0" "ntp \<notin> set (current_thread s # as)"
    and c: "threads s (current_thread s) = Some c"
  shows "\<exists>s'. link_thread ntp s = Inr (tid_counter s + 1, s') \<and>
    ring (threads s') (current_thread s # ntp # as) \<and> locks_free s' \<and>
    current_thread s' = current_thread s \<and> tid_counter s' = tid_counter s + 1 \<and> sclock s' = sclock s \<and>
    regs_esp s' = regs_esp s \<and> fpu_regs s' = fpu_regs s \<and> fpu_reset s' = fpu_reset s \<and>
    memory s' = memory s \<and> thread_list s' = thread_list s \<and>
    threads s' = (threads s)(ntp \<mapsto> n\<lparr>t_fpu := fpu_reset s, t_next := t_next c, t_tid := tid_counter s + 1\<rparr>,
      current_thread s \<mapsto> c\<lparr>t_fpu := fpu_regs s, t_next := ntp\<rparr>)"
proof -
  let ?c = "current_thread s"
  have lock: "\<not> bit (kthread_spinlock s) 31" using l by (simp add: locks_free_def)
  then obtain k where k: "kspinlock_lock_irqsave
      \<lparr>lock_word = kthread_spinlock s, irqsave = 0, eflags = eflags_reg (memory s)\<rparr> = Inr k"
    using lock_irqsave_free by blast
  note u = eflags_through_irqsave [OF lock k]
  let ?n = "n\<lparr>t_fpu := fpu_reset s, t_next := t_next c, t_tid := tid_counter s + 1\<rparr>"
  let ?cc = "c\<lparr>t_fpu := fpu_regs s, t_next := ntp\<rparr>"
  let ?s = "s\<lparr>threads := (threads s)(ntp \<mapsto> ?n, ?c \<mapsto> ?cc), tid_counter := tid_counter s + 1\<rparr>"
  have "link_thread ntp s = Inr (tid_counter s + 1, ?s)"
    using k u c n by (simp add: link_thread_def thread_at_def put_thread_def Let_def)
  moreover have "ring (threads ?s) (?c # ntp # as)"
  proof -
    have c0: "?c \<noteq> 0" "?c \<notin> set as" "distinct as" and p: "path (threads s) (t_next c) as ?c"
      using r c by (auto simp: ring_def)
    have "path (threads ?s) (t_next c) as ?c"
      using p n(3) c0 by (simp add: path_outside)
    with c0 n show ?thesis by (auto simp: ring_def)
  qed
  ultimately show ?thesis using l by (intro exI [of _ ?s]) (simp add: locks_free_def)
qed

text \<open>
  C12: \<^verbatim>\<open>kthread_create\<close> starts the new thread at once. Linking it and giving up the processor puts it
  directly behind the current thread, with an id one above the last, and makes it the current one with
  the stack pointer it was prepared with and a reset floating point unit; the creator and every other
  thread of the ring keep their contexts.
\<close>
theorem create_starts_new_thread:
  assumes "ring (threads s) (current_thread s # as)" and "locks_free s"
    and "threads s ntp = Some n" and "ntp \<noteq> 0" and "ntp \<notin> set (current_thread s # as)" and "plain_ready n"
  shows "\<exists>s'. start_thread ntp s = Inr (tid_counter s + 1, s') \<and>
    ring (threads s') (current_thread s # ntp # as) \<and> current_thread s' = ntp \<and>
    map_option t_tid (threads s' ntp) = Some (tid_counter s + 1) \<and> tid_counter s' = tid_counter s + 1 \<and>
    regs_esp s' = t_esp n \<and> fpu_regs s' = fpu_reset s \<and> memory s' = memory s \<and> locks_free s' \<and>
    (\<forall>a\<in>set (current_thread s # as). context_of s' a = context_of s a)"
proof -
  obtain c where c: "threads s (current_thread s) = Some c" using ring_current [OF assms(1)] by blast
  let ?n = "n\<lparr>t_fpu := fpu_reset s, t_next := t_next c, t_tid := tid_counter s + 1\<rparr>"
  let ?c = "c\<lparr>t_fpu := fpu_regs s, t_next := ntp\<rparr>"
  from link_thread_ring [OF assms(1-5) c] obtain s1 where s1: "link_thread ntp s = Inr (tid_counter s + 1, s1)"
    and r1: "ring (threads s1) (current_thread s1 # ntp # as)" and l1: "locks_free s1"
    and f: "current_thread s1 = current_thread s" "tid_counter s1 = tid_counter s + 1" "regs_esp s1 = regs_esp s"
      "fpu_regs s1 = fpu_regs s" "memory s1 = memory s" "sclock s1 = sclock s"
    and ts: "threads s1 = (threads s)(ntp \<mapsto> ?n, current_thread s \<mapsto> ?c)"
    by auto
  have ne: "ntp \<noteq> current_thread s" using assms(5) by auto
  have pr: "plain_ready ?n" using assms(6) by (simp add: plain_ready_def)
  have c1: "threads s1 (current_thread s1) = Some ?c" by (simp add: ts f)
  have sv: "saved_threads s1 = (threads s1)(current_thread s \<mapsto>
      c\<lparr>t_next := ntp, t_fpu := fpu_regs s, t_esp := regs_esp s\<rparr>)"
    by (simp add: saved_threads_def ts f)
  let ?s' = "s1\<lparr>threads := saved_threads s1, current_thread := ntp, regs_esp := t_esp n, fpu_regs := fpu_reset s\<rparr>"
  have "thread_switch s1 = Inr ?s'"
    using plain_ready_runs [OF pr] ne
    unfolding thread_switch_ring [OF r1 l1] by (simp add: sv ts fun_upd_idem)
  then have "start_thread ntp s = Inr (tid_counter s + 1, ?s')" by (simp add: start_thread_def s1)
  moreover have "ring (threads ?s') (current_thread s # ntp # as)"
    using ring_same_next [OF saved_same_next [OF c1] r1] by (simp add: f)
  moreover have "\<forall>a\<in>set (current_thread s # as). context_of ?s' a = context_of s a"
    using assms(5) ne by (auto simp: context_of_def sv ts f)
  ultimately show ?thesis
    using l1 ne by (intro exI [of _ ?s'] conjI) (simp_all add: sv ts f locks_free_def)
qed

text \<open>\<open>two_threads\<close> with a third one, prepared at \<open>0x3000\<close>.\<close>

definition with_third :: sched where
  "with_third = put_thread 0x3000 (blank_thread\<lparr>t_status := 1, t_esp := 0x3FCC\<rparr>) two_threads"

theorem create_starts_new_thread_witness:
  "\<exists>s'. start_thread 0x3000 with_third = Inr (3, s') \<and> current_thread s' = 0x3000 \<and> regs_esp s' = 0x3FCC \<and>
    ring (threads s') [0x1000, 0x3000, 0x2000] \<and> context_of s' 0x1000 = (0x1FC0, [1])"
proof -
  have cur: "current_thread with_third = 0x1000" by (simp add: with_third_def put_thread_def two_threads_def)
  have r: "ring (threads with_third) (current_thread with_third # [0x2000])" "locks_free with_third"
    by (simp_all add: with_third_def put_thread_def two_threads_def ring_def locks_free_def blank_thread_def)
  obtain n where n: "threads with_third 0x3000 = Some n" "plain_ready n" "t_esp n = 0x3FCC"
    by (simp add: with_third_def put_thread_def plain_ready_def blank_thread_def)
  have "context_of with_third 0x1000 = (0x1FC0, [1])" "tid_counter with_third + 1 = 3"
    by (simp_all add: with_third_def put_thread_def two_threads_def context_of_def)
  with create_starts_new_thread [OF r n(1) _ _ n(2)] cur n(3) show ?thesis by fastforce
qed

section \<open>Threads that cannot be found\<close>

lemma find_thread_other:
  assumes "threads s (current_thread s) = Some c" and "thread_list s = 0" and "tid \<noteq> t_tid c"
  shows "find_thread tid s = Inr 0"
  using assms by (simp add: find_thread_def thread_at_def iterate_leave)

lemma on_thread_other:
  assumes "threads s (current_thread s) = Some c" and "thread_list s = 0" and "threads s 0 = None"
    and "locks_free s" and "tid \<noteq> t_tid c"
  shows "on_thread tid f s = Inl (Page_Fault 0)"
  using assms find_thread_other [of "s\<lparr>kthread_spinlock := set_bit 31 (kthread_spinlock s)\<rparr>" c tid]
  by (simp add: on_thread_def thread_lock_def kspinlock_lock_eq locks_free_def thread_at_def)

lemma kthread_sleep_other:
  assumes "threads s (current_thread s) = Some c" and "thread_list s = 0" and "threads s 0 = None"
    and "locks_free s" and "tid \<noteq> t_tid c"
  shows "kthread_sleep tid sec nsec s = Inl (Page_Fault 0)"
  using assms find_thread_other [of "s\<lparr>kthread_spinlock := set_bit 31 (kthread_spinlock s)\<rparr>" c tid]
  by (simp add: kthread_sleep_def thread_lock_def kspinlock_lock_eq locks_free_def ktime_get_free thread_at_def)

text \<open>
  C24: \<^verbatim>\<open>thread_list\<close> is never assigned, so \<^verbatim>\<open>find_thread\<close> finds the current thread only. An operation on
  any other id follows the null pointer while \<^verbatim>\<open>kthread_spinlock\<close> is held, and the page fault handler's
  \<^verbatim>\<open>kthread_kill_current\<close> then waits for that lock for ever; on the current thread the same operations
  work.
\<close>
theorem only_current_thread_is_found:
  assumes "threads s (current_thread s) = Some c" and "thread_list s = 0" and "threads s 0 = None"
    and "locks_free s"
  shows "(tid \<noteq> t_tid c \<longrightarrow>
    kthread_kill tid s = Inl (Page_Fault 0) \<and> kthread_suspend tid s = Inl (Page_Fault 0) \<and>
    kthread_resume tid s = Inl (Page_Fault 0) \<and> kthread_priority_set tid p s = Inl (Page_Fault 0) \<and>
    kthread_priority_get tid s = Inl (Page_Fault 0) \<and> kthread_key_set tid k s = Inl (Page_Fault 0) \<and>
    kthread_key_get tid s = Inl (Page_Fault 0) \<and> kthread_sleep tid sec nsec s = Inl (Page_Fault 0) \<and>
    (\<exists>s1. thread_lock s = Inr s1 \<and> kthread_kill_current s1 = Inl Spins)) \<and>
    (\<exists>s1. kthread_key_set (t_tid c) k s = Inr (t_key c, s1) \<and> kthread_key_get (t_tid c) s1 = Inr (k, s1))"
proof (intro conjI impI)
  assume ne: "tid \<noteq> t_tid c"
  note on = on_thread_other [OF assms ne]
  show "kthread_kill tid s = Inl (Page_Fault 0)" "kthread_suspend tid s = Inl (Page_Fault 0)"
    "kthread_resume tid s = Inl (Page_Fault 0)" "kthread_priority_set tid p s = Inl (Page_Fault 0)"
    "kthread_priority_get tid s = Inl (Page_Fault 0)" "kthread_key_set tid k s = Inl (Page_Fault 0)"
    "kthread_key_get tid s = Inl (Page_Fault 0)"
    by (simp_all add: on kthread_kill_def kthread_suspend_def kthread_resume_def kthread_priority_set_def
      kthread_priority_get_def kthread_key_set_def kthread_key_get_def)
  show "kthread_sleep tid sec nsec s = Inl (Page_Fault 0)" by (rule kthread_sleep_other [OF assms ne])
  let ?s1 = "s\<lparr>kthread_spinlock := set_bit 31 (kthread_spinlock s)\<rparr>"
  have lock: "thread_lock s = Inr ?s1"
    using assms(4) by (simp add: thread_lock_def kspinlock_lock_eq locks_free_def)
  have "kthread_kill_current ?s1 = Inl Spins"
    using assms(1) by (simp add: kthread_kill_current_def kthread_kill_def on_thread_def thread_lock_def
      kspinlock_lock_eq thread_at_def bit_set_bit_iff)
  then show "\<exists>s1. thread_lock s = Inr s1 \<and> kthread_kill_current s1 = Inl Spins" by (simp add: lock)
next
  have l: "\<not> bit (kthread_spinlock s) 31" using assms(4) by (simp add: locks_free_def)
  let ?s1 = "put_thread (current_thread s) (c\<lparr>t_key := k\<rparr>) s"
  have "threads ?s1 (current_thread ?s1) = Some (c\<lparr>t_key := k\<rparr>)" "\<not> bit (kthread_spinlock ?s1) 31"
    using l by (simp_all add: put_thread_def)
  from on_thread_current [OF this, of "\<lambda>t. t"] have "kthread_key_get (t_tid c) ?s1 = Inr (k, ?s1)"
    by (simp add: kthread_key_get_def put_thread_def)
  moreover have "kthread_key_set (t_tid c) k s = Inr (t_key c, ?s1)"
    by (simp add: kthread_key_set_def on_thread_current [OF assms(1) l])
  ultimately show "\<exists>s1. kthread_key_set (t_tid c) k s = Inr (t_key c, s1) \<and> kthread_key_get (t_tid c) s1 = Inr (k, s1)"
    by blast
qed

theorem only_current_thread_is_found_witness:
  "kthread_suspend 2 two_threads = Inl (Page_Fault 0) \<and>
    (\<exists>s1. thread_lock two_threads = Inr s1 \<and> kthread_kill_current s1 = Inl Spins) \<and>
    (\<exists>s1. kthread_key_set 1 0x55 two_threads = Inr (0, s1) \<and> kthread_key_get 1 s1 = Inr (0x55, s1))"
proof -
  obtain c where c: "threads two_threads (current_thread two_threads) = Some c" "t_tid c = 1" "t_key c = 0"
    by (simp add: two_threads_def blank_thread_def)
  have "thread_list two_threads = 0" "threads two_threads 0 = None" by (simp_all add: two_threads_def)
  from only_current_thread_is_found [OF c(1) this two_threads_ok(2), of 2 0 "0x55"] show ?thesis
    by (simp add: c(2,3))
qed

end
