(* ===== verification/Calls.thy ===== *)
theory Calls
  imports Thread
begin

unbundle bit_operations_syntax

text \<open>
  The thread system as a whole: every call of \<^verbatim>\<open>arch/ia32/thread.c\<close>, in any order, from \<^verbatim>\<open>kthread_setup\<close>
  on. What the calls keep is the type of the scheduler's state: the threads form one ring, and their ids
  are the numbers from 1 on.
\<close>

section \<open>Calls\<close>

datatype call =
    Yield
  | Kill_Current
  | Kill u32
  | Suspend u32
  | Resume u32
  | Sleep u32 u64 u32
  | Priority_Set u32 u32
  | Priority_Get u32
  | Key_Set u32 u32
  | Key_Get u32

fun perform :: "call \<Rightarrow> sched \<Rightarrow> stop + sched" where
  "perform Yield s = kthread_yield s"
| "perform Kill_Current s = kthread_kill_current s"
| "perform (Kill tid) s = kthread_kill tid s"
| "perform (Suspend tid) s = kthread_suspend tid s"
| "perform (Resume tid) s = kthread_resume tid s"
| "perform (Sleep tid second nanosecond) s = kthread_sleep tid second nanosecond s"
| "perform (Priority_Set tid p) s = kthread_priority_set tid p s"
| "perform (Priority_Get tid) s = andthen (kthread_priority_get tid s) (\<lambda>(p, s'). Inr s')"
| "perform (Key_Set tid k) s = andthen (kthread_key_set tid k s) (\<lambda>(old, s'). Inr s')"
| "perform (Key_Get tid) s = andthen (kthread_key_get tid s) (\<lambda>(k, s'). Inr s')"

text \<open>The thread a call is about, where it is given an id.\<close>

fun target :: "call \<Rightarrow> u32 option" where
  "target Yield = None"
| "target Kill_Current = None"
| "target (Kill tid) = Some tid"
| "target (Suspend tid) = Some tid"
| "target (Resume tid) = Some tid"
| "target (Sleep tid second nanosecond) = Some tid"
| "target (Priority_Set tid p) = Some tid"
| "target (Priority_Get tid) = Some tid"
| "target (Key_Set tid k) = Some tid"
| "target (Key_Get tid) = Some tid"

section \<open>What a call keeps\<close>

definition same_ids :: "(u32 \<Rightarrow> thread option) \<Rightarrow> (u32 \<Rightarrow> thread option) \<Rightarrow> bool" where
  "same_ids ts ts' \<longleftrightarrow> (\<forall>a. map_option t_tid (ts' a) = map_option t_tid (ts a))"

lemma same_ids_trans: "same_ids ts ts' \<Longrightarrow> same_ids ts' ts'' \<Longrightarrow> same_ids ts ts''"
  by (simp add: same_ids_def)

lemma woken_tid [simp]: "t_tid (woken t) = t_tid t"
  by (simp add: woken_def split: if_splits)

lemma same_ids_update: "ts a = Some t \<Longrightarrow> t_tid t' = t_tid t \<Longrightarrow> same_ids ts (ts(a \<mapsto> t'))"
  by (simp add: same_ids_def)

definition kept :: "sched \<Rightarrow> sched \<Rightarrow> u32 set \<Rightarrow> bool" where
  "kept s s' S \<longleftrightarrow> ring_ok s' S \<and> same_ids (threads s) (threads s') \<and>
     thread_list s' = thread_list s \<and> tid_counter s' = tid_counter s"

lemma kept_trans: "kept s s1 S \<Longrightarrow> kept s1 s2 S \<Longrightarrow> kept s s2 S"
  by (auto simp: kept_def intro: same_ids_trans)

text \<open>A call returns with all of it kept, or goes round the ring for ever.\<close>

definition sound :: "sched \<Rightarrow> u32 set \<Rightarrow> stop + sched \<Rightarrow> bool" where
  "sound s S r \<longleftrightarrow> r = Inl Spins \<or> (\<exists>s'. r = Inr s' \<and> kept s s' S)"

lemma ring_ok_current: "ring_ok s S \<Longrightarrow> current_thread s \<in> S \<and> (\<exists>t. threads s (current_thread s) = Some t)"
  using ring_current by (auto simp: ring_ok_def)

lemma switch_sound:
  assumes "ring_ok s S"
  shows "sound s S (thread_switch s)"
proof -
  obtain as where as: "ring (threads s) (current_thread s # as)" "set (current_thread s # as) = S" "locks_free s"
    using assms by (auto simp: ring_ok_def)
  show ?thesis
  proof (cases "thread_switch s")
    case (Inl e)
    then have "e = Spins" unfolding thread_switch_ring [OF as(1,3)] by (auto split: option.splits)
    then show ?thesis using Inl by (simp add: sound_def)
  next
    case (Inr s')
    obtain t where t: "threads s (current_thread s) = Some t" using ring_current [OF as(1)] by blast
    obtain a where a: "find (ready (now_of s) (threads s)) (as @ [current_thread s]) = Some a"
      "s' = s\<lparr>threads := (saved_threads s)(a \<mapsto> woken (the (saved_threads s a))),
        current_thread := a, regs_esp := t_esp (the (saved_threads s a)), fpu_regs := t_fpu (the (saved_threads s a))\<rparr>"
      using Inr unfolding thread_switch_ring [OF as(1,3)] by (auto split: option.splits)
    have "a \<in> S" using a(1) as(2) by (auto simp: find_Some_iff in_set_conv_nth nth_append split: if_splits)
    then obtain u where u: "saved_threads s a = Some u"
      using ring_thread [OF ring_same_next [OF saved_same_next [OF t] as(1)]] as(2) by blast
    have "same_ids (threads s) (saved_threads s)" using t by (simp add: same_ids_def saved_threads_def)
    moreover have "same_ids (saved_threads s) ((saved_threads s)(a \<mapsto> woken u))"
      using u by (intro same_ids_update) simp_all
    ultimately have "same_ids (threads s) (threads s')" using u a(2) by (auto intro: same_ids_trans)
    moreover have "ring_ok s' S" using switch_keeps [OF as(1,3) Inr] as(2) by (auto simp: ring_ok_def)
    ultimately show ?thesis using Inr a(2) by (simp add: sound_def kept_def)
  qed
qed

lemma put_kept:
  assumes "ring_ok s S" "threads s (current_thread s) = Some t" "t_next t' = t_next t" "t_tid t' = t_tid t"
  shows "kept s (put_thread (current_thread s) t' s) S"
  using ring_ok_put [OF assms(1-3)] assms(2,4) by (simp add: kept_def put_thread_def same_ids_def)

lemma put_switch_sound:
  assumes "ring_ok s S" "threads s (current_thread s) = Some t" "t_next t' = t_next t" "t_tid t' = t_tid t"
  shows "sound s S (switch_if_current (current_thread s) (put_thread (current_thread s) t' s))"
proof -
  note k = put_kept [OF assms]
  then have "sound (put_thread (current_thread s) t' s) S (thread_switch (put_thread (current_thread s) t' s))"
    by (intro switch_sound) (simp add: kept_def)
  then show ?thesis using k kept_trans
    by (auto simp: sound_def switch_if_current_def put_thread_def)
qed

text \<open>A call without an id, or with the id of the current thread, returns or goes round the ring.\<close>

lemma perform_current:
  assumes r: "ring_ok s S" and t: "threads s (current_thread s) = Some t"
    and tid: "target c = None \<or> target c = Some (t_tid t)"
  shows "sound s S (perform c s)"
proof -
  have l: "\<not> bit (kthread_spinlock s) 31" "\<not> bit (ktime_spinlock (sclock s)) 31"
    using r by (simp_all add: ring_ok_def locks_free_def)
  note on = on_thread_current [OF t l(1)]
  note sw = put_switch_sound [OF r t]
  have put: "sound s S (Inr (put_thread (current_thread s) t' s))" if "t_next t' = t_next t" "t_tid t' = t_tid t" for t'
    using put_kept [OF r t that] by (simp add: sound_def)
  have kill: "sound s S (kthread_kill (t_tid t) s)" by (simp add: kthread_kill_def on sw)
  show ?thesis
  proof (cases c)
    case Yield
    then show ?thesis using switch_sound [OF r] by (simp add: kthread_yield_def)
  next
    case Kill_Current
    then show ?thesis using kill by (simp add: kthread_kill_current_def thread_at_def t)
  next
    case (Sleep tid' second nanosecond)
    then have c: "c = Sleep (t_tid t) second nanosecond" using tid by simp
    have "find_thread (t_tid t) (s\<lparr>kthread_spinlock := set_bit 31 (kthread_spinlock s)\<rparr>) = Inr (current_thread s)"
      by (simp add: find_thread_def thread_at_def t)
    then show ?thesis
      using l unset_set_31 [OF l(1)] sw
      by (simp add: c kthread_sleep_def thread_lock_def kspinlock_lock_eq ktime_get_free thread_at_def t
        thread_unlock_def put_thread_def kspinlock_unlock_def)
  qed (use tid kill in \<open>simp_all add: kthread_suspend_def kthread_resume_def kthread_priority_set_def
    kthread_priority_get_def kthread_key_set_def kthread_key_get_def on sw put\<close>)
qed

lemma perform_other:
  assumes "ring_ok s S" "threads s (current_thread s) = Some t" "thread_list s = 0" "threads s 0 = None"
    and "target c = Some tid" "tid \<noteq> t_tid t"
  shows "perform c s = Inl (Page_Fault 0)"
proof -
  have l: "locks_free s" using assms(1) by (simp add: ring_ok_def)
  note on = on_thread_other [OF assms(2-4) l assms(6)] kthread_sleep_other [OF assms(2-4) l assms(6)]
  show ?thesis
    using assms(5) by (cases c) (simp_all add: on kthread_kill_def kthread_suspend_def kthread_resume_def
      kthread_priority_set_def kthread_priority_get_def kthread_key_set_def kthread_key_get_def)
qed

section \<open>New threads\<close>

lemma create_cases:
  assumes "kthread_create kill_current function data stack_size s = Inr (tid, s')"
  obtains (failed) m where "s' = s\<lparr>memory := m\<rparr>"
  | (started) ntp m1 t m where "kmemory_virtual_page_allocate 1 1 (memory s) = Inr (ntp, m1)" "ntp \<noteq> 0"
      "start_thread ntp (put_thread ntp t (s\<lparr>memory := m\<rparr>)) = Inr (tid, s')"
proof -
  obtain ntp m1 where n: "kmemory_virtual_page_allocate 1 1 (memory s) = Inr (ntp, m1)"
    using assms by (auto simp: kthread_create_def andthen_Inr_iff)
  show thesis
  proof (cases "ntp = 0")
    case True
    then show ?thesis using assms n by (intro failed [of m1]) (simp add: kthread_create_def)
  next
    case False
    then show ?thesis
      using assms n started [OF n False] failed
      by (auto simp: kthread_create_def andthen_Inr_iff Let_def split: if_splits)
  qed
qed

lemma ring_put_outside:
  assumes "ring (threads s) as" "a \<notin> set as"
  shows "ring ((threads s)(a := v)) as"
  using assms by (simp add: ring_def path_outside)

text \<open>A thread that is started joins the ring with the next id; the others keep theirs.\<close>

lemma start_joins:
  assumes "ring_ok s S" "ntp \<noteq> 0" "ntp \<notin> S"
    and "start_thread ntp (put_thread ntp t (s\<lparr>memory := m\<rparr>)) = Inr (tid, s')"
  shows "ring_ok s' (insert ntp S) \<and> thread_list s' = thread_list s \<and> tid_counter s' = tid_counter s + 1 \<and>
    map_option t_tid (threads s' ntp) = Some (tid_counter s + 1) \<and>
    (\<forall>a. a \<noteq> ntp \<longrightarrow> map_option t_tid (threads s' a) = map_option t_tid (threads s a))"
proof -
  let ?s = "put_thread ntp t (s\<lparr>memory := m\<rparr>)"
  obtain as where as: "ring (threads s) (current_thread s # as)" "set (current_thread s # as) = S" "locks_free s"
    using assms(1) by (auto simp: ring_ok_def)
  obtain c where c: "threads s (current_thread s) = Some c" using ring_current [OF as(1)] by blast
  have ne: "ntp \<noteq> current_thread s" "ntp \<notin> set (current_thread s # as)" using assms(3) as(2) by auto
  have "ring (threads ?s) (current_thread ?s # as)"
    using ring_put_outside [OF as(1) ne(2)] by (simp add: put_thread_def)
  then have "\<exists>s1. link_thread ntp ?s = Inr (tid_counter ?s + 1, s1) \<and>
      ring (threads s1) (current_thread ?s # ntp # as) \<and> locks_free s1 \<and>
      current_thread s1 = current_thread ?s \<and> tid_counter s1 = tid_counter ?s + 1 \<and>
      thread_list s1 = thread_list ?s \<and>
      threads s1 = (threads ?s)(ntp \<mapsto> t\<lparr>t_fpu := fpu_reset ?s, t_next := t_next c, t_tid := tid_counter ?s + 1\<rparr>,
        current_thread ?s \<mapsto> c\<lparr>t_fpu := fpu_regs ?s, t_next := ntp\<rparr>)"
    using link_thread_ring [of ?s as ntp t c] as(3) assms(2) ne c
    by (auto simp: put_thread_def locks_free_def)
  then obtain s1 where s1: "link_thread ntp ?s = Inr (tid_counter s + 1, s1)"
    "ring (threads s1) (current_thread s1 # ntp # as)" "locks_free s1" "current_thread s1 = current_thread s"
    "tid_counter s1 = tid_counter s + 1" "thread_list s1 = thread_list s"
    "threads s1 = (threads s)(ntp \<mapsto> t\<lparr>t_fpu := fpu_reset s, t_next := t_next c, t_tid := tid_counter s + 1\<rparr>,
      current_thread s \<mapsto> c\<lparr>t_fpu := fpu_regs s, t_next := ntp\<rparr>)"
    by (auto simp: put_thread_def)
  have "ring_ok s1 (insert ntp S)" using s1(2-4) as(2) by (auto simp: ring_ok_def)
  moreover have "thread_switch s1 = Inr s'" using assms(4) s1(1) by (auto simp: start_thread_def andthen_Inr_iff)
  ultimately have k: "kept s1 s' (insert ntp S)" using switch_sound [of s1 "insert ntp S"] by (auto simp: sound_def)
  moreover have "map_option t_tid (threads s1 ntp) = Some (tid_counter s + 1)" using ne(1) by (simp add: s1(7))
  moreover have "map_option t_tid (threads s1 a) = map_option t_tid (threads s a)" if "a \<noteq> ntp" for a
    using that c by (simp add: s1(7))
  ultimately show ?thesis using s1(5,6) by (simp add: kept_def same_ids_def)
qed

section \<open>The system\<close>

text \<open>
  The states the system gets into, with the addresses of the threads: after \<^verbatim>\<open>kthread_setup\<close>, by any call
  of the current thread, by computation and clock interrupts, and by \<^verbatim>\<open>kthread_create\<close>, where the
  allocator gives a page that is no thread yet.
\<close>

inductive system :: "sched \<Rightarrow> u32 set \<Rightarrow> bool" where
  boot: "locks_free s \<Longrightarrow> thread_list s = 0 \<Longrightarrow> threads s 0 = None \<Longrightarrow> tid_counter s = 0 \<Longrightarrow>
    kthread_setup junk s = Inr (esp, s') \<Longrightarrow> current_thread s' \<noteq> 0 \<Longrightarrow> system s' {current_thread s'}"
| call: "system s S \<Longrightarrow> perform c s = Inr s' \<Longrightarrow> system s' S"
| compute: "system s S \<Longrightarrow> system (s\<lparr>regs_esp := e, fpu_regs := f, memory := m\<rparr>) S"
| tick: "system s S \<Longrightarrow> \<not> bit (ktime_spinlock k) 31 \<Longrightarrow> system (s\<lparr>sclock := k\<rparr>) S"
| create: "system s S \<Longrightarrow> kthread_create kill_current function data stack_size s = Inr (tid, s') \<Longrightarrow>
    kmemory_virtual_page_allocate 1 1 (memory s) = Inr (ntp, m) \<Longrightarrow> ntp \<notin> S \<Longrightarrow>
    system s' (if tid_counter s' = tid_counter s then S else insert ntp S)"

definition id_of :: "sched \<Rightarrow> u32 \<Rightarrow> u32" where
  "id_of s a = t_tid (the (threads s a))"

text \<open>The ids are the numbers from 1 to the counter.\<close>

definition numbered :: "sched \<Rightarrow> u32 set \<Rightarrow> bool" where
  "numbered s S \<longleftrightarrow> thread_list s = 0 \<and> threads s 0 = None \<and> 0 \<notin> S \<and>
     tid_counter s = word_of_nat (card S) \<and> bij_betw (\<lambda>a. unat (id_of s a)) S {1..card S}"

lemma id_of_same: "map_option t_tid (threads s' a) = map_option t_tid (threads s a) \<Longrightarrow> threads s a \<noteq> None \<Longrightarrow> id_of s' a = id_of s a"
  by (auto simp: id_of_def)

lemma ring_ok_threads: "ring_ok s S \<Longrightarrow> a \<in> S \<Longrightarrow> a \<noteq> 0 \<and> threads s a \<noteq> None"
  using ring_thread path_nodes unfolding ring_ok_def ring_def by fastforce

lemma ring_ok_finite: "ring_ok s S \<Longrightarrow> finite S"
  by (auto simp: ring_ok_def)

lemma kept_numbered:
  assumes "ring_ok s S" "numbered s S" "kept s s' S"
  shows "numbered s' S"
proof -
  have ids: "map_option t_tid (threads s' a) = map_option t_tid (threads s a)" for a
    using assms(3) by (simp add: kept_def same_ids_def)
  then have "id_of s' a = id_of s a" if "a \<in> S" for a
    using id_of_same ring_ok_threads [OF assms(1) that] by blast
  then have "bij_betw (\<lambda>a. unat (id_of s' a)) S {1..card S} = bij_betw (\<lambda>a. unat (id_of s a)) S {1..card S}"
    by (intro bij_betw_cong) simp
  then show ?thesis using assms(2,3) ids [of 0] by (simp add: numbered_def kept_def)
qed

text \<open>There are fewer addresses than ids, so the counter never comes round.\<close>

lemma threads_fit: "0 \<notin> S \<Longrightarrow> card (S :: u32 set) < 4294967296"
proof -
  assume "0 \<notin> S"
  then have "card S < card (UNIV :: u32 set)" by (intro psubset_card_mono) auto
  then show ?thesis by (simp add: card_word)
qed

lemma start_numbered:
  assumes "ring_ok s S" "numbered s S" "ntp \<noteq> 0" "ntp \<notin> S"
    and "ring_ok s' (insert ntp S)" "thread_list s' = thread_list s" "tid_counter s' = tid_counter s + 1"
    and "map_option t_tid (threads s' ntp) = Some (tid_counter s + 1)"
    and "\<And>a. a \<noteq> ntp \<Longrightarrow> map_option t_tid (threads s' a) = map_option t_tid (threads s a)"
  shows "numbered s' (insert ntp S)"
proof -
  have fin: "finite S" by (rule ring_ok_finite [OF assms(1)])
  have z: "0 \<notin> insert ntp S" using assms(2,3) by (simp add: numbered_def)
  have c: "card (insert ntp S) = Suc (card S)" using fin assms(4) by simp
  then have lt: "Suc (card S) < 4294967296" using threads_fit [OF z] by simp
  have count: "tid_counter s' = word_of_nat (Suc (card S))" using assms(2,7) by (simp add: numbered_def)
  have "id_of s' a = id_of s a" if "a \<in> S" for a
  proof (rule id_of_same [OF assms(9)])
    show "a \<noteq> ntp" using that assms(4) by blast
    show "threads s a \<noteq> None" using ring_ok_threads [OF assms(1) that] by blast
  qed
  then have "bij_betw (\<lambda>a. unat (id_of s' a)) S {1..card S}"
    using assms(2) by (subst bij_betw_cong [where g = "\<lambda>a. unat (id_of s a)"]) (simp_all add: numbered_def)
  moreover have "unat (id_of s' ntp) = Suc (card S)"
  proof -
    have "id_of s' ntp = word_of_nat (Suc (card S))" using assms(7,8) count by (auto simp: id_of_def)
    then show ?thesis using lt by (simp add: unat_of_nat_small del: of_nat_Suc)
  qed
  ultimately have "bij_betw (\<lambda>a. unat (id_of s' a)) (insert ntp S) (insert (Suc (card S)) {1..card S})"
    using assms(4) notIn_Un_bij_betw [of ntp S "\<lambda>a. unat (id_of s' a)" "{1..card S}"] by simp
  moreover have "insert (Suc (card S)) {1..card S} = {1..Suc (card S)}" by auto
  moreover have "threads s' 0 = None" using assms(2,3) assms(9) [of 0] by (simp add: numbered_def)
  ultimately show ?thesis using z c count assms(2,6) by (simp add: numbered_def)
qed

lemma system_keeps: "system s S \<Longrightarrow> ring_ok s S \<and> numbered s S"
proof (induction rule: system.induct)
  case (boot s junk esp s')
  obtain p m where m: "kmemory_linear_page_allocate 1 1 (memory s) = Inr (p, m)"
    using boot by (auto simp: kthread_setup_def andthen_Inr_iff)
  then obtain t where s': "s' = put_thread p t (s\<lparr>memory := m, current_thread := p, tid_counter := 1\<rparr>)"
    and t: "t_next t = p" "t_tid t = 1"
    using boot by (auto simp: kthread_setup_def)
  then have "p \<noteq> 0" using boot by (simp add: put_thread_def)
  with t have "ring (threads s') (current_thread s' # [])" by (simp add: s' put_thread_def ring_def)
  then have "ring_ok s' {current_thread s'}"
    using boot(1) unfolding ring_ok_def by (intro conjI exI [of _ "[]"]) (simp_all add: s' put_thread_def locks_free_def)
  with boot \<open>p \<noteq> 0\<close> t show ?case by (simp add: s' put_thread_def numbered_def id_of_def bij_betw_def)
next
  case (call s S c s')
  then obtain t where t: "threads s (current_thread s) = Some t" using ring_ok_current by blast
  have "target c = None \<or> target c = Some (t_tid t)"
    using perform_other [of s S t c] call t by (cases "target c") (auto simp: numbered_def)
  then have "kept s s' S" using perform_current [of s S t c] call t by (auto simp: sound_def)
  then show ?case using kept_numbered call by (auto simp: kept_def)
next
  case (create s S kc fn data stack_size tid s' ntp m)
  from create(2) show ?case
  proof (cases rule: create_cases)
    case (failed m)
    then show ?thesis using create by (simp add: ring_ok_def locks_free_def numbered_def id_of_def)
  next
    case (started ntp' m1 t m)
    then have n: "ntp' = ntp" using create(3) by simp
    note j = start_joins [of s S ntp t m tid s']
    have "tid_counter s' \<noteq> tid_counter s" using j create(4,5) started n by simp
    then show ?thesis using j create(4,5) started n start_numbered [of s S ntp s'] by auto
  qed
qed (simp_all add: ring_ok_def locks_free_def numbered_def id_of_def)

text \<open>
  C6: the type of the scheduler's state. Whatever is called, in whatever order, the threads form one ring
  around the current one and both locks are free between two calls; their ids are exactly the numbers
  from 1 to the last one given. No call gets stuck but in two ways: it goes round a ring in which nobody
  can run, or it is about the id of another thread and faults.
\<close>
theorem thread_system_typed:
  assumes "system s S"
  shows "(\<exists>as. ring (threads s) (current_thread s # as) \<and> set (current_thread s # as) = S) \<and> locks_free s \<and>
    tid_counter s = word_of_nat (card S) \<and> bij_betw (\<lambda>a. unat (id_of s a)) S {1..card S} \<and>
    (if target c = None \<or> target c = Some (id_of s (current_thread s))
     then perform c s = Inl Spins \<or> (\<exists>s'. perform c s = Inr s' \<and> system s' S)
     else perform c s = Inl (Page_Fault 0))"
proof -
  note k = system_keeps [OF assms]
  then obtain t where t: "threads s (current_thread s) = Some t" using ring_ok_current by blast
  have "if target c = None \<or> target c = Some (id_of s (current_thread s))
     then perform c s = Inl Spins \<or> (\<exists>s'. perform c s = Inr s' \<and> system s' S)
     else perform c s = Inl (Page_Fault 0)"
    using perform_current [of s S t c] perform_other [of s S t c] k t system.call [OF assms]
    by (auto simp: id_of_def numbered_def sound_def)
  then show ?thesis using k by (simp add: ring_ok_def numbered_def)
qed

text \<open>The first thread, on a machine with one frame that is in the zone for DMA too.\<close>

definition dma_machine :: kmem where
  "dma_machine = small_machine\<lparr>zones := (zones small_machine)(ZONE_DMA := zones small_machine ZONE_NORMAL)\<rparr>"

definition before_setup :: sched where
  "before_setup = two_threads\<lparr>threads := (\<lambda>_. None), tid_counter := 0, memory := dma_machine\<rparr>"

lemma dma_machine_allocates: "\<exists>m. kmemory_linear_page_allocate 1 1 dma_machine = Inr (0x5000, m)"
proof -
  let ?s1 = "dma_machine\<lparr>kmemory_spinlock := set_bit 31 0, eflags_reg := cli 0x202\<rparr>"
  have lock: "mem_lock dma_machine = Inr (0x202, ?s1)"
    by (simp add: mem_lock_Inr dma_machine_def small_machine_def)
  have pg: "paging dma_machine" by (simp add: dma_machine_def small_machine_def)
  have ok: "memory_ok dma_machine" unfolding dma_machine_def by (rule memory_ok_frame(1) [OF small_ok])
  have ok1: "memory_ok ?s1" by (rule memory_ok_frame [OF memory_ok_frame(2) [OF ok]])
  have av: "available dma_machine g \<longleftrightarrow> available small_machine g" for g
    by (simp add: dma_machine_def available_def table_present_def dir_entry_def virtual_dir_def linear_slot_def)
  have vd: "virtual_dir dma_machine i = virtual_dir small_machine i" for i
    by (simp add: dma_machine_def virtual_dir_def)
  have "available ?s1 5" "scanned (zones ?s1 ZONE_DMA) 5"
    using small_scanned av [of 5] by (simp_all add: small_available dma_machine_def)
  then obtain a s2 where get: "get_free_pages 1 (if 1 \<noteq> (0 :: u32) then ZONE_DMA else ZONE_NORMAL) ?s1 = Inr (a, s2)"
    using one_frame_found [OF memory_ok_zones [OF ok1], of ZONE_DMA ZONE_DMA 5] by auto
  have dirs: "\<forall>g<1048576. available dma_machine g \<longrightarrow> bit (virtual_dir dma_machine (dir_index (frame_addr g))) 0"
    by (auto simp: av vd small_available small_dirs frame_addr_def dir_index_def)
  have av0: "\<not> available dma_machine 0" by (simp add: av small_available)
  obtain s' g where "kmemory_linear_page_allocate 1 1 dma_machine = Inr (a, s')" "a = frame_addr g" "g < 1048576"
    "available dma_machine g"
    using linear_page_allocate_run [OF ok pg memory_ok_zones [OF ok] av0 dirs lock get] by force
  then show ?thesis using small_available by (auto simp: av frame_addr_def)
qed

theorem thread_system_typed_witness:
  "\<exists>s. system s {0x5000} \<and> tid_counter s = 1 \<and> perform (Resume 2) s = Inl (Page_Fault 0) \<and>
    (perform (Resume 1) s = Inl Spins \<or> (\<exists>s'. perform (Resume 1) s = Inr s' \<and> system s' {0x5000}))"
proof -
  obtain m where m: "kmemory_linear_page_allocate 1 1 dma_machine = Inr (0x5000, m)"
    using dma_machine_allocates by blast
  obtain esp s where s: "kthread_setup blank_thread before_setup = Inr (esp, s)" "current_thread s = 0x5000" "id_of s 0x5000 = 1"
    by (simp add: kthread_setup_def m put_thread_def id_of_def before_setup_def)
  have sys: "system s {0x5000}"
    using system.boot [OF _ _ _ _ s(1)] s(2) by (simp add: before_setup_def two_threads_def locks_free_def)
  show ?thesis
    using thread_system_typed [OF sys, of "Resume 2"] thread_system_typed [OF sys, of "Resume 1"] s sys
    by (intro exI [of _ s]) simp
qed

end
