(* ===== verification/Mutex.thy ===== *)
theory Mutex
  imports Atomic Thread
begin

unbundle bit_operations_syntax

text \<open>
  \<^verbatim>\<open>arch/ia32/mutex.c\<close>. A mutex is a record; its word \<^verbatim>\<open>thread\<close> goes through the routines of
  \<^verbatim>\<open>atomic.c\<close> as they are, and so inherits what they do to it. \<open>current\<close> is the caller's thread id, as
  \<^verbatim>\<open>kthread_current\<close> gives it.
\<close>

section \<open>The routines\<close>

record kmutex =
  mutex_thread :: u32
  mutex_count :: u32

text \<open>
  One pass through the loop of \<^verbatim>\<open>kmutex_lock\<close>: \<open>True\<close> leaves the loop with the mutex, \<open>False\<close> goes on to
  \<^verbatim>\<open>kthread_yield\<close>. The second comparison is made only where the first one reports failure.
\<close>

definition kmutex_lock_turn :: "u32 \<Rightarrow> kmutex \<Rightarrow> stop + (bool \<times> kmutex)" where
  "kmutex_lock_turn current m =
     andthen (katomic_compare_and_set_if_equal (mutex_thread m) 0 current) (\<lambda>(set, w).
     let m1 = m\<lparr>mutex_thread := w\<rparr>;
         enter = (\<lambda>m. Inr (True, m\<lparr>mutex_count := mutex_count m + 1\<rparr>))
     in if set \<noteq> 0 then enter m1
        else andthen (katomic_compare (mutex_thread m1) current) (\<lambda>(same, w).
          let m2 = m1\<lparr>mutex_thread := w\<rparr> in if same \<noteq> 0 then enter m2 else Inr (False, m2)))"

text \<open>The loop, when nobody else changes the mutex during the yields.\<close>

definition kmutex_lock :: "u32 \<Rightarrow> kmutex \<Rightarrow> stop + (u32 \<times> kmutex)" where
  "kmutex_lock current m =
     iterate (\<lambda>m. andthen (kmutex_lock_turn current m) (\<lambda>(taken, m1).
       Inr (if taken then Inr (0, m1) else Inl m1))) m"

definition kmutex_test :: "u32 \<Rightarrow> kmutex \<Rightarrow> stop + (u32 \<times> kmutex)" where
  "kmutex_test current m =
     andthen (katomic_compare (mutex_thread m) current) (\<lambda>(same, w). Inr (same, m\<lparr>mutex_thread := w\<rparr>))"

definition kmutex_unlock :: "u32 \<Rightarrow> kmutex \<Rightarrow> stop + (u32 \<times> kmutex)" where
  "kmutex_unlock current m =
     andthen (kmutex_test current m) (\<lambda>(same, m1).
     if same = 0 then Inr (- 1, m1)
     else let m2 = m1\<lparr>mutex_count := mutex_count m1 - 1\<rparr>
       in Inr (0, if mutex_count m2 = 0 then m2\<lparr>mutex_thread := katomic_set (mutex_thread m2) 0\<rparr> else m2))"

definition kmutex_create :: "kmem \<Rightarrow> stop + (u32 \<times> kmem)" where
  "kmutex_create s = kmemory_virtual_page_allocate 1 0 s"

definition kmutex_destroy :: "u32 \<Rightarrow> kmem \<Rightarrow> stop + kmem" where
  "kmutex_destroy mutex s = kmemory_virtual_page_unallocate mutex s"

section \<open>What they do\<close>

lemma cas_result: "katomic_compare_and_set_if_equal w c v = Inr (1, if w = c then v else w)"
  by (auto simp: katomic_defs)

lemma compare_result: "katomic_compare w c = Inr (of_bool (w = c), w - c)"
  by (simp add: katomic_defs)

lemma kmutex_lock_turn_eq:
  "kmutex_lock_turn current m = Inr (True, m\<lparr>mutex_thread := if mutex_thread m = 0 then current else mutex_thread m,
     mutex_count := mutex_count m + 1\<rparr>)"
  by (simp add: kmutex_lock_turn_def cas_result Let_def)

lemma kmutex_lock_eq [kernel_defs]:
  "kmutex_lock current m = Inr (0, m\<lparr>mutex_thread := if mutex_thread m = 0 then current else mutex_thread m,
     mutex_count := mutex_count m + 1\<rparr>)"
  unfolding kmutex_lock_def by (rule iterate_leave) (simp add: kmutex_lock_turn_eq)

lemma kmutex_test_eq [kernel_defs]:
  "kmutex_test current m =
     Inr (of_bool (mutex_thread m = current), m\<lparr>mutex_thread := mutex_thread m - current\<rparr>)"
  by (simp add: kmutex_test_def compare_result)

lemma kmutex_unlock_eq [kernel_defs]:
  "kmutex_unlock current m =
     (if mutex_thread m = current then Inr (0, m\<lparr>mutex_thread := 0, mutex_count := mutex_count m - 1\<rparr>)
      else Inr (- 1, m\<lparr>mutex_thread := mutex_thread m - current\<rparr>))"
  by (simp add: kmutex_unlock_def kmutex_test_eq katomic_set_def Let_def)

text \<open>
  C30: a mutex does not exclude. \<^verbatim>\<open>kmutex_lock\<close> succeeds at its first turn whatever the mutex holds,
  because the compare-and-set it relies on reports success always: a second thread is let in while the
  first one still is the owner by \<^verbatim>\<open>kmutex_test\<close>, and only the count tells that two are inside.
\<close>
theorem mutex_does_not_exclude:
  "(\<exists>m1. kmutex_lock current m = Inr (0, m1)) \<and>
   (a \<noteq> 0 \<longrightarrow> a \<noteq> b \<longrightarrow>
     (\<exists>m1 m2 m3. kmutex_lock a \<lparr>mutex_thread = 0, mutex_count = 0\<rparr> = Inr (0, m1) \<and>
       kmutex_lock b m1 = Inr (0, m2) \<and> mutex_count m2 = 2 \<and> kmutex_test a m2 = Inr (1, m3)))"
  by (simp add: kernel_defs)

theorem mutex_does_not_exclude_witness:
  "\<exists>m1 m2 m3. kmutex_lock 1 \<lparr>mutex_thread = 0, mutex_count = 0\<rparr> = Inr (0, m1) \<and>
    kmutex_lock 2 m1 = Inr (0, m2) \<and> mutex_count m2 = 2 \<and> kmutex_test 1 m2 = Inr (1, m3)"
  using mutex_does_not_exclude [of 1 _ 1 2] by simp

text \<open>
  C31: a thread that locks a free mutex and unlocks it leaves it free again. Nothing more works: after
  a nested lock the first unlock already gives the word up, so that the second one is refused and leaves
  a word that is neither 0 nor the owner's id; and an unlock or a test by another thread, although it is
  refused, takes the mutex away from its owner, whose own unlock is then refused.
\<close>
theorem mutex_unlock_undoes_one_lock:
  assumes "a \<noteq> 0" and "b \<noteq> a" and "b \<noteq> 0"
  defines "free \<equiv> \<lparr>mutex_thread = 0, mutex_count = 0\<rparr>"
  shows "andthen (kmutex_lock a free) (\<lambda>(r, m). kmutex_unlock a m) = Inr (0, free) \<and>
    (\<exists>m2 m3 m4. andthen (kmutex_lock a free) (\<lambda>(r, m). kmutex_lock a m) = Inr (0, m2) \<and>
      kmutex_unlock a m2 = Inr (0, m3) \<and> mutex_thread m3 = 0 \<and> mutex_count m3 = 1 \<and>
      kmutex_unlock a m3 = Inr (- 1, m4) \<and> mutex_thread m4 = - a \<and> mutex_count m4 = 1) \<and>
    (\<exists>m1 m2 m3. kmutex_lock a free = Inr (0, m1) \<and> kmutex_unlock b m1 = Inr (- 1, m2) \<and>
      kmutex_test b m1 = Inr (0, m2) \<and> kmutex_unlock a m2 = Inr (- 1, m3) \<and> mutex_count m3 = 1)"
  using assms by (simp add: kernel_defs free_def)

theorem mutex_unlock_undoes_one_lock_witness:
  "andthen (kmutex_lock 7 \<lparr>mutex_thread = 0, mutex_count = 0\<rparr>) (\<lambda>(r, m). kmutex_unlock 7 m) =
    Inr (0, \<lparr>mutex_thread = 0, mutex_count = 0\<rparr>)"
  using mutex_unlock_undoes_one_lock [of 7 3] by simp

end
