(* ===== verification/Condition.thy ===== *)
theory Condition
  imports Mutex
begin

unbundle bit_operations_syntax

text \<open>
  \<^verbatim>\<open>arch/ia32/condition.c\<close>. The entries behind the header are a function of their index: the code never
  compares an index with the room in the page.
\<close>

section \<open>State\<close>

record kcondition_entry =
  ce_thread :: u32
  ce_mutex_count :: u32
  ce_flags :: u32

record kcondition =
  cond_lock :: u32
  entry_next :: u32
  entry_array :: "u32 \<Rightarrow> kcondition_entry"

abbreviation (input) CONDITION_FLAG_SIGNALLED :: u32 where "CONDITION_FLAG_SIGNALLED \<equiv> 0x00000001"

definition cond_acquire :: "kcondition \<Rightarrow> stop + kcondition" where
  "cond_acquire c = andthen (kspinlock_lock (cond_lock c)) (\<lambda>l. Inr (c\<lparr>cond_lock := l\<rparr>))"

definition cond_release :: "kcondition \<Rightarrow> kcondition" where
  "cond_release c = c\<lparr>cond_lock := kspinlock_unlock (cond_lock c)\<rparr>"

section \<open>The routines\<close>

text \<open>\<^verbatim>\<open>entry->flags |= CONDITION_FLAG_SIGNALLED; kthread_resume(entry->thread)\<close>.\<close>

definition mark_and_resume :: "u32 \<Rightarrow> kcondition \<times> sched \<Rightarrow> stop + (kcondition \<times> sched)" where
  "mark_and_resume index = (\<lambda>(c, s).
     let e = entry_array c index;
         c1 = c\<lparr>entry_array := (entry_array c)(index := e\<lparr>ce_flags := ce_flags e OR CONDITION_FLAG_SIGNALLED\<rparr>)\<rparr>
     in andthen (kthread_resume (ce_thread e) s) (\<lambda>s1. Inr (c1, s1)))"

definition kcondition_signal :: "kcondition \<Rightarrow> sched \<Rightarrow> stop + (u32 \<times> kcondition \<times> sched)" where
  "kcondition_signal c s =
     andthen (cond_acquire c) (\<lambda>c1.
     andthen (if entry_next c1 \<noteq> 0 then mark_and_resume 0 (c1, s) else Inr (c1, s)) (\<lambda>(c2, s1).
       Inr (0, cond_release c2, s1)))"

definition kcondition_broadcast :: "kcondition \<Rightarrow> sched \<Rightarrow> stop + (u32 \<times> kcondition \<times> sched)" where
  "kcondition_broadcast c s =
     andthen (cond_acquire c) (\<lambda>c1.
     andthen (iterate (\<lambda>(index, c, s).
         if index < entry_next c then
           andthen (mark_and_resume index (c, s)) (\<lambda>(c1, s1). Inr (Inl (index + 1, c1, s1)))
         else Inr (Inr (c, s))) (0, c1, s)) (\<lambda>(c2, s1).
       Inr (0, cond_release c2, s1)))"

text \<open>
  \<^verbatim>\<open>kcondition_wait\<close> up to its first \<^verbatim>\<open>kthread_suspend\<close>: \<open>None\<close> where it goes on to suspend itself, a
  value where it returns.
\<close>

definition kcondition_wait_begin ::
    "u32 \<Rightarrow> kcondition \<Rightarrow> kmutex \<Rightarrow> stop + (u32 option \<times> kcondition \<times> kmutex)" where
  "kcondition_wait_begin current c m =
     andthen (kmutex_test current m) (\<lambda>(same, m1).
     if same = 0 then Inr (Some (- 1), c, m1)
     else andthen (cond_acquire c) (\<lambda>c1.
       let c2 = c1\<lparr>entry_array := (entry_array c1)(entry_next c1 :=
                 \<lparr>ce_thread = current, ce_mutex_count = mutex_count m1, ce_flags = 0\<rparr>),
             entry_next := entry_next c1 + 1\<rparr>;
           m2 = m1\<lparr>mutex_count := 0, mutex_thread := katomic_set (mutex_thread m1) 0\<rparr>
       in Inr (None, cond_release c2, m2)))"

text \<open>The loop after \<^verbatim>\<open>done\<close>, from \<open>index\<close> on.\<close>

definition close_gap :: "u32 \<Rightarrow> kcondition \<Rightarrow> stop + kcondition" where
  "close_gap index c =
     iterate (\<lambda>(index, c).
       if index + 1 < entry_next c then
         Inr (Inl (index + 1, c\<lparr>entry_array := (entry_array c)(index := entry_array c (index + 1))\<rparr>))
       else Inr (Inr c)) (index, c)"

text \<open>
  One turn of the waiting loop, from the return of \<^verbatim>\<open>kthread_suspend\<close> to the next one (\<open>None\<close>) or to
  the return of the routine.
\<close>

definition kcondition_wait_turn ::
    "u32 \<Rightarrow> kcondition \<Rightarrow> kmutex \<Rightarrow> stop + (u32 option \<times> kcondition \<times> kmutex)" where
  "kcondition_wait_turn current c m =
     andthen (cond_acquire c) (\<lambda>c1.
     andthen (iterate (\<lambda>index.
         if index < entry_next c1 then
           (let e = entry_array c1 index in
            if ce_thread e = current \<and> ce_flags e AND CONDITION_FLAG_SIGNALLED \<noteq> 0
            then Inr (Inr (Some index)) else Inr (Inl (index + 1)))
         else Inr (Inr None)) 0) (\<lambda>found. case found of
       None \<Rightarrow> Inr (None, cond_release c1, m)
     | Some index \<Rightarrow>
         andthen (kmutex_lock current m) (\<lambda>(r, m1).
         let m2 = m1\<lparr>mutex_count := ce_mutex_count (entry_array c1 index)\<rparr>
         in andthen (close_gap index c1) (\<lambda>c2.
           Inr (Some 0, cond_release (c2\<lparr>entry_next := entry_next c2 - 1\<rparr>), m2)))))"

definition kcondition_timedwait :: "kcondition \<Rightarrow> kmutex \<Rightarrow> u64 \<Rightarrow> u32 \<Rightarrow> u32" where
  "kcondition_timedwait c m second nanosecond = - 1"

definition kcondition_create :: "kmem \<Rightarrow> stop + (u32 \<times> kmem)" where
  "kcondition_create s = kmemory_virtual_page_allocate 1 0 s"

definition kcondition_destroy :: "u32 \<Rightarrow> kmem \<Rightarrow> stop + kmem" where
  "kcondition_destroy condition s = kmemory_virtual_page_unallocate condition s"

section \<open>The queue of waiting threads\<close>

definition waiters :: "kcondition \<Rightarrow> kcondition_entry list" where
  "waiters c = map (\<lambda>i. entry_array c (word_of_nat i)) [0..<unat (entry_next c)]"

text \<open>The entry \<^verbatim>\<open>kcondition_wait\<close> of a thread looks for.\<close>

definition signalled_for :: "u32 \<Rightarrow> kcondition_entry \<Rightarrow> bool" where
  "signalled_for current e \<longleftrightarrow> ce_thread e = current \<and> ce_flags e AND CONDITION_FLAG_SIGNALLED \<noteq> 0"

lemma waiters_length [simp]: "length (waiters c) = unat (entry_next c)"
  by (simp add: waiters_def)

lemma waiters_nth: "i < unat (entry_next c) \<Longrightarrow> waiters c ! i = entry_array c (word_of_nat i)"
  by (simp add: waiters_def)

lemma waiters_lock [simp]: "waiters (c\<lparr>cond_lock := l\<rparr>) = waiters c"
  by (simp add: waiters_def)

lemma waiters_snoc:
  assumes "unat (entry_next c) + 1 < 4294967296"
  shows "waiters (c\<lparr>entry_array := (entry_array c)(entry_next c := e), entry_next := entry_next c + 1\<rparr>) =
    waiters c @ [e]"
proof -
  let ?n = "unat (entry_next c)"
  have n: "unat (entry_next c + 1) = Suc ?n" using assms by (simp add: unat_word_ariths)
  have "word_of_nat i \<noteq> entry_next c" if "i < ?n" for i
    using that assms unat_of_nat_small [of i, where 'a = 32] by auto
  then show ?thesis by (simp add: waiters_def n)
qed

lemma next_word:
  assumes "i < n" "n < 4294967296"
  shows "word_of_nat i + 1 = (word_of_nat (Suc i) :: u32)" "word_of_nat i < (word_of_nat n :: u32)"
  using assms by (simp_all add: word_less_nat_alt unat_of_nat_small)

lemma word_of_nat_same:
  assumes "i < 4294967296" "j < 4294967296"
  shows "word_of_nat i = (word_of_nat j :: u32) \<longleftrightarrow> i = j"
proof -
  have "unat (word_of_nat i :: u32) = i" "unat (word_of_nat j :: u32) = j"
    using assms by (simp_all add: unat_of_nat_small)
  then show ?thesis by metis
qed

text \<open>The search of a turn.\<close>

lemma search_from:
  assumes n: "unat (entry_next c) = n" and i: "i \<le> n"
  shows "iterate (\<lambda>index. if index < entry_next c then
           (let e = entry_array c index in
            if ce_thread e = current \<and> ce_flags e AND CONDITION_FLAG_SIGNALLED \<noteq> 0
            then Inr (Inr (Some index)) else Inr (Inl (index + 1)))
         else Inr (Inr None)) (word_of_nat i) =
    Inr (map_option (\<lambda>j. word_of_nat j) (find (\<lambda>j. signalled_for current (waiters c ! j)) [i..<n]))"
    (is "iterate ?b _ = _")
  using i
proof (induction "n - i" arbitrary: i)
  case 0
  then have "?b (word_of_nat i) = Inr (Inr None)" using n by auto
  with 0 show ?case by (simp add: iterate_leave)
next
  case (Suc k)
  then have i: "i < n" and k: "k = n - Suc i" by auto
  have n32: "n < 4294967296" using unat_u32_less [of "entry_next c"] n by simp
  have en: "entry_next c = word_of_nat n" using n by auto
  note w = next_word [OF i n32]
  have e: "waiters c ! i = entry_array c (word_of_nat i)" using waiters_nth [of i c] i n by simp
  have upt: "[i..<n] = i # [Suc i..<n]" using i by (rule upt_conv_Cons)
  show ?case
  proof (cases "signalled_for current (waiters c ! i)")
    case True
    then have "?b (word_of_nat i) = Inr (Inr (Some (word_of_nat i)))"
      using w by (simp add: en signalled_for_def e Let_def)
    then show ?thesis using True by (simp add: iterate_leave upt)
  next
    case False
    then have "?b (word_of_nat i) = Inr (Inl (word_of_nat (Suc i)))"
      using w by (auto simp: en signalled_for_def e Let_def)
    then have "iterate ?b (word_of_nat i) = iterate ?b (word_of_nat (Suc i))" by (rule iterate_go)
    also have "\<dots> = Inr (map_option (\<lambda>j. word_of_nat j) (find (\<lambda>j. signalled_for current (waiters c ! j)) [Suc i..<n]))"
      using Suc(1) [OF k] i by simp
    finally show ?thesis using False by (simp add: upt)
  qed
qed

text \<open>Moving the later entries down.\<close>

lemma close_gap_moves:
  assumes "unat (entry_next c) = n" "i < n"
  shows "\<exists>c'. close_gap (word_of_nat i) c = Inr c' \<and> entry_next c' = entry_next c \<and> cond_lock c' = cond_lock c \<and>
    (\<forall>j<n - 1. entry_array c' (word_of_nat j) = entry_array c (word_of_nat (if j < i then j else Suc j)))"
  using assms
proof (induction "n - i" arbitrary: i c)
  case (Suc k)
  have n32: "n < 4294967296" using unat_u32_less [of "entry_next c"] Suc.prems by simp
  have en: "entry_next c = word_of_nat n" using Suc.prems by auto
  let ?b = "\<lambda>(index, c). if index + 1 < entry_next c
      then Inr (Inl (index + 1, c\<lparr>entry_array := (entry_array c)(index := entry_array c (index + 1))\<rparr>))
      else Inr (Inr c)"
  note w = next_word [OF Suc.prems(2) n32]
  show ?case
  proof (cases "Suc i < n")
    case True
    let ?c = "c\<lparr>entry_array := (entry_array c)(word_of_nat i := entry_array c (word_of_nat (Suc i)))\<rparr>"
    have "?b (word_of_nat i, c) = Inr (Inl (word_of_nat (Suc i), ?c))"
      using next_word [OF True n32] w(1) by (simp add: en del: of_nat_Suc)
    then have step: "close_gap (word_of_nat i) c = close_gap (word_of_nat (Suc i)) ?c"
      unfolding close_gap_def by (rule iterate_go)
    have "unat (entry_next ?c) = n" "k = n - Suc i" using Suc by simp_all
    from Suc(1) [OF this(2,1) True] obtain c' where c': "close_gap (word_of_nat (Suc i)) ?c = Inr c'"
      "entry_next c' = entry_next c" "cond_lock c' = cond_lock c"
      "\<forall>j<n - 1. entry_array c' (word_of_nat j) = entry_array ?c (word_of_nat (if j < Suc i then j else Suc j))"
      by auto
    have "entry_array ?c (word_of_nat (if j < Suc i then j else Suc j)) =
        entry_array c (word_of_nat (if j < i then j else Suc j))" if "j < n - 1" for j
    proof -
      have "word_of_nat j = (word_of_nat i :: u32) \<longleftrightarrow> j = i" "word_of_nat (Suc j) = (word_of_nat i :: u32) \<longleftrightarrow> Suc j = i"
        using that n32 Suc.prems(2) by (simp_all add: word_of_nat_same del: of_nat_Suc)
      then show ?thesis by (auto simp: less_Suc_eq)
    qed
    with c' show ?thesis by (simp add: step)
  next
    case False
    then have "i = n - 1" using Suc.prems by simp
    then have n: "n = Suc i" using Suc.prems by simp
    then have "?b (word_of_nat i, c) = Inr (Inr c)" using w(1) by (simp add: en del: of_nat_Suc)
    then have "close_gap (word_of_nat i) c = Inr c" unfolding close_gap_def by (rule iterate_leave)
    then show ?thesis using n by simp
  qed
qed simp

lemma close_gap_removes:
  assumes "waiters c = us @ e # vs" and "i = length us"
  shows "\<exists>c'. close_gap (word_of_nat i) c = Inr c' \<and> cond_lock c' = cond_lock c \<and>
    waiters (c'\<lparr>entry_next := entry_next c' - 1\<rparr>) = us @ vs"
proof -
  let ?n = "unat (entry_next c)"
  have len: "?n = length us + Suc (length vs)" using arg_cong [OF assms(1), of length] by simp
  then obtain c' where c': "close_gap (word_of_nat i) c = Inr c'" "entry_next c' = entry_next c" "cond_lock c' = cond_lock c"
    "\<forall>j<?n - 1. entry_array c' (word_of_nat j) = entry_array c (word_of_nat (if j < i then j else Suc j))"
    using close_gap_moves [OF refl, of i c] assms(2) by auto
  let ?c = "c'\<lparr>entry_next := entry_next c' - 1\<rparr>"
  have "entry_next c \<noteq> 0" using len by auto
  then have n: "unat (entry_next ?c) = ?n - 1" by (simp add: c'(2) unat_minus_one)
  have "waiters ?c = us @ vs"
  proof (rule nth_equalityI)
    fix j assume "j < length (waiters ?c)"
    then have j: "j < ?n - 1" using n by simp
    have "waiters ?c ! j = entry_array c' (word_of_nat j)" using j n waiters_nth [of j ?c] by simp
    also have "\<dots> = waiters c ! (if j < i then j else Suc j)"
      using c'(4) j waiters_nth [of "if j < i then j else Suc j" c] by (auto split: if_splits)
    also have "\<dots> = (us @ vs) ! j" by (auto simp: assms nth_append nth_Cons' Suc_diff_le)
    finally show "waiters ?c ! j = (us @ vs) ! j" .
  qed (use n len in simp)
  with c' show ?thesis by blast
qed

lemma cond_acquire_free:
  "\<not> bit (cond_lock c) 31 \<Longrightarrow> cond_acquire c = Inr (c\<lparr>cond_lock := set_bit 31 (cond_lock c)\<rparr>)"
  by (simp add: cond_acquire_def kspinlock_lock_eq)

lemma release_acquired:
  "\<not> bit l 31 \<Longrightarrow> cond_lock c = set_bit 31 l \<Longrightarrow> cond_release c = c\<lparr>cond_lock := l\<rparr>"
  by (simp add: cond_release_def kspinlock_unlock_def unset_set_31)


text \<open>Two waiting threads, the second of them signalled.\<close>

definition two_waiters :: kcondition where
  "two_waiters = \<lparr>cond_lock = 0, entry_next = 2, entry_array = (\<lambda>_. \<lparr>ce_thread = 0, ce_mutex_count = 0, ce_flags = 0\<rparr>)
     (0 := \<lparr>ce_thread = 4, ce_mutex_count = 1, ce_flags = 0\<rparr>, 1 := \<lparr>ce_thread = 5, ce_mutex_count = 3, ce_flags = 1\<rparr>)\<rparr>"


section \<open>Signals\<close>

lemma resume_current:
  assumes "threads s (current_thread s) = Some t" "\<not> bit (kthread_spinlock s) 31"
  shows "kthread_resume (t_tid t) s = thread_switch (put_thread (current_thread s)
     (t\<lparr>t_status := t_status t AND NOT STATUS_SUSPEND\<rparr>) s)"
  by (simp add: kthread_resume_def on_thread_current [OF assms] switch_if_current_def put_thread_def)

text \<open>
  A signal to a thread that waits never arrives: the thread is not the current one, so that
  \<^verbatim>\<open>kthread_resume\<close> faults with the locks of the condition and of the threads held.
\<close>

lemma resume_other:
  assumes "threads s (current_thread s) = Some t" "\<not> bit (kthread_spinlock s) 31"
    "thread_list s = 0" "threads s 0 = None" "tid \<noteq> t_tid t"
  shows "kthread_resume tid s = Inl (Page_Fault 0)"
  using assms by (simp add: kthread_resume_def on_thread_def thread_lock_def kspinlock_lock_eq find_thread_def
    thread_at_def iterate_leave)

lemma signal_faults:
  assumes "\<not> bit (cond_lock c) 31" "waiters c = e # es" "kthread_resume (ce_thread e) s = Inl (Page_Fault 0)"
  shows "kcondition_signal c s = Inl (Page_Fault 0) \<and> kcondition_broadcast c s = Inl (Page_Fault 0)"
proof -
  have ne: "entry_next c \<noteq> 0" using arg_cong [OF assms(2), of length] by auto
  moreover have "entry_array c 0 = e"
    using waiters_nth [of 0 c] assms(2) ne by (simp add: unat_gt_0)
  ultimately show ?thesis using assms(1,3)
    by (simp add: kcondition_signal_def kcondition_broadcast_def cond_acquire_free mark_and_resume_def Let_def
      iterate_stop word_neq_0_conv)
qed

text \<open>
  C32: waking a waiting thread does not work. With nobody waiting a signal or a broadcast returns 0 and
  changes nothing; with a waiting thread other than the caller at the head of the queue both fault at
  address 0, because \<^verbatim>\<open>kthread_resume\<close> cannot find the thread.
\<close>
theorem signal_never_wakes:
  assumes "\<not> bit (cond_lock c) 31"
    and "threads s (current_thread s) = Some t" and "\<not> bit (kthread_spinlock s) 31"
    and "thread_list s = 0" and "threads s 0 = None"
  shows "(waiters c = [] \<longrightarrow> kcondition_signal c s = Inr (0, c, s) \<and> kcondition_broadcast c s = Inr (0, c, s)) \<and>
    (\<forall>e es. waiters c = e # es \<longrightarrow> ce_thread e \<noteq> t_tid t \<longrightarrow>
      kcondition_signal c s = Inl (Page_Fault 0) \<and> kcondition_broadcast c s = Inl (Page_Fault 0))"
proof (intro conjI allI impI)
  fix e es assume "waiters c = e # es" "ce_thread e \<noteq> t_tid t"
  then show "kcondition_signal c s = Inl (Page_Fault 0)" "kcondition_broadcast c s = Inl (Page_Fault 0)"
    using signal_faults [OF assms(1)] resume_other [OF assms(2-5)] by blast+
next
  assume "waiters c = []"
  then have "entry_next c = 0" by (metis list.size(3) unat_eq_zero waiters_length)
  then show "kcondition_signal c s = Inr (0, c, s)" "kcondition_broadcast c s = Inr (0, c, s)"
    using assms(1) by (simp_all add: kcondition_signal_def kcondition_broadcast_def cond_acquire_free
      iterate_leave release_acquired)
qed

theorem signal_never_wakes_witness:
  "kcondition_signal two_waiters two_threads = Inl (Page_Fault 0) \<and>
    kcondition_broadcast two_waiters two_threads = Inl (Page_Fault 0)"
proof -
  have w: "waiters two_waiters = \<lparr>ce_thread = 4, ce_mutex_count = 1, ce_flags = 0\<rparr> #
      [\<lparr>ce_thread = 5, ce_mutex_count = 3, ce_flags = 1\<rparr>]"
    by (simp add: waiters_def two_waiters_def upt_rec)
  obtain t where t: "threads two_threads (current_thread two_threads) = Some t" "t_tid t = 1"
    by (simp add: two_threads_def blank_thread_def)
  have f: "\<not> bit (cond_lock two_waiters) 31" by (simp add: two_waiters_def)
  have "\<not> bit (kthread_spinlock two_threads) 31" "thread_list two_threads = 0" "threads two_threads 0 = None"
    by (simp_all add: two_threads_def)
  from signal_never_wakes [OF f t(1) this] w t(2) show ?thesis by simp
qed

end
