(* ===== verification/Timer.thy ===== *)
theory Timer
  imports Thread "HOL-Library.Product_Lexorder"
begin

unbundle bit_operations_syntax

text \<open>
  \<^verbatim>\<open>arch/ia32/timer.c\<close>: the list of timers in memory, its insertion and the turns of the timer thread.
  A \<^verbatim>\<open>struct timer\<close> is a record stored under its address; the head \<^verbatim>\<open>timer_list\<close> is one of them.
\<close>

section \<open>State\<close>

record timer =
  tm_next :: u32
  tm_timer :: u32
  tm_function :: u32
  tm_data :: u32
  tm_second :: u64
  tm_nanosecond :: u32

record timers =
  timer_nodes :: "u32 \<Rightarrow> timer option"
  timer_list :: u32   \<comment> \<open>the address of the head\<close>
  timer_count :: u32
  ktimer_spinlock :: u32
  tm_clock :: clock
  tm_memory :: kmem

definition node_at :: "u32 \<Rightarrow> timers \<Rightarrow> stop + timer" where
  "node_at p s = (case timer_nodes s p of None \<Rightarrow> Inl (Page_Fault p) | Some t \<Rightarrow> Inr t)"

definition put_node :: "u32 \<Rightarrow> timer \<Rightarrow> timers \<Rightarrow> timers" where
  "put_node p t s = s\<lparr>timer_nodes := (timer_nodes s)(p \<mapsto> t)\<rparr>"

definition timer_lock :: "timers \<Rightarrow> stop + timers" where
  "timer_lock s = andthen (kspinlock_lock (ktimer_spinlock s)) (\<lambda>l. Inr (s\<lparr>ktimer_spinlock := l\<rparr>))"

definition timer_unlock :: "timers \<Rightarrow> timers" where
  "timer_unlock s = s\<lparr>ktimer_spinlock := kspinlock_unlock (ktimer_spinlock s)\<rparr>"

section \<open>The routines\<close>

text \<open>The test of the loop: the new timer is not later than \<open>c\<close>.\<close>

definition not_later :: "u64 \<Rightarrow> u32 \<Rightarrow> timer \<Rightarrow> bool" where
  "not_later second nanosecond c \<longleftrightarrow>
     sint second < sint (tm_second c) \<or>
     second = tm_second c \<and> sint nanosecond \<le> sint (tm_nanosecond c)"

text \<open>The loop over \<^verbatim>\<open>p\<close> and \<^verbatim>\<open>c\<close>.\<close>

definition find_place :: "u64 \<Rightarrow> u32 \<Rightarrow> timers \<Rightarrow> u32 \<times> u32 \<Rightarrow> stop + (u32 \<times> u32)" where
  "find_place second nanosecond s =
     iterate (\<lambda>(p, c).
       if c = 0 then Inr (Inr (p, c))
       else andthen (node_at c s) (\<lambda>t.
         if not_later second nanosecond t then Inr (Inr (p, c)) else Inr (Inl (c, tm_next t))))"

definition ktimer_add :: "u32 \<Rightarrow> u32 \<Rightarrow> u64 \<Rightarrow> u32 \<Rightarrow> timers \<Rightarrow> stop + (u32 \<times> timers)" where
  "ktimer_add function data second nanosecond s =
     andthen (timer_lock s) (\<lambda>s1.
     andthen (ktime_get (tm_clock s1)) (\<lambda>((now_second, now_nanosecond), clk).
     let local_second = now_second + second;
         local_nanosecond = now_nanosecond + nanosecond;
         s2 = s1\<lparr>tm_clock := clk\<rparr>
     in andthen (node_at (timer_list s2) s2) (\<lambda>h.
        andthen (find_place local_second local_nanosecond s2 (timer_list s2, tm_next h)) (\<lambda>(p, c).
        andthen (kmemory_virtual_page_allocate 1 0 (tm_memory s2)) (\<lambda>(n, m).
        let s3 = s2\<lparr>tm_memory := m\<rparr>
        in if n \<noteq> 0 then
             andthen (node_at p s3) (\<lambda>pt.
             let count = timer_count s3 + 1;
                 t = \<lparr>tm_next = c, tm_timer = count, tm_function = function, tm_data = data,
                   tm_second = local_second, tm_nanosecond = local_nanosecond\<rparr>;
                 s4 = put_node n t (put_node p (pt\<lparr>tm_next := n\<rparr>) s3)
             in Inr (count, timer_unlock (s4\<lparr>timer_count := count\<rparr>)))
           else Inr (0, timer_unlock s3))))))"

definition ktimer_remove :: "u32 \<Rightarrow> timers \<Rightarrow> timers" where
  "ktimer_remove timer s = s"

text \<open>\<^verbatim>\<open>ktimer_init\<close>; \<open>timer_thread\<close> and \<open>kill_current\<close> are the addresses of the functions.\<close>

definition ktimer_init :: "u32 \<Rightarrow> u32 \<Rightarrow> sched \<Rightarrow> stop + (u32 \<times> sched)" where
  "ktimer_init timer_thread kill_current s = kthread_create kill_current timer_thread 0 0 s"

text \<open>
  One turn of \<^verbatim>\<open>timer_thread\<close>, up to the call of the timer's function, which it reports with its
  argument, or up to \<^verbatim>\<open>kthread_yield\<close> (\<open>None\<close>).
\<close>

definition timer_thread_turn :: "timers \<Rightarrow> stop + ((u32 \<times> u32) option \<times> timers)" where
  "timer_thread_turn s =
     andthen (timer_lock s) (\<lambda>s1.
     andthen (node_at (timer_list s1) s1) (\<lambda>h.
     let c = tm_next h
     in andthen (ktime_get (tm_clock s1)) (\<lambda>((now_second, now_nanosecond), clk).
     let s2 = s1\<lparr>tm_clock := clk\<rparr>
     in if c = 0 then Inr (None, timer_unlock s2)
        else andthen (node_at c s2) (\<lambda>t.
          if sint (tm_second t) < sint now_second \<or>
             tm_second t = now_second \<and> sint (tm_nanosecond t) \<le> sint now_nanosecond then
            (let s3 = put_node (timer_list s2) (h\<lparr>tm_next := tm_next t\<rparr>) s2
             in andthen (kmemory_virtual_page_unallocate c (tm_memory s3)) (\<lambda>m.
                Inr (Some (tm_function t, tm_data t),
                  timer_unlock (s3\<lparr>tm_memory := m, timer_nodes := (timer_nodes s3)(c := None)\<rparr>))))
          else Inr (None, timer_unlock s2)))))"

section \<open>The list\<close>

text \<open>Following \<^verbatim>\<open>next\<close> from \<open>x\<close> visits the nodes \<open>as\<close> and arrives at \<open>y\<close>.\<close>

primrec timer_path :: "(u32 \<Rightarrow> timer option) \<Rightarrow> u32 \<Rightarrow> (u32 \<times> timer) list \<Rightarrow> u32 \<Rightarrow> bool" where
  "timer_path ts x [] y \<longleftrightarrow> x = y"
| "timer_path ts x (n # ns) y \<longleftrightarrow> x = fst n \<and> fst n \<noteq> 0 \<and> ts (fst n) = Some (snd n) \<and>
     timer_path ts (tm_next (snd n)) ns y"

text \<open>The nodes behind the head, which is \<open>h\<close>; the locks are free.\<close>

definition timer_queue :: "timers \<Rightarrow> timer \<Rightarrow> (u32 \<times> timer) list \<Rightarrow> bool" where
  "timer_queue s h ns \<longleftrightarrow> timer_path (timer_nodes s) (timer_list s) ((timer_list s, h) # ns) 0 \<and>
     distinct (timer_list s # map fst ns) \<and> \<not> bit (ktimer_spinlock s) 31 \<and> \<not> bit (ktime_spinlock (tm_clock s)) 31"

text \<open>When a timer is due, and what it is apart from its place in memory.\<close>

definition timer_key :: "timer \<Rightarrow> int \<times> int" where
  "timer_key t = (sint (tm_second t), sint (tm_nanosecond t))"

definition timer_entry :: "timer \<Rightarrow> (int \<times> int) \<times> u32 \<times> u32 \<times> u32" where
  "timer_entry t = (timer_key t, tm_timer t, tm_function t, tm_data t)"

abbreviation (input) entries :: "(u32 \<times> timer) list \<Rightarrow> ((int \<times> int) \<times> u32 \<times> u32 \<times> u32) list" where
  "entries ns \<equiv> map (\<lambda>n. timer_entry (snd n)) ns"

lemma not_later_key: "not_later sec ns c \<longleftrightarrow> (sint sec, sint ns) \<le> timer_key c"
  by (auto simp: not_later_def timer_key_def less_eq_prod_def signed_word_eqI)

lemma timer_path_append: "timer_path ts x (as @ bs) y \<longleftrightarrow> (\<exists>z. timer_path ts x as z \<and> timer_path ts z bs y)"
  by (induction as arbitrary: x) auto

lemma timer_path_outside: "a \<notin> fst ` set as \<Longrightarrow> timer_path (ts(a := v)) x as y = timer_path ts x as y"
  by (induction as arbitrary: x) auto

lemma insort_key_split:
  assumes "\<forall>u\<in>set us. \<not> f x \<le> f u" "vs \<noteq> [] \<longrightarrow> f x \<le> f (hd vs)"
  shows "insort_key f x (us @ vs) = us @ x # vs"
  using assms by (induction us) (auto simp: neq_Nil_conv intro: list.exhaust [of vs])

lemma find_place_path:
  assumes "timer_path (timer_nodes s) x ns 0"
  shows "\<exists>us vs y. ns = us @ vs \<and> timer_path (timer_nodes s) x us y \<and> timer_path (timer_nodes s) y vs 0 \<and>
    find_place sec nsec s (p, x) = Inr (last (p # map fst us), y) \<and>
    (\<forall>u\<in>set us. \<not> not_later sec nsec (snd u)) \<and> (vs \<noteq> [] \<longrightarrow> not_later sec nsec (snd (hd vs)))"
  using assms
proof (induction ns arbitrary: p x)
  case Nil
  then show ?case by (simp add: find_place_def iterate_leave)
next
  case (Cons n ns)
  then have n: "x = fst n" "fst n \<noteq> 0" "timer_nodes s (fst n) = Some (snd n)"
    "timer_path (timer_nodes s) (tm_next (snd n)) ns 0" by auto
  show ?case
  proof (cases "not_later sec nsec (snd n)")
    case True
    then have "find_place sec nsec s (p, x) = Inr (p, x)"
      unfolding find_place_def using n by (intro iterate_leave) (simp add: node_at_def)
    with True Cons.prems show ?thesis
      by (intro exI [of _ "[]"] exI [of _ "n # ns"] exI [of _ x]) auto
  next
    case False
    then have step: "find_place sec nsec s (p, x) = find_place sec nsec s (x, tm_next (snd n))"
      unfolding find_place_def using n by (intro iterate_go) (simp add: node_at_def)
    from Cons.IH [OF n(4), of x] obtain us vs y where "ns = us @ vs"
      "timer_path (timer_nodes s) (tm_next (snd n)) us y" "timer_path (timer_nodes s) y vs 0"
      "find_place sec nsec s (x, tm_next (snd n)) = Inr (last (x # map fst us), y)"
      "\<forall>u\<in>set us. \<not> not_later sec nsec (snd u)" "vs \<noteq> [] \<longrightarrow> not_later sec nsec (snd (hd vs))" by auto
    with False n step show ?thesis by (intro exI [of _ "n # us"] exI [of _ vs] exI [of _ y]) auto
  qed
qed

text \<open>A node linked in behind \<open>p\<close>.\<close>

lemma timer_path_insert:
  assumes "timer_path ts x (ps @ [(p, pt)]) y" "timer_path ts y vs z"
    and "distinct (map fst (ps @ [(p, pt)] @ vs))" "n \<notin> fst ` set (ps @ [(p, pt)] @ vs)" "n \<noteq> 0" "tm_next t = y"
  shows "timer_path (ts(p \<mapsto> pt\<lparr>tm_next := n\<rparr>, n \<mapsto> t)) x (ps @ [(p, pt\<lparr>tm_next := n\<rparr>)] @ (n, t) # vs) z"
  using assms by (auto simp: timer_path_append timer_path_outside image_iff)

lemma timer_lock_free:
  "\<not> bit (ktimer_spinlock s) 31 \<Longrightarrow> timer_lock s = Inr (s\<lparr>ktimer_spinlock := set_bit 31 (ktimer_spinlock s)\<rparr>)"
  by (simp add: timer_lock_def kspinlock_lock_eq)

lemma timer_unlock_locked:
  "\<not> bit l 31 \<Longrightarrow> ktimer_spinlock s = set_bit 31 l \<Longrightarrow> timer_unlock s = s\<lparr>ktimer_spinlock := l\<rparr>"
  by (simp add: timer_unlock_def kspinlock_unlock_def unset_set_31)

text \<open>
  C18: \<^verbatim>\<open>ktimer_add\<close> is insertion into a sorted list. The timer gets the next number and the sum of the
  current time and the delay as its time, and is inserted before the first timer that is not earlier,
  so that a sorted list stays sorted and a timer comes before those of the same time; the other timers
  are unchanged. When no page can be had the result is 0 and the list is as before.
\<close>
theorem ktimer_add_inserts_sorted:
  assumes q: "timer_queue s h ns"
    and "kmemory_virtual_page_allocate 1 0 (tm_memory s) = Inr (n, m)" and "n \<notin> fst ` set ((timer_list s, h) # ns)"
    and t: "timer_key t = (sint (current_second (tm_clock s) + second), sint (current_nanosecond (tm_clock s) + nanosecond))"
      "tm_timer t = timer_count s + 1" "tm_function t = function" "tm_data t = data"
  shows "(n = 0 \<longrightarrow> ktimer_add function data second nanosecond s = Inr (0, s\<lparr>tm_memory := m\<rparr>)) \<and>
    (n \<noteq> 0 \<longrightarrow> (\<exists>s' h' ns'. ktimer_add function data second nanosecond s = Inr (timer_count s + 1, s') \<and>
      timer_queue s' h' ns' \<and> timer_list s' = timer_list s \<and>
      entries ns' = insort_key fst (timer_entry t) (entries ns) \<and>
      (sorted (map (\<lambda>n. timer_key (snd n)) ns) \<longrightarrow> sorted (map (\<lambda>n. timer_key (snd n)) ns'))))"
proof -
  let ?L = "timer_list s"
  let ?sec = "current_second (tm_clock s) + second"
  let ?nsec = "current_nanosecond (tm_clock s) + nanosecond"
  let ?l = "ktimer_spinlock s"
  let ?s = "s\<lparr>ktimer_spinlock := set_bit 31 ?l\<rparr>"
  have L: "timer_nodes s ?L = Some h" "?L \<noteq> 0" "timer_path (timer_nodes s) (tm_next h) ns 0"
    and d: "distinct (?L # map fst ns)" and locks: "\<not> bit ?l 31" "\<not> bit (ktime_spinlock (tm_clock s)) 31"
    using q by (auto simp: timer_queue_def)
  have "timer_path (timer_nodes ?s) (tm_next h) ns 0" using L by simp
  from find_place_path [OF this, of ?sec ?nsec ?L] obtain us vs y where
    ns: "ns = us @ vs" and us: "timer_path (timer_nodes s) (tm_next h) us y"
    and vs: "timer_path (timer_nodes s) y vs 0"
    and fp: "find_place ?sec ?nsec ?s (?L, tm_next h) = Inr (last (?L # map fst us), y)"
    and le: "\<forall>u\<in>set us. \<not> not_later ?sec ?nsec (snd u)" "vs \<noteq> [] \<longrightarrow> not_later ?sec ?nsec (snd (hd vs))"
    by auto
  obtain ps p pt where ps: "(?L, h) # us = ps @ [(p, pt)]" by (metis list.distinct(1) rev_exhaust surj_pair)
  have last: "last (?L # map fst us) = p"
    using arg_cong [OF ps, of "\<lambda>xs. last (map fst xs)"] by simp
  have path: "timer_path (timer_nodes s) ?L (ps @ [(p, pt)]) y"
    unfolding ps [symmetric] using L us by simp
  then have pt: "timer_nodes s p = Some pt" by (simp add: timer_path_append)
  have split: "ps @ [(p, pt)] @ vs = (?L, h) # ns" using ps ns by simp
  let ?t = "\<lparr>tm_next = y, tm_timer = timer_count s + 1, tm_function = function, tm_data = data,
      tm_second = ?sec, tm_nanosecond = ?nsec\<rparr>"
  let ?s' = "s\<lparr>tm_memory := m, timer_nodes := (timer_nodes s)(p \<mapsto> pt\<lparr>tm_next := n\<rparr>, n \<mapsto> ?t),
      timer_count := timer_count s + 1\<rparr>"
  have add: "ktimer_add function data second nanosecond s =
      (if n = 0 then Inr (0, s\<lparr>tm_memory := m\<rparr>) else Inr (timer_count s + 1, ?s'))"
    using assms(2) locks(1) L(1) fp [unfolded last] pt
    by (simp add: ktimer_add_def timer_lock_free ktime_get_free [OF locks(2)] node_at_def put_node_def Let_def
      timer_unlock_locked)
  moreover have "\<exists>h' ns'. timer_queue ?s' h' ns' \<and> entries ns' = insort_key fst (timer_entry t) (entries ns)" if "n \<noteq> 0"
  proof -
    have fresh: "n \<notin> fst ` set (ps @ [(p, pt)] @ vs)" and dist: "distinct (map fst (ps @ [(p, pt)] @ vs))"
      using assms(3) d unfolding split by simp_all
    obtain h' us' where h': "ps @ [(p, pt\<lparr>tm_next := n\<rparr>)] = (?L, h') # us'" "entries us' = entries us"
      "map fst us' = map fst us"
    proof (cases ps)
      case Nil
      with ps show ?thesis using that [of "pt\<lparr>tm_next := n\<rparr>" "[]"] by simp
    next
      case (Cons a ps')
      with ps have "us = ps' @ [(p, pt)]" "a = (?L, h)" by simp_all
      with Cons show ?thesis using that [of h "ps' @ [(p, pt\<lparr>tm_next := n\<rparr>)]"]
        by (simp add: timer_entry_def timer_key_def)
    qed
    let ?ns = "us' @ (n, ?t) # vs"
    have "(?L, h') # ?ns = (ps @ [(p, pt\<lparr>tm_next := n\<rparr>)]) @ (n, ?t) # vs" unfolding h'(1) by simp
    then have eq: "(?L, h') # ?ns = ps @ [(p, pt\<lparr>tm_next := n\<rparr>)] @ (n, ?t) # vs" by simp
    have "timer_path (timer_nodes ?s') ?L ((?L, h') # ?ns) 0"
      unfolding eq using timer_path_insert [OF path vs dist fresh that, of ?t] by simp
    moreover have "distinct (?L # map fst ?ns)" using d assms(3) by (auto simp: h'(3) ns)
    ultimately have "timer_queue ?s' h' ?ns" using locks by (simp add: timer_queue_def)
    moreover have "entries ?ns = insort_key fst (timer_entry t) (entries ns)"
    proof -
      have "timer_entry ?t = timer_entry t" using t by (simp add: timer_entry_def timer_key_def)
      moreover have "insort_key fst (timer_entry t) (entries us @ entries vs) =
          entries us @ timer_entry t # entries vs"
        using le by (intro insort_key_split) (auto simp: not_later_key timer_entry_def t(1) hd_map)
      ultimately show ?thesis by (simp add: ns h'(2))
    qed
    ultimately show ?thesis by blast
  qed
  moreover have "sorted (map (\<lambda>n. timer_key (snd n)) ns) \<longrightarrow> sorted (map (\<lambda>n. timer_key (snd n)) ns')"
    if e: "entries ns' = insort_key fst (timer_entry t) (entries ns)" for ns'
  proof -
    have k: "map (\<lambda>n. timer_key (snd n)) xs = map fst (entries xs)" for xs :: "(u32 \<times> timer) list"
      by (simp add: timer_entry_def)
    show ?thesis unfolding k e by (simp add: sorted_insort_key)
  qed
  ultimately show ?thesis by fastforce
qed

text \<open>
  A memory in which an allocation succeeds: the block of lists at \<open>0x5000\<close> with a free node at
  \<open>0x6000\<close> for one page at \<open>0x10000000\<close>, whose page table is at \<open>0x8000\<close>.
\<close>

definition one_page :: kmem where
  "one_page =
     \<lparr>ram = store32 (store32 (store32 (store32 (\<lambda>_. 0) 0x7100 0x8007) 0x5000 0x6000) 0x6008 1) 0x600C 0x10000000,
      cr3 = 0, paging = False, eflags_reg = 0x202, kmemory_spinlock = 0, vptd = 0x7000, lptd = 0x1000,
      zones = (\<lambda>_. \<lparr>zone_next = 0, zone_start = 0, zone_end = 0\<rparr>),
      virtual_block = 0x5000, virtual_address = 0x10002000\<rparr>"

lemmas one_page_eval = unpaged_access load32_store32_apart apart_def Let_def

lemma one_page_allocates: "\<exists>m. kmemory_virtual_page_allocate 1 0 one_page = Inr (0x10000000, m)"
proof -
  let ?m0 = "one_page\<lparr>kmemory_spinlock := 0x80000000, eflags_reg := cli 0x202\<rparr>"
  have lock: "mem_lock one_page = Inr (0x202, ?m0)"
    by (simp add: mem_lock_def one_page_def kspinlock_lock_irqsave_def spin_loop_eq)
  have head: "rd32 ?m0 (vb_free ?m0) = Inr 0x6000" by (simp add: one_page_def one_page_eval)
  have hit: "search_list ?m0 (\<lambda>p. andthen (rd32 ?m0 (vp_count p)) (\<lambda>c. Inr (1 \<le> c))) (vb_free ?m0) =
      Inr (Some (0x5000, 0x6000))"
    unfolding search_list_def head andthen.simps
    by (subst iterate_leave [where r = "Some (0x5000, 0x6000)"])
      (simp_all add: search_turn_def one_page_def one_page_eval)
  let ?m1 = "?m0\<lparr>ram := store32 (ram one_page) 0x5000 0\<rparr>"
  have unlink: "unlink 0x5000 0x6000 ?m0 = Inr ?m1"
    by (simp add: unlink_def one_page_def one_page_eval)
  have page: "rd32 ?m1 (vp_page 0x6000) = Inr 0x10000000" by (simp add: one_page_def one_page_eval)
  have table: "table_for 64 ?m1 = Inr (0x8000, ?m1)"
    by (simp add: table_for_def one_page_def one_page_eval)
  let ?m2 = "?m1\<lparr>ram := store32 (ram ?m1) 0x8000 VIRTUAL_ASSIGNED\<rparr>"
  have assign: "assign_tables 64 0 VIRTUAL_ASSIGNED 1 ?m1 = Inr (True, ?m2)"
    by (subst assign_tables.simps, simp add: table,
        subst assign_table.simps, simp add: one_page_def one_page_eval)
  show ?thesis
    unfolding kmemory_virtual_page_allocate_def lock andthen.simps prod.case hit option.case unlink page
    by (simp add: assign unat_dir_index unat_table_index,
        simp add: push_list_def mem_unlock_def one_page_def one_page_eval tlb_invalidate_def)
qed

definition one_timer :: timers where
  "one_timer =
     \<lparr>timer_nodes = [0x9000 \<mapsto> \<lparr>tm_next = 0xA000, tm_timer = 0, tm_function = 0, tm_data = 0, tm_second = 0, tm_nanosecond = 0\<rparr>,
        0xA000 \<mapsto> \<lparr>tm_next = 0, tm_timer = 1, tm_function = 0x111, tm_data = 7, tm_second = 200, tm_nanosecond = 0\<rparr>],
      timer_list = 0x9000, timer_count = 1, ktimer_spinlock = 0,
      tm_clock = \<lparr>current_second = 100, current_nanosecond = 5, thread_ticks = 0, time_ticks = 0,
        ktime_spinlock = 0, clock_eflags = 0x202\<rparr>,
      tm_memory = one_page\<rparr>"

lemma one_timer_queue: "timer_queue one_timer
    \<lparr>tm_next = 0xA000, tm_timer = 0, tm_function = 0, tm_data = 0, tm_second = 0, tm_nanosecond = 0\<rparr>
    [(0xA000, \<lparr>tm_next = 0, tm_timer = 1, tm_function = 0x111, tm_data = 7, tm_second = 200, tm_nanosecond = 0\<rparr>)]"
  by (simp add: timer_queue_def one_timer_def)

theorem ktimer_add_inserts_sorted_witness:
  "\<exists>s' h' ns'. ktimer_add 0x222 8 50 0 one_timer = Inr (2, s') \<and> timer_queue s' h' ns' \<and>
    entries ns' = [((150, 5), 2, 0x222, 8), ((200, 0), 1, 0x111, 7)]"
proof -
  let ?t = "\<lparr>tm_next = 0, tm_timer = 2, tm_function = 0x222, tm_data = 8, tm_second = 150, tm_nanosecond = 5\<rparr>"
  obtain m where m: "kmemory_virtual_page_allocate 1 0 (tm_memory one_timer) = Inr (0x10000000, m)"
    using one_page_allocates by (auto simp: one_timer_def)
  have t: "timer_key ?t = (sint (current_second (tm_clock one_timer) + 50), sint (current_nanosecond (tm_clock one_timer) + 0))"
    "tm_timer ?t = timer_count one_timer + 1" "tm_function ?t = 0x222" "tm_data ?t = 8"
    by (simp_all add: timer_key_def one_timer_def)
  have c: "timer_count one_timer + 1 = 2" and l: "timer_list one_timer = 0x9000" by (simp_all add: one_timer_def)
  from ktimer_add_inserts_sorted [OF one_timer_queue m _ t] obtain s' h' ns' where
    "ktimer_add 0x222 8 50 0 one_timer = Inr (2, s')" "timer_queue s' h' ns'"
    "entries ns' = insort_key fst (timer_entry ?t) (entries [(0xA000 :: u32, \<lparr>tm_next = 0, tm_timer = 1,
      tm_function = 0x111, tm_data = 7, tm_second = 200, tm_nanosecond = 0\<rparr>)])"
    by (auto simp: c l)
  moreover have "insort_key fst (timer_entry ?t) (entries [(0xA000 :: u32, \<lparr>tm_next = 0, tm_timer = 1,
      tm_function = 0x111, tm_data = 7, tm_second = 200, tm_nanosecond = 0\<rparr>)]) =
    [((150, 5), 2, 0x222, 8), ((200, 0), 1, 0x111, 7)]"
    by (simp add: timer_entry_def timer_key_def)
  ultimately show ?thesis by metis
qed

section \<open>The timer thread\<close>

text \<open>
  C20: the timer thread serves the timers in order. In a sorted list a turn finds a timer to call
  exactly when some timer is due; the one it takes out of the list and reports, with its argument, is
  the head, so that no other timer is due earlier, and the rest of the list stays as it is. Without a
  due timer the turn changes nothing.
\<close>
theorem timer_thread_serves_in_order:
  assumes q: "timer_queue s h ns" and sorted: "sorted (map (\<lambda>n. timer_key (snd n)) ns)"
  defines "now \<equiv> (sint (current_second (tm_clock s)), sint (current_nanosecond (tm_clock s)))"
  shows "((\<forall>n\<in>set ns. \<not> timer_key (snd n) \<le> now) \<longrightarrow> timer_thread_turn s = Inr (None, s)) \<and>
    ((\<exists>n\<in>set ns. timer_key (snd n) \<le> now) \<longrightarrow>
      (\<exists>c t ts. ns = (c, t) # ts \<and> timer_key t \<le> now \<and> (\<forall>n\<in>set ns. timer_key t \<le> timer_key (snd n)) \<and>
        (\<forall>m. kmemory_virtual_page_unallocate c (tm_memory s) = Inr m \<longrightarrow>
          (\<exists>s' h'. timer_thread_turn s = Inr (Some (tm_function t, tm_data t), s') \<and>
            timer_queue s' h' ts \<and> tm_memory s' = m))))"
proof -
  let ?L = "timer_list s"
  let ?l = "ktimer_spinlock s"
  have L: "timer_nodes s ?L = Some h" "?L \<noteq> 0" "timer_path (timer_nodes s) (tm_next h) ns 0"
    and d: "distinct (?L # map fst ns)" and locks: "\<not> bit ?l 31" "\<not> bit (ktime_spinlock (tm_clock s)) 31"
    using q by (auto simp: timer_queue_def)
  have key: "timer_key t \<le> now \<longleftrightarrow> sint (tm_second t) < sint (current_second (tm_clock s)) \<or>
      tm_second t = current_second (tm_clock s) \<and> sint (tm_nanosecond t) \<le> sint (current_nanosecond (tm_clock s))" for t
    by (auto simp: now_def timer_key_def less_eq_prod_def signed_word_eqI)
  note eval = timer_thread_turn_def timer_lock_free ktime_get_free [OF locks(2)] node_at_def put_node_def Let_def
    timer_unlock_locked
  show ?thesis
  proof (cases ns)
    case Nil
    then have "timer_thread_turn s = Inr (None, s)" using L locks by (simp add: eval)
    with Nil show ?thesis by simp
  next
    case (Cons ct ts)
    then obtain c t where ns: "ns = (c, t) # ts" by (cases ct) simp
    have c: "tm_next h = c" "c \<noteq> 0" "timer_nodes s c = Some t" "timer_path (timer_nodes s) (tm_next t) ts 0"
      using L(3) by (auto simp: ns)
    have min: "\<forall>n\<in>set ns. timer_key t \<le> timer_key (snd n)" using sorted by (auto simp: ns)
    show ?thesis
    proof (cases "timer_key t \<le> now")
      case False
      then have "timer_thread_turn s = Inr (None, s)" using L c locks by (auto simp: eval key)
      moreover have "\<forall>n\<in>set ns. \<not> timer_key (snd n) \<le> now" using False min by (meson order_trans)
      ultimately show ?thesis by blast
    next
      case True
      let ?nodes = "((timer_nodes s)(?L \<mapsto> h\<lparr>tm_next := tm_next t\<rparr>))(c := None)"
      have "\<exists>s' h'. timer_thread_turn s = Inr (Some (tm_function t, tm_data t), s') \<and>
            timer_queue s' h' ts \<and> tm_memory s' = m"
        if m: "kmemory_virtual_page_unallocate c (tm_memory s) = Inr m" for m
      proof -
        have "timer_thread_turn s = Inr (Some (tm_function t, tm_data t), s\<lparr>tm_memory := m, timer_nodes := ?nodes\<rparr>)"
          using L c locks True m by (simp add: eval key)
        moreover have "timer_queue (s\<lparr>tm_memory := m, timer_nodes := ?nodes\<rparr>) (h\<lparr>tm_next := tm_next t\<rparr>) ts"
          using L c locks d by (auto simp: timer_queue_def ns timer_path_outside)
        ultimately show ?thesis by force
      qed
      with True min ns show ?thesis by auto
    qed
  qed
qed

lemma one_page_unallocates: "kmemory_virtual_page_unallocate 0xA000 one_page = Inr one_page"
proof -
  let ?m0 = "one_page\<lparr>kmemory_spinlock := 0x80000000, eflags_reg := cli 0x202\<rparr>"
  have lock: "mem_lock one_page = Inr (0x202, ?m0)"
    by (simp add: mem_lock_def one_page_def kspinlock_lock_irqsave_def spin_loop_eq)
  have head: "rd32 ?m0 (vb_used ?m0) = Inr 0" by (simp add: one_page_def one_page_eval)
  have miss: "search_list ?m0 (\<lambda>p. andthen (rd32 ?m0 (vp_page p)) (\<lambda>page. Inr (page = 0xA000))) (vb_used ?m0) = Inr None"
    unfolding search_list_def head andthen.simps
    by (subst iterate_leave [where r = None]) (simp_all add: search_turn_def)
  show ?thesis
    unfolding kmemory_virtual_page_unallocate_def lock andthen.simps prod.case miss option.case
    by (simp add: mem_unlock_def kspinlock_unlock_irqrestore_def one_page_def Let_def)
qed

theorem timer_thread_serves_in_order_witness:
  "\<exists>s' h'. timer_thread_turn (one_timer\<lparr>tm_clock := (tm_clock one_timer)\<lparr>current_second := 300\<rparr>\<rparr>) =
      Inr (Some (0x111, 7), s') \<and> timer_queue s' h' []"
proof -
  let ?s = "one_timer\<lparr>tm_clock := (tm_clock one_timer)\<lparr>current_second := 300\<rparr>\<rparr>"
  let ?t = "\<lparr>tm_next = 0, tm_timer = 1, tm_function = 0x111, tm_data = 7, tm_second = 200, tm_nanosecond = 0\<rparr>"
  have q: "timer_queue ?s
      \<lparr>tm_next = 0xA000, tm_timer = 0, tm_function = 0, tm_data = 0, tm_second = 0, tm_nanosecond = 0\<rparr> [(0xA000, ?t)]"
    using one_timer_queue by (simp add: timer_queue_def)
  have "sorted (map (\<lambda>n. timer_key (snd n)) [(0xA000 :: u32, ?t)])" by simp
  note serve = timer_thread_serves_in_order [OF q this, THEN conjunct2, rule_format]
  have "\<exists>n\<in>set [(0xA000 :: u32, ?t)]. timer_key (snd n) \<le>
      (sint (current_second (tm_clock ?s)), sint (current_nanosecond (tm_clock ?s)))"
    by (simp add: timer_key_def one_timer_def)
  from serve [OF this] one_page_unallocates show ?thesis by (auto simp: one_timer_def)
qed

end
