(* ===== verification/Irq.thy ===== *)
theory Irq
  imports Ioport Thread
begin

unbundle bit_operations_syntax

text \<open>
  \<^verbatim>\<open>arch/ia32/irq.c\<close>: the interrupt handlers, the cached mask, and the programming of the pair of
  interrupt controllers (PIC), which sits behind the ports of a \<open>bus\<close>. What the code relies on of the
  controllers is a locale, which the documented behaviour of the 8259A fulfils.
\<close>

section \<open>State\<close>

record irqs =
  interrupt_handler :: "nat \<Rightarrow> u32"
  cached_irq_mask :: u32
  kirq_spinlock :: u32
  idt :: "nat \<Rightarrow> u16"

definition cached_21 :: "irqs \<Rightarrow> u8" where
  "cached_21 k = ucast (cached_irq_mask k)"

definition cached_A1 :: "irqs \<Rightarrow> u8" where
  "cached_A1 k = ucast (drop_bit 8 (cached_irq_mask k))"

definition irq_lock :: "irqs \<Rightarrow> stop + irqs" where
  "irq_lock k = andthen (kspinlock_lock (kirq_spinlock k)) (\<lambda>l. Inr (k\<lparr>kirq_spinlock := l\<rparr>))"

definition irq_unlock :: "irqs \<Rightarrow> irqs" where
  "irq_unlock k = k\<lparr>kirq_spinlock := kspinlock_unlock (kirq_spinlock k)\<rparr>"

text \<open>\<^verbatim>\<open>1 << irq\<close>: the processor takes the count modulo 32.\<close>

definition irq_bit :: "u32 \<Rightarrow> u32" where
  "irq_bit irq = push_bit (unat irq mod 32) 1"

section \<open>The routines\<close>

text \<open>The words that start the two controllers: ICW1 to ICW4.\<close>

definition pic_words :: "'d bus \<Rightarrow> 'd \<Rightarrow> 'd" where
  "pic_words bus d =
     kioport_out_kuint8 bus 0xA1 0x01 (kioport_out_kuint8 bus 0x21 0x01
    (kioport_out_kuint8 bus 0xA1 0x02 (kioport_out_kuint8 bus 0x21 0x04
    (kioport_out_kuint8 bus 0xA1 0x28 (kioport_out_kuint8 bus 0x21 0x20
    (kioport_out_kuint8 bus 0xA0 0x11 (kioport_out_kuint8 bus 0x20 0x11 d)))))))"

definition kirq_init :: "'d bus \<Rightarrow> irqs \<times> 'd \<Rightarrow> irqs \<times> 'd" where
  "kirq_init bus = (\<lambda>(k, d).
     let k1 = k\<lparr>idt := fold (\<lambda>i t. t(i * 4 + 1 := 0x0010, i * 4 + 2 := 0x8E00)) [0..<49] (idt k),
                cached_irq_mask := 0xFFFB\<rparr>
     in (k1, kioport_out_kuint8 bus 0xA1 (cached_A1 k1) (kioport_out_kuint8 bus 0x21 (cached_21 k1)
          (pic_words bus d))))"

text \<open>OCW1: the half of the mask that holds the interrupt goes to its controller.\<close>

definition write_mask :: "'d bus \<Rightarrow> u32 \<Rightarrow> irqs \<Rightarrow> 'd \<Rightarrow> 'd" where
  "write_mask bus irq k d =
     (if irq AND 8 \<noteq> 0 then kioport_out_kuint8 bus 0xA1 (cached_A1 k) d
      else kioport_out_kuint8 bus 0x21 (cached_21 k) d)"

definition kirq_enable_irq_internal :: "'d bus \<Rightarrow> u32 \<Rightarrow> irqs \<times> 'd \<Rightarrow> irqs \<times> 'd" where
  "kirq_enable_irq_internal bus irq = (\<lambda>(k, d).
     let k1 = k\<lparr>cached_irq_mask := cached_irq_mask k AND NOT (irq_bit irq)\<rparr> in (k1, write_mask bus irq k1 d))"

definition kirq_disable_irq_internal :: "'d bus \<Rightarrow> u32 \<Rightarrow> irqs \<times> 'd \<Rightarrow> irqs \<times> 'd" where
  "kirq_disable_irq_internal bus irq = (\<lambda>(k, d).
     let k1 = k\<lparr>cached_irq_mask := cached_irq_mask k OR irq_bit irq\<rparr> in (k1, write_mask bus irq k1 d))"

text \<open>The shape of the four public routines: the lock around a body.\<close>

definition with_irq_lock :: "(irqs \<times> 'd \<Rightarrow> 'r \<times> irqs \<times> 'd) \<Rightarrow> irqs \<times> 'd \<Rightarrow> stop + ('r \<times> irqs \<times> 'd)" where
  "with_irq_lock body = (\<lambda>(k, d).
     andthen (irq_lock k) (\<lambda>k1. let (r, k2, d2) = body (k1, d) in Inr (r, irq_unlock k2, d2)))"

definition kirq_enable_irq :: "'d bus \<Rightarrow> u32 \<Rightarrow> irqs \<times> 'd \<Rightarrow> stop + (unit \<times> irqs \<times> 'd)" where
  "kirq_enable_irq bus irq = with_irq_lock (\<lambda>kd. ((), kirq_enable_irq_internal bus irq kd))"

definition kirq_disable_irq :: "'d bus \<Rightarrow> u32 \<Rightarrow> irqs \<times> 'd \<Rightarrow> stop + (unit \<times> irqs \<times> 'd)" where
  "kirq_disable_irq bus irq = with_irq_lock (\<lambda>kd. ((), kirq_disable_irq_internal bus irq kd))"

definition kirq_assign_irq :: "'d bus \<Rightarrow> u32 \<Rightarrow> u32 \<Rightarrow> irqs \<times> 'd \<Rightarrow> stop + (u32 \<times> irqs \<times> 'd)" where
  "kirq_assign_irq bus irq handler = with_irq_lock (\<lambda>(k, d).
     if irq < 16 \<and> interrupt_handler k (unat (irq + 32)) = 0 then
       (1, kirq_enable_irq_internal bus irq
         (k\<lparr>interrupt_handler := (interrupt_handler k)(unat (irq + 32) := handler)\<rparr>, d))
     else (0, k, d))"

definition kirq_unassign_irq :: "'d bus \<Rightarrow> u32 \<Rightarrow> irqs \<times> 'd \<Rightarrow> stop + (unit \<times> irqs \<times> 'd)" where
  "kirq_unassign_irq bus irq = with_irq_lock (\<lambda>(k, d).
     ((), if irq < 16 then
         (let (k1, d1) = kirq_disable_irq_internal bus irq (k, d)
          in (k1\<lparr>interrupt_handler := (interrupt_handler k1)(unat (irq + 32) := 0)\<rparr>, d1))
       else (k, d)))"

text \<open>\<^verbatim>\<open>sti\<close> and \<^verbatim>\<open>cli\<close>, on the flags register.\<close>

definition kirq_enable_all :: "u32 \<Rightarrow> u32" where
  "kirq_enable_all flags = set_bit 9 flags"

definition kirq_disable_all :: "u32 \<Rightarrow> u32" where
  "kirq_disable_all flags = cli flags"

text \<open>
  The effect of \<^verbatim>\<open>handle_exception\<close> on the threads: it kills the current one. The whole routine, with
  the report it prints first, is \<open>exception_handler\<close> of the theory \<open>Report\<close>.
\<close>

definition handle_exception :: "sched \<Rightarrow> stop + sched" where
  "handle_exception s = kthread_kill_current s"

text \<open>
  \<^verbatim>\<open>handle_irq\<close> comes to its end, or kills the interrupted thread on the way, so that the rest of the
  handler is never run. \<open>call\<close> runs the handler at an address.
\<close>

datatype 'd irq_outcome = Handled irqs 'd sched | Killed irqs 'd sched

text \<open>The interrupt is masked and acknowledged.\<close>

definition acknowledge :: "'d bus \<Rightarrow> u32 \<Rightarrow> irqs \<times> 'd \<Rightarrow> irqs \<times> 'd" where
  "acknowledge bus irq = (\<lambda>(k, d).
     let k1 = k\<lparr>cached_irq_mask := cached_irq_mask k OR irq_bit irq\<rparr>
     in (k1, if irq AND 8 \<noteq> 0 then
           kioport_out_kuint8 bus 0x20 0x62 (kioport_out_kuint8 bus 0xA0 (0x60 + ucast (irq AND 7))
             (kioport_out_kuint8 bus 0xA1 (cached_A1 k1) d))
         else kioport_out_kuint8 bus 0x20 (0x60 + ucast irq) (kioport_out_kuint8 bus 0x21 (cached_21 k1) d)))"

definition handle_irq :: "'d bus \<Rightarrow>
    (u32 \<Rightarrow> u32 \<Rightarrow> irqs \<times> 'd \<times> sched \<Rightarrow> stop + (u32 \<times> irqs \<times> 'd \<times> sched)) \<Rightarrow>
    u32 \<Rightarrow> irqs \<times> 'd \<times> sched \<Rightarrow> stop + 'd irq_outcome" where
  "handle_irq bus call number = (\<lambda>(k, d, s).
     let irq = number - 32 in
     andthen (irq_lock k) (\<lambda>k1.
     let (k2, d2) = acknowledge bus irq (k1, d) in
     if interrupt_handler k2 (unat number) \<noteq> 0 then
       andthen (call (interrupt_handler k2 (unat number)) irq (k2, d2, s)) (\<lambda>(rc, k3, d3, s3).
       andthen (kirq_enable_irq bus irq (irq_unlock k3, d3)) (\<lambda>(u, k4, d4).
       if rc \<noteq> 0 then andthen (kthread_yield s3) (\<lambda>s4. Inr (Handled k4 d4 s4))
       else Inr (Handled k4 d4 s3)))
     else andthen (handle_exception s) (\<lambda>s3. Inr (Killed k2 d2 s3))))"

section \<open>Masks and locks\<close>

lemma bit_irq_bit: "bit (irq_bit irq) n \<longleftrightarrow> n = unat irq mod 32"
proof -
  have "unat irq mod 32 < 32" by simp
  then show ?thesis by (auto simp: irq_bit_def bit_simps)
qed

lemma irq_lock_free: "\<not> bit (kirq_spinlock k) 31 \<Longrightarrow>
    irq_lock k = Inr (k\<lparr>kirq_spinlock := set_bit 31 (kirq_spinlock k)\<rparr>)"
  by (simp add: irq_lock_def kspinlock_lock_eq)

lemma irq_lock_held: "bit (kirq_spinlock k) 31 \<Longrightarrow> irq_lock k = Inl Spins"
  by (simp add: irq_lock_def kspinlock_lock_eq)

text \<open>What a body under the lock does to the state that the lock is no part of.\<close>

lemma with_irq_lock_free:
  assumes "\<not> bit (kirq_spinlock k) 31"
    and "body (k\<lparr>kirq_spinlock := set_bit 31 (kirq_spinlock k)\<rparr>, d) = (r, k1, d1)"
    and "kirq_spinlock k1 = set_bit 31 (kirq_spinlock k)"
  shows "with_irq_lock body (k, d) = Inr (r, k1\<lparr>kirq_spinlock := kirq_spinlock k\<rparr>, d1)"
  using assms by (simp add: with_irq_lock_def irq_lock_free irq_unlock_def kspinlock_unlock_def unset_set_31)

section \<open>The contract of the controllers\<close>

text \<open>The controllers are started and mask exactly what the cached mask says.\<close>

definition mask_in_sync :: "('d \<Rightarrow> bool) \<Rightarrow> ('d \<Rightarrow> u16) \<Rightarrow> irqs \<Rightarrow> 'd \<Rightarrow> bool" where
  "mask_in_sync running imr k d \<longleftrightarrow> running d \<and> (\<forall>n<16. bit (imr d) n = bit (cached_irq_mask k) n)"

text \<open>Handlers that leave the controllers and the lock alone.\<close>

definition polite :: "('d \<Rightarrow> bool) \<Rightarrow> ('d \<Rightarrow> u16) \<Rightarrow>
    (u32 \<Rightarrow> u32 \<Rightarrow> irqs \<times> 'd \<times> sched \<Rightarrow> stop + (u32 \<times> irqs \<times> 'd \<times> sched)) \<Rightarrow> bool" where
  "polite running imr call \<longleftrightarrow> (\<forall>h irq k d s rc k1 d1 s1. call h irq (k, d, s) = Inr (rc, k1, d1, s1) \<longrightarrow>
     (mask_in_sync running imr k d \<longrightarrow> mask_in_sync running imr k1 d1) \<and> kirq_spinlock k1 = kirq_spinlock k)"

text \<open>
  What the code relies on: once started (\<open>running\<close>), a write to a data port sets that controller's mask
  register, a specific end of interrupt on a command port leaves the masks alone, and the starting
  sequence starts both controllers. \<open>imr\<close> are the mask registers, the second controller's above the
  first one's.
\<close>

locale pic_contract =
  fixes bus :: "'d bus" and running :: "'d \<Rightarrow> bool" and imr :: "'d \<Rightarrow> u16"
  assumes started: "running (pic_words bus d)"
    and mask_first: "running d \<Longrightarrow> running (out8 bus 0x21 v d) \<and>
      (\<forall>n<16. bit (imr (out8 bus 0x21 v d)) n = (if n < 8 then bit v n else bit (imr d) n))"
    and mask_second: "running d \<Longrightarrow> running (out8 bus 0xA1 v d) \<and>
      (\<forall>n<16. bit (imr (out8 bus 0xA1 v d)) n = (if n < 8 then bit (imr d) n else bit v (n - 8)))"
    and end_first: "running d \<Longrightarrow> v AND 0xF8 = 0x60 \<Longrightarrow> running (out8 bus 0x20 v d) \<and> imr (out8 bus 0x20 v d) = imr d"
    and end_second: "running d \<Longrightarrow> v AND 0xF8 = 0x60 \<Longrightarrow> running (out8 bus 0xA0 v d) \<and> imr (out8 bus 0xA0 v d) = imr d"
begin

abbreviation sync :: "irqs \<Rightarrow> 'd \<Rightarrow> bool" where
  "sync \<equiv> mask_in_sync running imr"

lemmas sync_def = mask_in_sync_def

lemma sync_lock [simp]: "sync (k\<lparr>kirq_spinlock := l\<rparr>) d = sync k d"
    "sync (k\<lparr>interrupt_handler := h\<rparr>) d = sync k d"
  by (simp_all add: sync_def)

lemma half_of_bit: "irq AND 8 = 0 \<longleftrightarrow> even (unat irq mod 32 div 8)" for irq :: u32
proof -
  have "unat irq mod (8 * 4) = 8 * (unat irq div 8 mod 4) + unat irq mod 8" by (rule mod_mult2_eq)
  then have "unat irq mod 32 div 8 = unat irq div 8 mod 4" by simp
  moreover have "even (unat irq div 8 mod 4) = even (unat irq div 8)" by (rule dvd_mod_iff) simp
  moreover have "irq AND 8 = 0 \<longleftrightarrow> \<not> bit irq 3" using and_exp_eq_0_iff_not_bit [of irq 3] by simp
  ultimately show ?thesis by (simp add: bit_unat)
qed

lemma cached_bits: "n < 8 \<Longrightarrow> bit (cached_21 k) n = bit (cached_irq_mask k) n"
    "8 \<le> n \<Longrightarrow> n < 16 \<Longrightarrow> bit (cached_A1 k) (n - 8) = bit (cached_irq_mask k) n"
  by (auto simp: cached_21_def cached_A1_def bit_simps)

lemma sync_write:
  assumes s: "sync k d"
    and same: "\<forall>n<16. n \<noteq> unat irq mod 32 \<longrightarrow> bit (cached_irq_mask k1) n = bit (cached_irq_mask k) n"
  shows "sync k1 (write_mask bus irq k1 d)"
proof (cases "irq AND 8 = 0")
  case True
  have "n \<noteq> unat irq mod 32" if "8 \<le> n" "n < 16" for n
  proof
    assume "n = unat irq mod 32"
    with that have "unat irq mod 32 div 8 = 1" by simp
    with True show False by (simp add: half_of_bit)
  qed
  with True s same show ?thesis
    by (auto simp: write_mask_def kioport_out_kuint8_def sync_def mask_first cached_bits)
next
  case False
  have "n \<noteq> unat irq mod 32" if "n < 8" for n
    using False that by (auto simp: half_of_bit)
  with False s same show ?thesis
    by (auto simp: write_mask_def kioport_out_kuint8_def sync_def mask_second cached_bits)
qed

lemma sync_init: "sync (fst (kirq_init bus kd)) (snd (kirq_init bus kd))"
proof -
  obtain k d where kd: "kd = (k, d)" by (cases kd)
  let ?k = "k\<lparr>idt := fold (\<lambda>i t. t(i * 4 + 1 := 0x0010, i * 4 + 2 := 0x8E00)) [0..<49] (idt k),
      cached_irq_mask := 0xFFFB\<rparr>"
  have "sync ?k (out8 bus 0xA1 (cached_A1 ?k) (out8 bus 0x21 (cached_21 ?k) (pic_words bus d)))"
    using started [of d] by (auto simp: sync_def mask_first mask_second cached_bits)
  then show ?thesis by (simp add: kd kirq_init_def Let_def kioport_out_kuint8_def)
qed

lemma sync_enable: "sync k d \<Longrightarrow> kirq_enable_irq_internal bus irq (k, d) = (k1, d1) \<Longrightarrow>
    sync k1 d1 \<and> k1 = k\<lparr>cached_irq_mask := cached_irq_mask k AND NOT (irq_bit irq)\<rparr>"
  using sync_write [of k d irq] by (auto simp: kirq_enable_irq_internal_def Let_def bit_simps bit_irq_bit)

lemma sync_disable: "sync k d \<Longrightarrow> kirq_disable_irq_internal bus irq (k, d) = (k1, d1) \<Longrightarrow>
    sync k1 d1 \<and> k1 = k\<lparr>cached_irq_mask := cached_irq_mask k OR irq_bit irq\<rparr>"
  using sync_write [of k d irq] by (auto simp: kirq_disable_irq_internal_def Let_def bit_simps bit_irq_bit)

lemma sync_acknowledge:
  assumes s: "sync k d" and i: "irq < 16" and a: "acknowledge bus irq (k, d) = (k1, d1)"
  shows "sync k1 d1 \<and> k1 = k\<lparr>cached_irq_mask := cached_irq_mask k OR irq_bit irq\<rparr>"
proof -
  have low: "(0x60 + ucast w) AND 0xF8 = (0x60 :: u8)" if "w < 8" for w :: u32
  proof -
    have "w = word_of_nat (unat w)" "unat w \<in> {0, 1, 2, 3, 4, 5, 6, 7}"
      using that by (auto simp: word_less_nat_alt)
    then show ?thesis by (elim insertE; simp)
  qed
  let ?k = "k\<lparr>cached_irq_mask := cached_irq_mask k OR irq_bit irq\<rparr>"
  have k1: "k1 = ?k" using a by (simp add: acknowledge_def Let_def)
  have w: "sync ?k (write_mask bus irq ?k d)"
    using sync_write [OF s, of irq ?k] by (simp add: bit_simps bit_irq_bit)
  show ?thesis
  proof (cases "irq AND 8 = 0")
    case True
    have small: "u < 8" if "even (u div 8)" "u < 16" for u :: nat using that by presburger
    have "irq < 8" using True i small [of "unat irq"] by (simp add: half_of_bit word_less_nat_alt)
    with True a w low [of irq] show ?thesis
      by (auto simp: k1 acknowledge_def Let_def write_mask_def kioport_out_kuint8_def sync_def end_first)
  next
    case False
    have "irq AND 7 = take_bit 3 irq" by (simp add: take_bit_eq_mask mask_eq_exp_minus_1)
    moreover have "take_bit 3 irq < 8" by (simp add: word_less_nat_alt unat_take_bit_mod)
    ultimately have "irq AND 7 < 8" by simp
    with False a w low [of "irq AND 7"] show ?thesis
      by (auto simp: k1 acknowledge_def Let_def write_mask_def kioport_out_kuint8_def sync_def end_first end_second)
  qed
qed

lemma sync_enable_irq:
  assumes "sync k d" "\<not> bit (kirq_spinlock k) 31"
  shows "\<exists>d1. kirq_enable_irq bus irq (k, d) = Inr ((), k\<lparr>cached_irq_mask := cached_irq_mask k AND NOT (irq_bit irq)\<rparr>, d1) \<and>
    sync (k\<lparr>cached_irq_mask := cached_irq_mask k AND NOT (irq_bit irq)\<rparr>) d1"
proof -
  let ?k = "k\<lparr>kirq_spinlock := set_bit 31 (kirq_spinlock k)\<rparr>"
  obtain k1 d1 where e: "kirq_enable_irq_internal bus irq (?k, d) = (k1, d1)" by fastforce
  have "sync ?k d" using assms(1) by simp
  from sync_enable [OF this e] have k1: "sync k1 d1" "k1 = ?k\<lparr>cached_irq_mask := cached_irq_mask k AND NOT (irq_bit irq)\<rparr>"
    by auto
  show ?thesis
    unfolding kirq_enable_irq_def
    by (subst with_irq_lock_free [OF assms(2), of _ d "()" k1 d1]) (use e k1 in \<open>simp_all add: sync_def\<close>)
qed

lemma sync_disable_irq:
  assumes "sync k d" "\<not> bit (kirq_spinlock k) 31"
  shows "\<exists>d1. kirq_disable_irq bus irq (k, d) = Inr ((), k\<lparr>cached_irq_mask := cached_irq_mask k OR irq_bit irq\<rparr>, d1) \<and>
    sync (k\<lparr>cached_irq_mask := cached_irq_mask k OR irq_bit irq\<rparr>) d1"
proof -
  let ?k = "k\<lparr>kirq_spinlock := set_bit 31 (kirq_spinlock k)\<rparr>"
  obtain k1 d1 where e: "kirq_disable_irq_internal bus irq (?k, d) = (k1, d1)" by fastforce
  have "sync ?k d" using assms(1) by simp
  from sync_disable [OF this e] have k1: "sync k1 d1" "k1 = ?k\<lparr>cached_irq_mask := cached_irq_mask k OR irq_bit irq\<rparr>"
    by auto
  show ?thesis
    unfolding kirq_disable_irq_def
    by (subst with_irq_lock_free [OF assms(2), of _ d "()" k1 d1]) (use e k1 in \<open>simp_all add: sync_def\<close>)
qed

text \<open>A whole interrupt with a handler.\<close>

lemma sync_handle_irq:
  assumes s: "sync k d" "\<not> bit (kirq_spinlock k) 31" and p: "polite running imr call"
    and n: "32 \<le> number" "number < 48" and h: "interrupt_handler k (unat number) \<noteq> 0"
    and r: "handle_irq bus call number (k, d, s0) = Inr out"
  shows "\<exists>k1 d1 s1. out = Handled k1 d1 s1 \<and> sync k1 d1 \<and> \<not> bit (kirq_spinlock k1) 31 \<and>
    \<not> bit (cached_irq_mask k1) (unat (number - 32))"
proof -
  let ?k = "k\<lparr>kirq_spinlock := set_bit 31 (kirq_spinlock k)\<rparr>"
  let ?irq = "number - 32"
  have "unat ?irq = unat number - 32" using n(1) by (simp add: unat_sub word_le_nat_alt)
  moreover have "unat number < 48" using n(2) by (simp add: word_less_nat_alt)
  ultimately have i: "?irq < 16" and im: "unat ?irq mod 32 = unat ?irq" by (simp_all add: word_less_nat_alt)
  obtain k2 d2 where a: "acknowledge bus ?irq (?k, d) = (k2, d2)" by fastforce
  have "sync ?k d" using s by simp
  from sync_acknowledge [OF this i a] have k2: "sync k2 d2" "interrupt_handler k2 = interrupt_handler k"
    "kirq_spinlock k2 = set_bit 31 (kirq_spinlock k)" by auto
  obtain rc k3 d3 s3 where c: "call (interrupt_handler k (unat number)) ?irq (k2, d2, s0) = Inr (rc, k3, d3, s3)"
    using r h k2 a irq_lock_free [OF s(2)]
    by (auto simp: handle_irq_def Let_def andthen_Inr_iff)
  then have "(sync k2 d2 \<longrightarrow> sync k3 d3) \<and> kirq_spinlock k3 = kirq_spinlock k2"
    using p unfolding polite_def by blast
  then have k3: "sync k3 d3" "kirq_spinlock k3 = set_bit 31 (kirq_spinlock k)" using k2 by auto
  have u: "irq_unlock k3 = k3\<lparr>kirq_spinlock := kirq_spinlock k\<rparr>"
    using k3(2) unset_set_31 [OF s(2)] by (simp add: irq_unlock_def kspinlock_unlock_def)
  let ?k4 = "irq_unlock k3\<lparr>cached_irq_mask := cached_irq_mask (irq_unlock k3) AND NOT (irq_bit ?irq)\<rparr>"
  obtain d4 where d4: "kirq_enable_irq bus ?irq (irq_unlock k3, d3) = Inr ((), ?k4, d4)" "sync ?k4 d4"
    using sync_enable_irq [of "irq_unlock k3" d3 ?irq] k3 s(2) u by auto
  have "\<exists>s1. out = Handled ?k4 d4 s1"
    using r h k2 a c d4 irq_lock_free [OF s(2)]
    by (auto simp: handle_irq_def Let_def andthen_Inr_iff split: if_splits)
  moreover have "\<not> bit (cached_irq_mask ?k4) (unat ?irq)" by (simp add: bit_simps bit_irq_bit im)
  ultimately show ?thesis using d4(2) s(2) by (auto simp: u)
qed

lemma sync_assign_irq:
  assumes "sync k d" "\<not> bit (kirq_spinlock k) 31" "irq < 16 \<and> interrupt_handler k (unat (irq + 32)) = 0"
  shows "\<exists>d1. kirq_assign_irq bus irq handler (k, d) =
      Inr (1, k\<lparr>interrupt_handler := (interrupt_handler k)(unat (irq + 32) := handler),
        cached_irq_mask := cached_irq_mask k AND NOT (irq_bit irq)\<rparr>, d1) \<and>
    sync (k\<lparr>cached_irq_mask := cached_irq_mask k AND NOT (irq_bit irq)\<rparr>) d1"
proof -
  let ?k = "k\<lparr>kirq_spinlock := set_bit 31 (kirq_spinlock k),
    interrupt_handler := (interrupt_handler k)(unat (irq + 32) := handler)\<rparr>"
  obtain k1 d1 where e: "kirq_enable_irq_internal bus irq (?k, d) = (k1, d1)" by fastforce
  have "sync ?k d" using assms(1) by simp
  from sync_enable [OF this e] have k1: "sync k1 d1" "k1 = ?k\<lparr>cached_irq_mask := cached_irq_mask k AND NOT (irq_bit irq)\<rparr>"
    by auto
  show ?thesis
    unfolding kirq_assign_irq_def
    by (subst with_irq_lock_free [OF assms(2), of _ d 1 k1 d1]) (use e k1 assms(3) in \<open>simp_all add: sync_def\<close>)
qed

lemma sync_unassign_irq:
  assumes "sync k d" "\<not> bit (kirq_spinlock k) 31" "irq < 16"
  shows "\<exists>d1. kirq_unassign_irq bus irq (k, d) =
      Inr ((), k\<lparr>cached_irq_mask := cached_irq_mask k OR irq_bit irq,
        interrupt_handler := (interrupt_handler k)(unat (irq + 32) := 0)\<rparr>, d1) \<and>
    sync (k\<lparr>cached_irq_mask := cached_irq_mask k OR irq_bit irq\<rparr>) d1"
proof -
  let ?k = "k\<lparr>kirq_spinlock := set_bit 31 (kirq_spinlock k)\<rparr>"
  obtain k1 d1 where e: "kirq_disable_irq_internal bus irq (?k, d) = (k1, d1)" by fastforce
  have "sync ?k d" using assms(1) by simp
  from sync_disable [OF this e] have k1: "sync k1 d1" "k1 = ?k\<lparr>cached_irq_mask := cached_irq_mask k OR irq_bit irq\<rparr>"
    by auto
  show ?thesis
    unfolding kirq_unassign_irq_def
    by (subst with_irq_lock_free [OF assms(2), of _ d "()"
          "k1\<lparr>interrupt_handler := (interrupt_handler k1)(unat (irq + 32) := 0)\<rparr>" d1])
      (use e k1 assms(3) in \<open>simp_all add: sync_def Let_def\<close>)
qed

end

lemma assign_refused:
  assumes "\<not> bit (kirq_spinlock k) 31" "\<not> (irq < 16 \<and> interrupt_handler k (unat (irq + 32)) = 0)"
  shows "kirq_assign_irq bus irq handler (k, d) = Inr (0, k, d)"
  unfolding kirq_assign_irq_def
  by (subst with_irq_lock_free [OF assms(1), of _ d 0 "k\<lparr>kirq_spinlock := set_bit 31 (kirq_spinlock k)\<rparr>" d])
    (use assms(2) in \<open>auto simp: Let_def\<close>)

section \<open>Two 8259A controllers\<close>

text \<open>
  The documented controller: a word with bit 4 on the command port starts it, clears its mask and makes
  the next three words of the data port setup words; afterwards the data port is the mask register.
\<close>

record pic =
  master_imr :: u8
  master_icws :: nat
  slave_imr :: u8
  slave_icws :: nat

definition pic_out :: "u16 \<Rightarrow> u8 \<Rightarrow> pic \<Rightarrow> pic" where
  "pic_out port v p =
     (if port = 0x20 then if bit v 4 then p\<lparr>master_imr := 0, master_icws := 3\<rparr> else p
      else if port = 0x21 then
        if master_icws p = 0 then p\<lparr>master_imr := v\<rparr> else p\<lparr>master_icws := master_icws p - 1\<rparr>
      else if port = 0xA0 then if bit v 4 then p\<lparr>slave_imr := 0, slave_icws := 3\<rparr> else p
      else if port = 0xA1 then
        if slave_icws p = 0 then p\<lparr>slave_imr := v\<rparr> else p\<lparr>slave_icws := slave_icws p - 1\<rparr>
      else p)"

definition pic_bus :: "pic bus" where
  "pic_bus = \<lparr>in8 = \<lambda>a p. (0, p), in16 = \<lambda>a p. (0, p), in32 = \<lambda>a p. (0, p),
     out8 = pic_out, out16 = \<lambda>a v p. p, out32 = \<lambda>a v p. p\<rparr>"

definition pic_ready :: "pic \<Rightarrow> bool" where
  "pic_ready p \<longleftrightarrow> master_icws p = 0 \<and> slave_icws p = 0"

definition pic_imr :: "pic \<Rightarrow> u16" where
  "pic_imr p = ucast (master_imr p) OR push_bit 8 (ucast (slave_imr p))"

lemma bit_pic_imr:
  assumes "n < 16"
  shows "bit (pic_imr p) n = (if n < 8 then bit (master_imr p) n else bit (slave_imr p) (n - 8))"
proof -
  have "\<not> bit (master_imr p) n" if "8 \<le> n" using bit_imp_le_length [of "master_imr p" n] that by auto
  with assms show ?thesis by (auto simp: pic_imr_def bit_simps)
qed

lemma end_word_bit4: "v AND 0xF8 = 0x60 \<Longrightarrow> \<not> bit v 4" for v :: u8
proof
  assume e: "v AND 0xF8 = 0x60" and "bit v 4"
  moreover have "bit (0xF8 :: u8) 4" by simp
  ultimately have "bit (0x60 :: u8) 4" by (simp only: bit_and_iff flip: e)
  then show False by simp
qed

interpretation pic: pic_contract pic_bus pic_ready pic_imr
proof unfold_locales
  fix p :: pic and v :: u8
  show "pic_ready (pic_words pic_bus p)"
    by (simp add: pic_words_def kioport_out_kuint8_def pic_bus_def pic_out_def pic_ready_def)
  assume r: "pic_ready p"
  then show "pic_ready (out8 pic_bus 0x21 v p) \<and> (\<forall>n<16. bit (pic_imr (out8 pic_bus 0x21 v p)) n =
      (if n < 8 then bit v n else bit (pic_imr p) n))"
    by (simp add: pic_ready_def bit_pic_imr pic_bus_def pic_out_def)
  from r show "pic_ready (out8 pic_bus 0xA1 v p) \<and> (\<forall>n<16. bit (pic_imr (out8 pic_bus 0xA1 v p)) n =
      (if n < 8 then bit (pic_imr p) n else bit v (n - 8)))"
    by (simp add: pic_ready_def bit_pic_imr pic_bus_def pic_out_def)
  assume "v AND 0xF8 = 0x60"
  then have "\<not> bit v 4" by (rule end_word_bit4)
  with r show "pic_ready (out8 pic_bus 0x20 v p) \<and> pic_imr (out8 pic_bus 0x20 v p) = pic_imr p"
    "pic_ready (out8 pic_bus 0xA0 v p) \<and> pic_imr (out8 pic_bus 0xA0 v p) = pic_imr p"
    by (simp_all add: pic_bus_def pic_out_def)
qed

section \<open>The mask\<close>

text \<open>
  C17: the controllers mask exactly the interrupts that are not in use. \<^verbatim>\<open>kirq_init\<close> starts both with
  everything masked but the cascade (IRQ 2); from then on every routine keeps the mask registers equal
  to the cached mask and the lock free: enabling and disabling change the one bit of their interrupt, an
  assignment to a free slot enables it, one to a used slot is refused and changes nothing, releasing the
  slot disables it, and after an interrupt was handled it is enabled again.
\<close>
theorem irq_mask_follows_use:
  assumes pic: "pic_contract bus running imr"
  shows "(\<forall>k d k1 d1. kirq_init bus (k, d) = (k1, d1) \<longrightarrow> mask_in_sync running imr k1 d1 \<and> cached_irq_mask k1 = 0xFFFB) \<and>
    (\<forall>k d. mask_in_sync running imr k d \<longrightarrow> \<not> bit (kirq_spinlock k) 31 \<longrightarrow>
      (\<forall>irq. \<exists>k1 d1. kirq_enable_irq bus irq (k, d) = Inr ((), k1, d1) \<and> mask_in_sync running imr k1 d1 \<and>
        k1 = k\<lparr>cached_irq_mask := cached_irq_mask k AND NOT (irq_bit irq)\<rparr>) \<and>
      (\<forall>irq. \<exists>k1 d1. kirq_disable_irq bus irq (k, d) = Inr ((), k1, d1) \<and> mask_in_sync running imr k1 d1 \<and>
        k1 = k\<lparr>cached_irq_mask := cached_irq_mask k OR irq_bit irq\<rparr>) \<and>
      (\<forall>irq h. if irq < 16 \<and> interrupt_handler k (unat (irq + 32)) = 0
        then \<exists>k1 d1. kirq_assign_irq bus irq h (k, d) = Inr (1, k1, d1) \<and> mask_in_sync running imr k1 d1 \<and>
          k1 = k\<lparr>interrupt_handler := (interrupt_handler k)(unat (irq + 32) := h),
            cached_irq_mask := cached_irq_mask k AND NOT (irq_bit irq)\<rparr>
        else kirq_assign_irq bus irq h (k, d) = Inr (0, k, d)) \<and>
      (\<forall>irq<16. \<exists>k1 d1. kirq_unassign_irq bus irq (k, d) = Inr ((), k1, d1) \<and> mask_in_sync running imr k1 d1 \<and>
        k1 = k\<lparr>cached_irq_mask := cached_irq_mask k OR irq_bit irq,
          interrupt_handler := (interrupt_handler k)(unat (irq + 32) := 0)\<rparr>) \<and>
      (\<forall>call number s out. polite running imr call \<longrightarrow> 32 \<le> number \<longrightarrow> number < 48 \<longrightarrow>
        interrupt_handler k (unat number) \<noteq> 0 \<longrightarrow> handle_irq bus call number (k, d, s) = Inr out \<longrightarrow>
        (\<exists>k1 d1 s1. out = Handled k1 d1 s1 \<and> mask_in_sync running imr k1 d1 \<and> \<not> bit (kirq_spinlock k1) 31 \<and>
          \<not> bit (cached_irq_mask k1) (unat (number - 32)))))"
    (is "?init \<and> (\<forall>k d. ?s k d \<longrightarrow> ?l k \<longrightarrow> ?enable k d \<and> ?disable k d \<and> ?assign k d \<and> ?unassign k d \<and> ?handle k d)")
proof (rule conjI)
  show ?init using pic_contract.sync_init [OF pic] by (auto simp: kirq_init_def Let_def)
  show "\<forall>k d. ?s k d \<longrightarrow> ?l k \<longrightarrow> ?enable k d \<and> ?disable k d \<and> ?assign k d \<and> ?unassign k d \<and> ?handle k d"
  proof (rule allI, rule allI, rule impI, rule impI)
    fix k d assume s: "?s k d" and l: "?l k"
    have "?enable k d" using pic_contract.sync_enable_irq [OF pic s l] by blast
    moreover have "?disable k d" using pic_contract.sync_disable_irq [OF pic s l] by blast
    moreover have "?assign k d"
    proof (intro allI)
      fix irq h
      have "mask_in_sync running imr (k\<lparr>interrupt_handler := i, cached_irq_mask := c\<rparr>) d1 =
          mask_in_sync running imr (k\<lparr>cached_irq_mask := c\<rparr>) d1" for i c d1 by (simp add: mask_in_sync_def)
      then show "if irq < 16 \<and> interrupt_handler k (unat (irq + 32)) = 0
        then \<exists>k1 d1. kirq_assign_irq bus irq h (k, d) = Inr (1, k1, d1) \<and> mask_in_sync running imr k1 d1 \<and>
          k1 = k\<lparr>interrupt_handler := (interrupt_handler k)(unat (irq + 32) := h),
            cached_irq_mask := cached_irq_mask k AND NOT (irq_bit irq)\<rparr>
        else kirq_assign_irq bus irq h (k, d) = Inr (0, k, d)"
        using pic_contract.sync_assign_irq [OF pic s l, of irq h] assign_refused [OF l, of irq bus h d]
        by (simp split del: if_split split: if_split)
    qed
    moreover have "?unassign k d"
      using pic_contract.sync_unassign_irq [OF pic s l] by (auto simp: mask_in_sync_def)
    moreover have "?handle k d" using pic_contract.sync_handle_irq [OF pic s l] by blast
    ultimately show "?enable k d \<and> ?disable k d \<and> ?assign k d \<and> ?unassign k d \<and> ?handle k d"
      by (intro conjI)
  qed
qed

definition no_handlers :: irqs where
  "no_handlers = \<lparr>interrupt_handler = \<lambda>_. 0, cached_irq_mask = 0, kirq_spinlock = 0, idt = \<lambda>_. 0\<rparr>"

definition reset_pics :: pic where
  "reset_pics = \<lparr>master_imr = 0, master_icws = 0, slave_imr = 0, slave_icws = 0\<rparr>"

theorem irq_mask_follows_use_witness:
  "\<exists>k1 d1 k2 d2. kirq_init pic_bus (no_handlers, reset_pics) = (k1, d1) \<and>
    kirq_assign_irq pic_bus 8 0x1234 (k1, d1) = Inr (1, k2, d2) \<and> bit (pic_imr d1) 8 \<and> \<not> bit (pic_imr d2) 8 \<and>
    interrupt_handler k2 40 = 0x1234"
proof -
  obtain k1 d1 where i: "kirq_init pic_bus (no_handlers, reset_pics) = (k1, d1)" by fastforce
  then have k1: "\<not> bit (kirq_spinlock k1) 31" "interrupt_handler k1 (unat ((8 :: u32) + 32)) = 0"
    by (auto simp: kirq_init_def no_handlers_def Let_def)
  note use = irq_mask_follows_use [OF pic.pic_contract_axioms]
  have s: "mask_in_sync pic_ready pic_imr k1 d1" "cached_irq_mask k1 = 0xFFFB"
    using use [THEN conjunct1, rule_format, OF i] by simp_all
  have "\<exists>k2 d2. kirq_assign_irq pic_bus 8 0x1234 (k1, d1) = Inr (1, k2, d2) \<and> mask_in_sync pic_ready pic_imr k2 d2 \<and>
      k2 = k1\<lparr>interrupt_handler := (interrupt_handler k1)(unat ((8 :: u32) + 32) := 0x1234),
        cached_irq_mask := cached_irq_mask k1 AND NOT (irq_bit 8)\<rparr>"
    using use [THEN conjunct2, THEN spec, THEN spec, THEN mp, OF s(1), THEN mp, OF k1(1),
        THEN conjunct2, THEN conjunct2, THEN conjunct1, THEN spec [of _ 8], THEN spec [of _ "0x1234"]] k1(2)
    by (simp split: if_splits)
  then obtain k2 d2 where k2: "kirq_assign_irq pic_bus 8 0x1234 (k1, d1) = Inr (1, k2, d2)"
    "mask_in_sync pic_ready pic_imr k2 d2" "k2 = k1\<lparr>interrupt_handler := (interrupt_handler k1)(unat ((8 :: u32) + 32) := 0x1234),
        cached_irq_mask := cached_irq_mask k1 AND NOT (irq_bit 8)\<rparr>"
    by blast
  have "bit (pic_imr d1) 8" using s by (simp add: mask_in_sync_def)
  moreover have "\<not> bit (pic_imr d2) 8"
    using k2(2,3) by (simp add: mask_in_sync_def bit_irq_bit bit_and_iff bit_not_iff)
  ultimately show ?thesis using i k2(1,3) by simp
qed

section \<open>Interrupts nobody takes\<close>

text \<open>
  C25: an interrupt without a handler is the end of interrupt handling. \<^verbatim>\<open>handle_irq\<close> kills the thread that
  happens to be interrupted while it still holds \<^verbatim>\<open>kirq_spinlock\<close>; the thread is never resumed, and from
  then on every routine of the file, and every later interrupt, waits for the lock for ever.
\<close>
theorem unassigned_interrupt_deadlocks:
  assumes "\<not> bit (kirq_spinlock k) 31" and "interrupt_handler k (unat number) = 0" and "handle_exception s = Inr s1"
  shows "\<exists>k1 d1. handle_irq bus call number (k, d, s) = Inr (Killed k1 d1 s1) \<and> bit (kirq_spinlock k1) 31 \<and>
    (\<forall>irq h. kirq_enable_irq bus irq (k1, d1) = Inl Spins \<and> kirq_disable_irq bus irq (k1, d1) = Inl Spins \<and>
      kirq_assign_irq bus irq h (k1, d1) = Inl Spins \<and> kirq_unassign_irq bus irq (k1, d1) = Inl Spins) \<and>
    (\<forall>call n s2. handle_irq bus call n (k1, d1, s2) = Inl Spins)"
proof -
  let ?k = "k\<lparr>kirq_spinlock := set_bit 31 (kirq_spinlock k)\<rparr>"
  obtain k1 d1 where a: "acknowledge bus (number - 32) (?k, d) = (k1, d1)" by fastforce
  then have k1: "bit (kirq_spinlock k1) 31" "interrupt_handler k1 = interrupt_handler k"
    by (auto simp: acknowledge_def Let_def bit_set_bit_iff)
  have "handle_irq bus call number (k, d, s) = Inr (Killed k1 d1 s1)"
    using assms a k1 by (simp add: handle_irq_def Let_def irq_lock_free)
  with k1(1) show ?thesis
    by (intro exI [of _ k1] exI [of _ d1]) (simp add: handle_irq_def Let_def irq_lock_held with_irq_lock_def
      kirq_enable_irq_def kirq_disable_irq_def kirq_assign_irq_def kirq_unassign_irq_def)
qed

theorem unassigned_interrupt_deadlocks_witness:
  "\<exists>k1 d1 s1. handle_irq pic_bus (\<lambda>h irq x. Inl Spins) 35 (no_handlers, reset_pics, two_threads) = Inr (Killed k1 d1 s1) \<and>
    kirq_enable_irq pic_bus 8 (k1, d1) = Inl Spins"
proof -
  obtain s1 where s1: "handle_exception two_threads = Inr s1"
    using two_threads_kill unfolding handle_exception_def by blast
  have "\<not> bit (kirq_spinlock no_handlers) 31" "interrupt_handler no_handlers (unat (35 :: u32)) = 0"
    by (simp_all add: no_handlers_def)
  from unassigned_interrupt_deadlocks [OF this s1, of pic_bus "\<lambda>h irq x. Inl Spins" reset_pics]
  show ?thesis by blast
qed

end
