(* ===== verification/Preempt.thy ===== *)
theory Preempt
  imports Irq
begin

unbundle bit_operations_syntax

text \<open>
  The clock's interrupts, from \<^verbatim>\<open>handle_irq\<close> through \<^verbatim>\<open>rtc_irq_handler\<close> to \<^verbatim>\<open>thread_switch\<close>: how the threads
  share the processor. The three components are those of the theories \<open>Irq\<close>, \<open>Time\<close> and \<open>Thread\<close>.
\<close>

section \<open>The clock as a handler\<close>

text \<open>
  The call through \<^verbatim>\<open>interrupt_handler[number].handler\<close>: at the address \<open>clock\<close> is \<^verbatim>\<open>rtc_irq_handler\<close>, the
  handlers at other addresses are a parameter.
\<close>

type_synonym 'd irq_state = "irqs \<times> 'd \<times> sched"

definition call_handler :: "'d bus \<Rightarrow> u32 \<Rightarrow> (u32 \<Rightarrow> u32 \<Rightarrow> 'd irq_state \<Rightarrow> stop + (u32 \<times> 'd irq_state)) \<Rightarrow>
    u32 \<Rightarrow> u32 \<Rightarrow> 'd irq_state \<Rightarrow> stop + (u32 \<times> 'd irq_state)" where
  "call_handler bus clock others h irq = (\<lambda>(k, d, s).
     if h = clock then andthen (rtc_irq_handler bus (sclock s, d)) (\<lambda>(rc, c, d1). Inr (rc, k, d1, s\<lparr>sclock := c\<rparr>))
     else others h irq (k, d, s))"

text \<open>
  One interrupt of the clock, number 40, with the stack pointer and floating point state the interrupted
  thread has come to; and a number of them. An interrupt that kills its thread is the last one.
\<close>

type_synonym cpu_context = "u32 \<times> u8 list"

definition clock_interrupt :: "'d bus \<Rightarrow> u32 \<Rightarrow> (u32 \<Rightarrow> u32 \<Rightarrow> 'd irq_state \<Rightarrow> stop + (u32 \<times> 'd irq_state)) \<Rightarrow>
    cpu_context \<Rightarrow> 'd irq_state \<Rightarrow> stop + 'd irq_outcome" where
  "clock_interrupt bus clock others w = (\<lambda>(k, d, s).
     handle_irq bus (call_handler bus clock others) 40 (k, d, s\<lparr>regs_esp := fst w, fpu_regs := snd w\<rparr>))"

primrec clock_interrupts :: "'d bus \<Rightarrow> u32 \<Rightarrow> (u32 \<Rightarrow> u32 \<Rightarrow> 'd irq_state \<Rightarrow> stop + (u32 \<times> 'd irq_state)) \<Rightarrow>
    cpu_context list \<Rightarrow> 'd irq_state \<Rightarrow> stop + 'd irq_outcome" where
  "clock_interrupts bus clock others [] x = (case x of (k, d, s) \<Rightarrow> Inr (Handled k d s))"
| "clock_interrupts bus clock others (w # ws) x =
     andthen (clock_interrupt bus clock others w x) (\<lambda>out. case out of
         Handled k d s \<Rightarrow> clock_interrupts bus clock others ws (k, d, s)
       | Killed k d s \<Rightarrow> Inr out)"

section \<open>Time slices\<close>

text \<open>
  What it is all for: the interrupts left of the slice, the threads in the order of their turns, and
  the context of each, the running one's included. Every interrupt keeps the context of the running
  thread; the last one of a slice puts the thread behind the others.
\<close>

type_synonym slices = "nat \<times> u32 list \<times> (u32 \<Rightarrow> cpu_context)"

fun slice :: "cpu_context \<Rightarrow> slices \<Rightarrow> slices" where
  "slice w (n, xs, ctx) = (if n = 0 then 11 else n - 1, if n = 0 then rotate1 xs else xs, ctx(hd xs := w))"

fun sliced :: "u32 \<Rightarrow> slices \<Rightarrow> irqs \<Rightarrow> sched \<Rightarrow> bool" where
  "sliced clock (n, xs, ctx) k s \<longleftrightarrow>
     \<not> bit (kirq_spinlock k) 31 \<and> interrupt_handler k 40 = clock \<and> all_ready s xs \<and>
     unat (thread_ticks (sclock s)) = n \<and> n < 12 \<and> (regs_esp s, fpu_regs s) = ctx (hd xs) \<and>
     (\<forall>a\<in>set (tl xs). context_of s a = ctx a)"

lemma fold_slice_order:
  "n < 12 \<Longrightarrow> \<exists>n' ctx'. n' < 12 \<and> (length ws + 11 - n) mod 12 = 11 - n' \<and>
    fold slice ws (n, xs, ctx) = (n', rotate ((length ws + 11 - n) div 12) xs, ctx')"
proof (induction ws rule: rev_induct)
  case (snoc w ws)
  then obtain n' ctx' where n': "n' < 12" "(length ws + 11 - n) mod 12 = 11 - n'"
    "fold slice ws (n, xs, ctx) = (n', rotate ((length ws + 11 - n) div 12) xs, ctx')" by blast
  define k where "k = length ws + 11 - n"
  have k: "length (ws @ [w]) + 11 - n = Suc k" using snoc.prems by (simp add: k_def)
  have q: "Suc k div 12 = (if n' = 0 then Suc (k div 12) else k div 12)"
    "Suc k mod 12 = (if n' = 0 then 0 else Suc (11 - n'))"
    using n'(1,2) by (auto simp: k_def [symmetric] div_Suc mod_Suc)
  show ?case using n' unfolding k q by (auto simp: k_def)
qed (auto simp: div_eq_0_iff)

section \<open>One interrupt\<close>

lemma read_rtc_returns: "\<exists>d1. cmos_wait bus d = Inr d1 \<Longrightarrow> \<exists>t d1. read_rtc bus d = Inr (t, d1)"
  by (auto simp: read_rtc_def Let_def split: prod.split)

lemma rtc_handler_returns:
  assumes wait: "\<forall>d. \<exists>d1. cmos_wait bus d = Inr d1" and l: "\<not> bit (ktime_spinlock c) 31"
  shows "\<exists>rc c' d'. rtc_irq_handler bus (c, d) = Inr (rc, c', d') \<and> ktime_spinlock c' = ktime_spinlock c"
proof -
  obtain v d1 where v: "cmos_read bus 0x0C d = (v, d1)" by fastforce
  obtain t d2 where t: "read_rtc bus d1 = Inr (t, d2)"
    using read_rtc_returns [OF wait [rule_format, of d1]] by (elim exE)
  show ?thesis
    using l unset_set_31 [OF l] unfolding rtc_irq_handler_def prod.case v
    by (auto simp: Let_def kspinlock_lock_eq kspinlock_unlock_def t split: prod.split)
qed

lemma all_ready_clock: "all_ready s xs \<Longrightarrow> \<not> bit (ktime_spinlock c) 31 \<Longrightarrow> all_ready (s\<lparr>sclock := c\<rparr>) xs"
  by (simp add: all_ready_def locks_free_def)

lemma all_ready_context: "all_ready (s\<lparr>regs_esp := e, fpu_regs := f\<rparr>) xs = all_ready s xs"
  by (simp add: all_ready_def locks_free_def)

text \<open>The parts of \<^verbatim>\<open>handle_irq\<close> around the handler.\<close>

lemma handle_irq_returns:
  assumes l: "\<not> bit (kirq_spinlock k) 31" and h: "interrupt_handler k (unat number) \<noteq> 0"
    and call: "\<And>k1 d1. interrupt_handler k1 = interrupt_handler k \<Longrightarrow>
      \<exists>rc d2 s1. call (interrupt_handler k (unat number)) (number - 32) (k1, d1, s) = Inr (rc, k1, d2, s1) \<and> P rc s1"
  shows "\<exists>rc s1 k1 d1. P rc s1 \<and> \<not> bit (kirq_spinlock k1) 31 \<and> interrupt_handler k1 = interrupt_handler k \<and>
    handle_irq bus call number (k, d, s) =
      (if rc \<noteq> 0 then andthen (kthread_yield s1) (\<lambda>s2. Inr (Handled k1 d1 s2)) else Inr (Handled k1 d1 s1))"
proof -
  let ?k = "k\<lparr>kirq_spinlock := set_bit 31 (kirq_spinlock k)\<rparr>" and ?irq = "number - 32"
  obtain k2 d2 where a: "acknowledge bus ?irq (?k, d) = (k2, d2)" by fastforce
  then have k2: "interrupt_handler k2 = interrupt_handler k" "kirq_spinlock k2 = set_bit 31 (kirq_spinlock k)"
    by (auto simp: acknowledge_def Let_def)
  obtain rc d3 s1 where c: "call (interrupt_handler k (unat number)) ?irq (k2, d2, s) = Inr (rc, k2, d3, s1)" "P rc s1"
    using call k2(1) by blast
  have u: "\<not> bit (kirq_spinlock (irq_unlock k2)) 31" "interrupt_handler (irq_unlock k2) = interrupt_handler k"
    using k2 by (simp_all add: irq_unlock_def kspinlock_unlock_def bit_unset_bit_iff)
  have "\<exists>k4 d4. kirq_enable_irq bus ?irq (irq_unlock k2, d3) = Inr ((), k4, d4) \<and>
      \<not> bit (kirq_spinlock k4) 31 \<and> interrupt_handler k4 = interrupt_handler k"
    unfolding kirq_enable_irq_def with_irq_lock_def prod.case irq_lock_free [OF u(1)]
    using u by (auto simp: kirq_enable_irq_internal_def Let_def irq_unlock_def kspinlock_unlock_def bit_unset_bit_iff)
  then obtain k4 d4 where e: "kirq_enable_irq bus ?irq (irq_unlock k2, d3) = Inr ((), k4, d4)"
    "\<not> bit (kirq_spinlock k4) 31" "interrupt_handler k4 = interrupt_handler k" by blast
  have "handle_irq bus call number (k, d, s) =
      (if rc \<noteq> 0 then andthen (kthread_yield s1) (\<lambda>s2. Inr (Handled k4 d4 s2)) else Inr (Handled k4 d4 s1))"
    using h by (simp add: handle_irq_def Let_def irq_lock_free [OF l] a k2(1) c(1) e(1))
  with e c(2) show ?thesis by blast
qed

lemma clock_interrupt_slices:
  assumes wait: "\<forall>d. \<exists>d1. cmos_wait bus d = Inr d1" and clock: "clock \<noteq> 0"
    and s: "sliced clock (n, xs, ctx) k s"
  shows "\<exists>k1 d1 s1. clock_interrupt bus clock others w (k, d, s) = Inr (Handled k1 d1 s1) \<and>
    sliced clock (slice w (n, xs, ctx)) k1 s1"
proof -
  let ?s = "s\<lparr>regs_esp := fst w, fpu_regs := snd w\<rparr>" and ?c = "sclock s"
  have ready: "all_ready s xs" and l: "\<not> bit (ktime_spinlock ?c) 31" and n: "unat (thread_ticks ?c) = n" "n < 12"
    using s by (simp_all add: all_ready_def locks_free_def)
  have h: "interrupt_handler k (unat (40 :: u32)) = clock" and kl: "\<not> bit (kirq_spinlock k) 31" using s by simp_all
  let ?P = "\<lambda>(rc :: u32) s1. \<exists>c. s1 = ?s\<lparr>sclock := c\<rparr> \<and> \<not> bit (ktime_spinlock c) 31 \<and>
      rc = (if n = 0 then 1 else 0) \<and> unat (thread_ticks c) = (if n = 0 then 11 else n - 1)"
  have call: "\<exists>rc d2 s1. call_handler bus clock others (interrupt_handler k (unat (40 :: u32))) (40 - 32) (k1, d1, ?s) =
      Inr (rc, k1, d2, s1) \<and> ?P rc s1" for k1 d1
  proof -
    obtain rc c' d' where c: "rtc_irq_handler bus (?c, d1) = Inr (rc, c', d')" "ktime_spinlock c' = ktime_spinlock ?c"
      using rtc_handler_returns [OF wait l] by blast
    have "rc = (if n = 0 then 1 else 0) \<and> unat (thread_ticks c') = (if n = 0 then 11 else n - 1)"
      using handler_ticks [OF c(1)] n by (cases "thread_ticks ?c = 0") (auto simp: unat_minus_one unat_gt_0)
    then show ?thesis using c l h by (auto simp: call_handler_def)
  qed
  have "\<exists>rc s1 k1 d1. ?P rc s1 \<and> \<not> bit (kirq_spinlock k1) 31 \<and> interrupt_handler k1 = interrupt_handler k \<and>
      handle_irq bus (call_handler bus clock others) 40 (k, d, ?s) =
        (if rc \<noteq> 0 then andthen (kthread_yield s1) (\<lambda>s2. Inr (Handled k1 d1 s2)) else Inr (Handled k1 d1 s1))"
    by (rule handle_irq_returns [of k 40 "call_handler bus clock others" ?s ?P bus d, OF kl]) (use h clock call in simp_all)
  then obtain rc c k1 d1 where
    c: "\<not> bit (ktime_spinlock c) 31" "rc = (if n = 0 then 1 else 0 :: u32)"
      "unat (thread_ticks c) = (if n = 0 then 11 else n - 1)"
    and k1: "\<not> bit (kirq_spinlock k1) 31" "interrupt_handler k1 = interrupt_handler k"
    and irq: "clock_interrupt bus clock others w (k, d, s) = (if rc \<noteq> 0
      then andthen (kthread_yield (?s\<lparr>sclock := c\<rparr>)) (\<lambda>s2. Inr (Handled k1 d1 s2)) else Inr (Handled k1 d1 (?s\<lparr>sclock := c\<rparr>)))"
    by (auto simp: clock_interrupt_def)
  have r1: "all_ready (s\<lparr>sclock := c\<rparr>) xs" by (rule all_ready_clock [OF ready c(1)])
  have xs: "xs \<noteq> []" "distinct xs" and cur: "current_thread s = hd xs"
    using ready by (simp_all add: all_ready_def ring_def)
  have reorder: "s\<lparr>sclock := c, regs_esp := fst w, fpu_regs := snd w\<rparr> = ?s\<lparr>sclock := c\<rparr>" by simp
  show ?thesis
  proof (cases "n = 0")
    case True
    obtain s2 where s2: "turn w (s\<lparr>sclock := c\<rparr>) = Inr s2" "all_ready s2 (rotate1 xs)"
      "\<forall>a\<in>set xs. context_of s2 a = (if a = hd xs then w else context_of s a)"
      "(regs_esp s2, fpu_regs s2) = context_of s2 (current_thread s2)" "sclock s2 = c"
      using turn_all_ready [OF r1, of w] cur by (auto simp: context_of_def)
    have "current_thread s2 = hd (rotate1 xs)" using s2(2) by (simp add: all_ready_def)
    moreover have "\<forall>a\<in>set xs. context_of s2 a = (ctx(hd xs := w)) a"
      using s2(3) s xs by (cases xs) auto
    moreover have "hd (rotate1 xs) \<in> set xs" "set (tl (rotate1 xs)) \<subseteq> set xs"
      using xs(1) set_rotate1 [of xs] hd_in_set [of "rotate1 xs"] list.set_sel(2) [of "rotate1 xs"] by auto
    ultimately have "sliced clock (slice w (n, xs, ctx)) k1 s2"
      using True k1 c(3) s2(2,4,5) h by auto
    moreover have "clock_interrupt bus clock others w (k, d, s) = Inr (Handled k1 d1 s2)"
      using irq c(2) True s2(1) by (simp add: turn_def reorder)
    ultimately show ?thesis by blast
  next
    case False
    then have "clock_interrupt bus clock others w (k, d, s) = Inr (Handled k1 d1 (?s\<lparr>sclock := c\<rparr>))"
      using irq c(2) by simp
    moreover have "all_ready (?s\<lparr>sclock := c\<rparr>) xs" using r1 by (simp add: all_ready_def locks_free_def)
    then have "sliced clock (slice w (n, xs, ctx)) k1 (?s\<lparr>sclock := c\<rparr>)"
      using False k1 c(3) s xs n cur by (cases xs) (auto simp: context_of_def)
    ultimately show ?thesis by blast
  qed
qed

lemma clock_interrupts_slices:
  assumes "\<forall>d. \<exists>d1. cmos_wait bus d = Inr d1" "clock \<noteq> 0"
  shows "sliced clock sl k s \<Longrightarrow> \<exists>k1 d1 s1. clock_interrupts bus clock others ws (k, d, s) = Inr (Handled k1 d1 s1) \<and>
    sliced clock (fold slice ws sl) k1 s1"
proof (induction ws arbitrary: sl k d s)
  case (Cons w ws)
  obtain n xs ctx where sl: "sl = (n, xs, ctx)" by (cases sl)
  obtain k1 d1 s1 where 1: "clock_interrupt bus clock others w (k, d, s) = Inr (Handled k1 d1 s1)"
    "sliced clock (slice w sl) k1 s1"
    using clock_interrupt_slices [OF assms Cons.prems [unfolded sl]] unfolding sl by blast
  then show ?case using Cons.IH [OF 1(2), of d1] by simp
qed simp

text \<open>
  C4: preemption. As long as the clock's chip always finishes its updates, the interrupts of the clock share
  the processor among threads that are all ready, whatever the threads do in between: each runs for
  twelve interrupts, then the next one of the ring does, for ever; no interrupt gets lost or stuck on the
  way from \<^verbatim>\<open>handle_irq\<close> through the clock's handler to the switch, none kills a thread, and every thread
  goes on with exactly the context in which its slice ended.
\<close>
theorem clock_interrupts_share_processor:
  assumes "\<forall>d. \<exists>d1. cmos_wait bus d = Inr d1"
    and "clock \<noteq> 0" and "interrupt_handler k 40 = clock" and "\<not> bit (kirq_spinlock k) 31"
    and "all_ready s xs" and "unat (thread_ticks (sclock s)) = n" and "n < 12"
    and "(regs_esp s, fpu_regs s) = ctx (hd xs)" and "\<forall>a\<in>set (tl xs). context_of s a = ctx a"
  shows "\<exists>k1 d1 s1. clock_interrupts bus clock others ws (k, d, s) = Inr (Handled k1 d1 s1) \<and>
    sliced clock (fold slice ws (n, xs, ctx)) k1 s1 \<and>
    current_thread s1 = xs ! ((length ws + 11 - n) div 12 mod length xs)"
proof -
  have "sliced clock (n, xs, ctx) k s" using assms(3-9) by simp
  then obtain k1 d1 s1 where 1: "clock_interrupts bus clock others ws (k, d, s) = Inr (Handled k1 d1 s1)"
    "sliced clock (fold slice ws (n, xs, ctx)) k1 s1"
    using clock_interrupts_slices [OF assms(1,2)] by blast
  obtain n' ctx' where f: "fold slice ws (n, xs, ctx) = (n', rotate ((length ws + 11 - n) div 12) xs, ctx')"
    using fold_slice_order [OF assms(7)] by blast
  have "xs \<noteq> []" using assms(5) by (simp add: all_ready_def ring_def)
  moreover have "current_thread s1 = hd (rotate ((length ws + 11 - n) div 12) xs)"
    using 1(2) by (simp add: f all_ready_def)
  ultimately have "current_thread s1 = xs ! ((length ws + 11 - n) div 12 mod length xs)"
    by (simp add: hd_rotate_conv_nth)
  with 1 show ?thesis by blast
qed

text \<open>A clock that is never busy and always reports its periodic interrupt.\<close>

definition steady_chip :: "unit bus" where
  "steady_chip = \<lparr>in8 = \<lambda>p d. (0x40, d), in16 = \<lambda>p d. (0, d), in32 = \<lambda>p d. (0, d),
     out8 = \<lambda>p v d. d, out16 = \<lambda>p v d. d, out32 = \<lambda>p v d. d\<rparr>"

lemma steady_chip_ready: "\<exists>d1. cmos_wait steady_chip d = Inr d1"
  by (simp add: cmos_wait_def cmos_read_def kioport_in_kuint8_def kioport_out_kuint8_def steady_chip_def iterate_leave)

definition clock_handler :: irqs where
  "clock_handler = no_handlers\<lparr>interrupt_handler := (\<lambda>_. 0)(40 := 0x1234)\<rparr>"

text \<open>
  Two threads: the first interrupt ends the first one's slice, and twelve more that of the second, so
  that the first one goes on with the context it had.
\<close>

theorem clock_interrupts_share_processor_witness:
  "\<exists>k1 s1 k2 s2. clock_interrupts steady_chip 0x1234 (\<lambda>h irq x. Inl Spins) [(0x1F00, [2])]
      (clock_handler, (), two_threads) = Inr (Handled k1 () s1) \<and> current_thread s1 = 0x2000 \<and> regs_esp s1 = 0x2FC0 \<and>
    clock_interrupts steady_chip 0x1234 (\<lambda>h irq x. Inl Spins) ((0x1F00, [2]) # replicate 12 (0x2F00, [3]))
      (clock_handler, (), two_threads) = Inr (Handled k2 () s2) \<and> current_thread s2 = 0x1000 \<and> regs_esp s2 = 0x1F00"
proof -
  let ?ctx = "\<lambda>a. if a = 0x1000 then (0x1FC0, [1]) else (0x2FC0, [7]) :: u32 \<times> u8 list"
  have k: "interrupt_handler clock_handler 40 = 0x1234" "\<not> bit (kirq_spinlock clock_handler) 31"
    by (simp_all add: clock_handler_def no_handlers_def)
  have s: "unat (thread_ticks (sclock two_threads)) = 0" "(0 :: nat) < 12"
    "(regs_esp two_threads, fpu_regs two_threads) = ?ctx (hd [0x1000, 0x2000])"
    "\<forall>a\<in>set (tl [0x1000, 0x2000]). context_of two_threads a = ?ctx a"
    by (simp_all add: two_threads_def context_of_def blank_thread_def)
  note share = clock_interrupts_share_processor [OF allI [OF steady_chip_ready] _ k two_threads_ready s,
      of "\<lambda>h irq x. Inl Spins"]
  let ?ws = "(0x1F00, [2]) # replicate 12 (0x2F00, [3])"
  have f: "fold slice ?ws (0, [0x1000, 0x2000], ?ctx) =
      (11, [0x1000, 0x2000], ?ctx(0x1000 := (0x1F00, [2]), 0x2000 := (0x2F00, [3])))"
    by (simp add: numeral_eq_Suc)
  have n: "[0x1000, 0x2000 :: u32] ! ((length ?ws + 11 - 0) div 12 mod length [0x1000, 0x2000 :: u32]) = 0x1000"
    "[0x1000, 0x2000 :: u32] ! ((length [(0x1F00, [2])] + 11 - 0) div 12 mod length [0x1000, 0x2000 :: u32]) = 0x2000"
    by (simp_all flip: numeral_2_eq_2)
  have "\<exists>k2 d2 s2. clock_interrupts steady_chip 0x1234 (\<lambda>h irq x. Inl Spins) ?ws (clock_handler, (), two_threads) =
      Inr (Handled k2 d2 s2) \<and> sliced 0x1234 (fold slice ?ws (0, [0x1000, 0x2000], ?ctx)) k2 s2 \<and> current_thread s2 = 0x1000"
    using share [of ?ws "()"] unfolding n by simp
  moreover have "\<exists>k1 d1 s1. clock_interrupts steady_chip 0x1234 (\<lambda>h irq x. Inl Spins) [(0x1F00, [2])]
      (clock_handler, (), two_threads) = Inr (Handled k1 d1 s1) \<and>
      sliced 0x1234 (fold slice [(0x1F00, [2])] (0, [0x1000, 0x2000], ?ctx)) k1 s1 \<and> current_thread s1 = 0x2000"
    using share [of "[(0x1F00, [2])]" "()"] unfolding n by simp
  ultimately show ?thesis unfolding f by fastforce
qed

end
