(* ===== verification/Numbers.thy ===== *)
theory Numbers
  imports Prelude
begin

unbundle bit_operations_syntax

text \<open>
  The numbers of \<^verbatim>\<open>arch/ia32/printf.c\<close>. Characters are bytes; what the routines write through
  \<^verbatim>\<open>buffer\<close> is the list they return.
\<close>

abbreviation (input) LENGTH_KUINT8 :: u32 where "LENGTH_KUINT8 \<equiv> 0x00000010"
abbreviation (input) LENGTH_KUINT16 :: u32 where "LENGTH_KUINT16 \<equiv> 0x00000020"
abbreviation (input) LENGTH_KUINT32 :: u32 where "LENGTH_KUINT32 \<equiv> 0x00000040"
abbreviation (input) LENGTH_KUINT64 :: u32 where "LENGTH_KUINT64 \<equiv> 0x00000080"
abbreviation (input) FLAG_ALTERNATE :: u32 where "FLAG_ALTERNATE \<equiv> 0x00000100"
abbreviation (input) FLAG_ZERO_PAD :: u32 where "FLAG_ZERO_PAD \<equiv> 0x00000200"
abbreviation (input) FLAG_SPACE_PAD :: u32 where "FLAG_SPACE_PAD \<equiv> 0x00000400"
abbreviation (input) FLAG_UNSIGNED :: u32 where "FLAG_UNSIGNED \<equiv> 0x00000800"
abbreviation (input) FLAG_OCTAL :: u32 where "FLAG_OCTAL \<equiv> 0x00001000"
abbreviation (input) FLAG_HEX :: u32 where "FLAG_HEX \<equiv> 0x00002000"
abbreviation (input) FLAG_UPPERCASE :: u32 where "FLAG_UPPERCASE \<equiv> 0x00004000"
abbreviation (input) FLAG_MINUS :: u32 where "FLAG_MINUS \<equiv> 0x00008000"

section \<open>Numbers\<close>

text \<open>\<^verbatim>\<open>lower_digits\<close> and \<^verbatim>\<open>upper_digits\<close>.\<close>

definition lower_digits :: "u8 list" where
  "lower_digits = [0x30, 0x31, 0x32, 0x33, 0x34, 0x35, 0x36, 0x37, 0x38, 0x39, 0x61, 0x62, 0x63, 0x64, 0x65, 0x66]"

definition upper_digits :: "u8 list" where
  "upper_digits = [0x30, 0x31, 0x32, 0x33, 0x34, 0x35, 0x36, 0x37, 0x38, 0x39, 0x41, 0x42, 0x43, 0x44, 0x45, 0x46]"

text \<open>The choice of \<^verbatim>\<open>base\<close>, \<^verbatim>\<open>digits\<close>, sign and width at the start of \<^verbatim>\<open>write_number_kuint32\<close>.\<close>

definition base_of :: "u32 \<Rightarrow> u32" where
  "base_of flags = (if flags AND FLAG_HEX \<noteq> 0 then 16 else if flags AND FLAG_OCTAL \<noteq> 0 then 8 else 10)"

definition digits_of :: "u32 \<Rightarrow> u8 list" where
  "digits_of flags = (if flags AND FLAG_HEX \<noteq> 0 \<and> flags AND FLAG_UPPERCASE \<noteq> 0 then upper_digits else lower_digits)"

definition sign_of :: "u32 \<Rightarrow> u32 \<Rightarrow> u32 \<times> u32" where
  "sign_of number flags =
     (if flags AND FLAG_HEX = 0 \<and> flags AND FLAG_OCTAL = 0 \<and> flags AND FLAG_UNSIGNED = 0 \<and>
         number AND 0x80000000 \<noteq> 0
      then (NOT number + 1, flags OR FLAG_MINUS) else (number, flags))"

definition shorten :: "u32 \<Rightarrow> u32 \<Rightarrow> u32" where
  "shorten number flags =
     (if flags AND LENGTH_KUINT8 \<noteq> 0 then ucast (ucast number :: u8)
      else if flags AND LENGTH_KUINT16 \<noteq> 0 then ucast (ucast number :: u16) else number)"

lemma base_of_cases: "base_of flags = 16 \<or> base_of flags = 8 \<or> base_of flags = 10"
  by (simp add: base_of_def)

lemma unat_base_of: "unat (base_of flags) = (if flags AND FLAG_HEX \<noteq> 0 then 16 else if flags AND FLAG_OCTAL \<noteq> 0 then 8 else 10)"
  by (simp add: base_of_def)

text \<open>The \<^verbatim>\<open>do\<close> loop: the digits in the order in which they are stored.\<close>

function store_digits :: "u32 \<Rightarrow> u32 \<Rightarrow> u8 list" where
  "store_digits flags number =
     digits_of flags ! unat (number mod base_of flags) #
     (if number div base_of flags > 0 then store_digits flags (number div base_of flags) else [])"
  by pat_completeness auto
termination
proof (relation "measure (\<lambda>(flags, number). unat number)", simp)
  fix flags number :: u32
  assume "0 < number div base_of flags"
  then have "number \<noteq> 0" by auto
  then have "0 < unat number" by (simp add: unat_gt_0)
  moreover have "2 \<le> unat (base_of flags)" by (simp add: unat_base_of)
  ultimately have "unat number div unat (base_of flags) < unat number" by (intro div_less_dividend) simp_all
  then show "((flags, number div base_of flags), flags, number) \<in> measure (\<lambda>(flags, number). unat number)"
    by (simp add: unat_div)
qed

declare store_digits.simps [simp del]

text \<open>
  \<^verbatim>\<open>while(pad-- > 0) *(p++) = c\<close>: what is stored, and \<^verbatim>\<open>pad\<close> afterwards. The test after the last turn
  decrements it once more.
\<close>

definition store_pad :: "u8 \<Rightarrow> int \<Rightarrow> u8 list \<times> int" where
  "store_pad c pad = (replicate (nat pad) c, min pad 0 - 1)"

text \<open>The array up to \<^verbatim>\<open>p\<close>, when \<^verbatim>\<open>write_number_kuint32\<close> starts to read it backwards.\<close>

definition number_array :: "u32 \<Rightarrow> u32 \<Rightarrow> u32 \<Rightarrow> u8 list" where
  "number_array number0 flags0 width =
     (let (number1, flags) = sign_of number0 flags0;
          number = shorten number1 flags;
          digits = store_digits flags number;
          pad0 = uint (width AND 0x3F) - int (length digits);
          (zeros, pad1) = if flags AND FLAG_ZERO_PAD \<noteq> 0 then store_pad 0x30 pad0 else ([], pad0);
          prefix = if flags AND FLAG_ALTERNATE \<noteq> 0 then
              (if flags AND FLAG_HEX \<noteq> 0 then
                 [if flags AND FLAG_UPPERCASE \<noteq> 0 then 0x58 else 0x78, 0x30]
               else if (flags AND FLAG_OCTAL) AND (if flags AND FLAG_ZERO_PAD = 0 then 1 else 0) \<noteq> 0 then [0x30]
               else [])
            else [];
          minus = if flags AND FLAG_MINUS \<noteq> 0 then [0x2D] else [];
          (spaces, pad2) = store_pad 0x20 pad1
      in [0] @ digits @ zeros @ prefix @ minus @ spaces)"

definition write_number_kuint32 :: "u32 \<Rightarrow> u32 \<Rightarrow> u32 \<Rightarrow> u8 list" where
  "write_number_kuint32 number flags width = takeWhile (\<lambda>c. c \<noteq> 0) (rev (number_array number flags width))"

definition write_number_kuint64 :: "u64 \<Rightarrow> u32 \<Rightarrow> u32 \<Rightarrow> u8 list" where
  "write_number_kuint64 number flags width = []"

definition write_string :: "u8 list \<Rightarrow> u8 list" where
  "write_string s = takeWhile (\<lambda>c. c \<noteq> 0) s"

section \<open>What a number looks like\<close>

text \<open>The value of a digit, and of a list of digits with the most significant one first.\<close>

definition char_value :: "u8 \<Rightarrow> nat" where
  "char_value c =
     (if c < 0x3A then unat (c - 0x30) else if c < 0x5B then unat (c - 0x41) + 10 else unat (c - 0x61) + 10)"

definition read_number :: "nat \<Rightarrow> u8 list \<Rightarrow> nat" where
  "read_number b cs = foldl (\<lambda>v c. v * b + char_value c) 0 cs"

lemma sixteen: "i < 16 \<longleftrightarrow> i \<in> {0, 1, 2, 3, 4, 5, 6, 7, 8, 9, 10, 11, 12, 13, 14, 15}" for i :: nat
  by (simp, presburger)

lemma char_value_digit: "i < 16 \<Longrightarrow> char_value (digits_of flags ! i) = i" "i < 16 \<Longrightarrow> digits_of flags ! i \<noteq> 0"
  unfolding sixteen
  by (auto simp: digits_of_def lower_digits_def upper_digits_def char_value_def numeral_nat(7))

lemma read_number_snoc: "read_number b (cs @ [c]) = read_number b cs * b + char_value c"
  by (simp add: read_number_def)

lemma read_number_zeros: "read_number b (replicate k 0x30 @ cs) = read_number b cs"
proof -
  have "foldl (\<lambda>v c. v * b + char_value c) 0 (replicate k 0x30) = 0"
    by (induction k) (simp_all add: char_value_def)
  then show ?thesis by (simp add: read_number_def)
qed

lemma base_ge: "8 \<le> unat (base_of flags)" "unat (base_of flags) \<le> 16"
  by (simp_all add: unat_base_of)

lemma store_digits_spec:
  "read_number (unat (base_of flags)) (rev (store_digits flags n)) = unat n \<and>
   (\<forall>c\<in>set (store_digits flags n). c \<noteq> 0 \<and> char_value c < unat (base_of flags)) \<and>
   store_digits flags n \<noteq> [] \<and>
   (n \<noteq> 0 \<longrightarrow> char_value (last (store_digits flags n)) \<noteq> 0 \<and>
     unat (base_of flags) ^ (length (store_digits flags n) - 1) \<le> unat n)"
proof (induction flags n rule: store_digits.induct)
  case (1 flags n)
  let ?b = "unat (base_of flags)"
  let ?i = "unat (n mod base_of flags)"
  let ?c = "digits_of flags ! ?i"
  have i: "?i = unat n mod ?b" by (simp add: unat_mod)
  then have ib: "?i < ?b" using base_ge [of flags] by (simp add: pos_mod_bound)
  then have c: "char_value ?c = ?i" "?c \<noteq> 0" using base_ge [of flags] by (simp_all add: char_value_digit)
  show ?case
  proof (cases "0 < n div base_of flags")
    case True
    let ?ds = "store_digits flags (n div base_of flags)"
    have st: "store_digits flags n = ?c # ?ds" by (subst store_digits.simps) (simp add: True)
    have q: "unat (n div base_of flags) = unat n div ?b" by (simp add: unat_div)
    have IH: "read_number ?b (rev ?ds) = unat n div ?b" "\<forall>c\<in>set ?ds. c \<noteq> 0 \<and> char_value c < ?b" "?ds \<noteq> []"
      "char_value (last ?ds) \<noteq> 0" "?b ^ (length ?ds - 1) \<le> unat n div ?b"
      using 1(1) [OF True] True q by auto
    have "?b ^ length ?ds = ?b ^ (length ?ds - 1) * ?b"
      using IH(3) by (cases ?ds) simp_all
    also have "\<dots> \<le> unat n div ?b * ?b" using IH(5) by simp
    also have "\<dots> \<le> unat n" by simp
    finally have "?b ^ length ?ds \<le> unat n" .
    moreover have "read_number ?b (rev ?ds @ [?c]) = unat n"
      using IH(1) c(1) i by (simp add: read_number_snoc)
    ultimately show ?thesis using IH c ib by (simp add: st)
  next
    case False
    then have st: "store_digits flags n = [?c]" by (subst store_digits.simps) simp
    have "n div base_of flags = 0" using False by (simp add: word_gt_0)
    then have "unat n div ?b = 0" by (metis unat_0 unat_div)
    then have n: "?i = unat n" using i base_ge [of flags] by (auto simp: div_eq_0_iff)
    have "read_number ?b [?c] = unat n" using c(1) n by (simp add: read_number_def)
    moreover have "n \<noteq> 0 \<longrightarrow> 1 \<le> unat n" by (auto simp: Suc_le_eq unat_gt_0)
    ultimately show ?thesis using c ib n by (simp add: st unat_gt_0)
  qed
qed

lemma store_digits_length: "length (store_digits flags n) \<le> 11"
proof (cases "n = 0")
  case True
  then show ?thesis by (subst store_digits.simps) simp
next
  case False
  let ?l = "length (store_digits flags n) - 1"
  have "(8 :: nat) ^ ?l \<le> unat (base_of flags) ^ ?l" by (intro power_mono) (simp_all add: base_ge)
  also have "\<dots> \<le> unat n" using store_digits_spec [of flags n] False by blast
  also have "\<dots> < 8 ^ 11" using unat_u32_less [of n] by simp
  finally have "?l < 11" by (rule power_less_imp_less_exp [rotated]) simp
  then show ?thesis by simp
qed

text \<open>
  C27: the array of \<^verbatim>\<open>write_number_kuint32\<close> is large enough. Whatever number, flags and width it is given,
  at most 67 of the 68 bytes are stored, and only the first of them is the 0 that ends the way back.
\<close>
theorem number_fits_array:
  "length (number_array number flags width) \<le> 67 \<and> hd (number_array number flags width) = 0 \<and>
   0 \<notin> set (tl (number_array number flags width))"
proof -
  obtain n fl where s: "sign_of number flags = (n, fl)" by fastforce
  let ?ds = "store_digits fl (shorten n fl)"
  have "unat (width AND 0x3F) < 64" by (simp add: and_low_mask unat_take_bit_mod)
  then have "int (unat (width AND 0x3F)) < 64" by linarith
  then have w: "uint (width AND 0x3F) < 64" by simp
  have d: "length ?ds \<le> 11" "\<forall>c\<in>set ?ds. c \<noteq> 0" using store_digits_length store_digits_spec by blast+
  show ?thesis
    using w d by (auto simp: number_array_def s Let_def store_pad_def split: if_splits)
qed

text \<open>The value a signed decimal number is to have.\<close>

definition signed_value :: "bool \<Rightarrow> nat \<Rightarrow> int" where
  "signed_value neg v = (if neg then - int v else int v)"

lemma and_other_flag: "FLAG_MINUS AND m = 0 \<Longrightarrow> (flags OR FLAG_MINUS) AND m = flags AND m" for flags :: u32
  by (simp add: bit.conj_disj_distrib2)

lemma sign_of_flags:
  assumes "sign_of number flags = (n, fl)"
  shows "base_of fl = base_of flags" "digits_of fl = digits_of flags" "FLAG_MINUS AND m = 0 \<Longrightarrow> fl AND m = flags AND m"
    "fl AND FLAG_MINUS \<noteq> 0 \<longleftrightarrow> flags AND FLAG_MINUS \<noteq> 0 \<or> n \<noteq> number \<or>
      (flags AND FLAG_HEX = 0 \<and> flags AND FLAG_OCTAL = 0 \<and> flags AND FLAG_UNSIGNED = 0 \<and> number AND 0x80000000 \<noteq> 0)"
  using assms by (auto simp: sign_of_def base_of_def digits_of_def and_other_flag bit.conj_disj_distrib2 split: if_splits)

text \<open>The sign taken off a number: two's complement negation, read back by its minus sign.\<close>

lemma sign_of_value:
  assumes "sign_of number flags = (n, fl)" "flags AND FLAG_MINUS = 0"
    "flags AND FLAG_HEX = 0" "flags AND FLAG_OCTAL = 0" "flags AND FLAG_UNSIGNED = 0"
  shows "signed_value (fl AND FLAG_MINUS \<noteq> 0) (unat n) = sint number"
proof -
  have top: "number AND 0x80000000 = 0 \<longleftrightarrow> \<not> bit number 31"
    using and_exp_eq_0_iff_not_bit [of number 31] by simp
  have half: "bit number 31 \<longleftrightarrow> 2147483648 \<le> unat number"
  proof -
    have "u div 2147483648 = (if 2147483648 \<le> u then 1 else 0)" if "u < 4294967296" for u :: nat
      using that by (simp add: le_div_geq)
    from this [of "unat number"] show ?thesis using unat_u32_less [of number] by (simp add: bit_unat)
  qed
  have s: "sint number = (if unat number < 2147483648 then int (unat number) else int (unat number) - 4294967296)"
  proof -
    have "int (unat number) < 2147483648 \<longleftrightarrow> unat number < 2147483648" by linarith
    then show ?thesis by (subst sint_by_uint) simp
  qed
  show ?thesis
  proof (cases "bit number 31")
    case False
    then have "n = number" "fl = flags" using assms top by (auto simp: sign_of_def)
    then show ?thesis using assms(2) False half s by (simp add: signed_value_def)
  next
    case True
    then have n: "n = NOT number + 1" and fl: "fl = flags OR FLAG_MINUS"
      using assms top by (auto simp: sign_of_def)
    have "n = - number" by (simp add: n not_eq_complement)
    moreover have "uint (- number) = (- uint number) mod 4294967296" by (simp add: uint_word_ariths)
    moreover have "0 < int (unat number)" "int (unat number) < 4294967296"
      using True half unat_u32_less [of number] by linarith+
    ultimately have "uint n = 4294967296 - uint number" by (simp add: zmod_zminus1_eq_if)
    then have "int (unat n) = 4294967296 - int (unat number)" by simp
    moreover have "fl AND FLAG_MINUS \<noteq> 0" by (simp add: fl bit.conj_disj_distrib2 assms(2))
    ultimately show ?thesis using True half s unat_u32_less [of number] by (simp add: signed_value_def)
  qed
qed

text \<open>The three parts in front of the digits, in the order of the output; the octal prefix never comes.\<close>

definition hex_prefix :: "u32 \<Rightarrow> u8 list" where
  "hex_prefix flags = (if flags AND FLAG_ALTERNATE \<noteq> 0 \<and> flags AND FLAG_HEX \<noteq> 0
     then [0x30, if flags AND FLAG_UPPERCASE \<noteq> 0 then 0x58 else 0x78] else [])"

definition minus_sign :: "u32 \<Rightarrow> u8 list" where
  "minus_sign flags = (if flags AND FLAG_MINUS \<noteq> 0 then [0x2D] else [])"

lemma write_number_eq:
  fixes width :: u32
  assumes "sign_of number flags = (n, fl)"
  defines "ds \<equiv> rev (store_digits fl (shorten n fl))"
  defines "pad \<equiv> unat (width AND 0x3F) - length ds"
  shows "write_number_kuint32 number flags width =
    (if fl AND FLAG_ZERO_PAD \<noteq> 0 then minus_sign fl @ hex_prefix fl @ replicate pad 0x30 @ ds
     else replicate pad 0x20 @ minus_sign fl @ hex_prefix fl @ ds)"
proof -
  have oct: "(fl AND FLAG_OCTAL) AND 1 = 0" by (simp add: and.assoc)
  have pad: "nat (uint (width AND 0x3F) - int (length (store_digits fl (shorten n fl)))) = pad"
  proof -
    have "nat (int (unat (width AND 0x3F)) - int b) = unat (width AND 0x3F) - b" for b by linarith
    then show ?thesis by (simp add: pad_def ds_def)
  qed
  have nz: "\<forall>c\<in>set ds. c \<noteq> 0" using store_digits_spec [of fl "shorten n fl"] by (auto simp: ds_def)
  define body where "body = rev (tl (number_array number flags width))"
  have body: "body = (if fl AND FLAG_ZERO_PAD \<noteq> 0 then minus_sign fl @ hex_prefix fl @ replicate pad 0x30 @ ds
     else replicate pad 0x20 @ minus_sign fl @ hex_prefix fl @ ds)"
    using oct by (simp add: body_def number_array_def assms(1) Let_def store_pad_def pad hex_prefix_def minus_sign_def ds_def)
  have "number_array number flags width = 0 # rev body"
    by (simp add: body_def number_array_def assms(1) Let_def split_beta)
  moreover have "\<forall>c\<in>set body. c \<noteq> 0"
    using nz by (auto simp: body hex_prefix_def minus_sign_def split: if_splits)
  ultimately have "write_number_kuint32 number flags width = body"
    by (simp add: write_number_kuint32_def takeWhile_append2)
  then show ?thesis by (simp add: body)
qed



end
