(* ===== verification/Kfloat.thy ===== *)
theory Kfloat
  imports Numbers "HOL-Library.Log_Nat"
begin

unbundle bit_operations_syntax

text \<open>
  \<^verbatim>\<open>write_number_kfloat\<close> of \<^verbatim>\<open>arch/ia32/printf.c\<close>. A \<^verbatim>\<open>kfloat\<close> is a long double of the x87 unit, whose
  arithmetic is written out here on a significand and an exponent: rounding to nearest, ties to even,
  at 64 bits, as after the \<^verbatim>\<open>fnsave\<close> that starts every thread. The routine multiplies and divides only
  where neither overflow nor underflow can happen, so the exponent has no bounds here. \<^verbatim>\<open>count\<close> and
  \<^verbatim>\<open>decimal_places\<close> stay below \<^verbatim>\<open>2^16\<close> in absolute value and are integers.
\<close>

section \<open>Long doubles\<close>

text \<open>\<open>Finite m e\<close> is \<open>m * 2 ^ e\<close>; the sign of a zero makes no difference to the routine.\<close>

datatype kfloat = Finite int int | Infinite bool | Not_A_Number

text \<open>The three words of a \<^verbatim>\<open>kfloat\<close> on the stack; the upper half of the last one is padding.\<close>

definition kfloat_of :: "u32 \<times> u32 \<times> u32 \<Rightarrow> kfloat" where
  "kfloat_of = (\<lambda>(w0, w1, w2).
     let significand = uint w1 * 2 ^ 32 + uint w0; ex = uint (w2 AND 0x7FFF); neg = w2 AND 0x8000 \<noteq> 0
     in if ex = 0x7FFF then (if significand = 2 ^ 63 then Infinite neg else Not_A_Number)
        else if ex \<noteq> 0 \<and> significand < 2 ^ 63 then Not_A_Number
        else Finite (if neg then - significand else significand) (max ex 1 - 16446))"

text \<open>Rounding \<open>m * 2 ^ e\<close>, with \<open>m\<close> not negative, to a significand of 64 bits.\<close>

definition nearest :: "nat \<Rightarrow> int \<Rightarrow> int" where
  "nearest k m = (let q = m div 2 ^ k; r = 2 * (m mod 2 ^ k)
     in if r < 2 ^ k \<or> r = 2 ^ k \<and> even q then q else q + 1)"

definition round_sig :: "int \<Rightarrow> int \<Rightarrow> int \<times> int" where
  "round_sig m e =
     (let k = bitlen m - 64; q = nearest (nat k) m
      in if k \<le> 0 then (m, e) else if q = 2 ^ 64 then (2 ^ 63, e + k + 1) else (q, e + k))"

text \<open>A signed result: the magnitude is rounded.\<close>

definition rounded :: "int \<Rightarrow> int \<Rightarrow> kfloat" where
  "rounded m e = (let (q, e1) = round_sig \<bar>m\<bar> e in Finite (sgn m * q) e1)"

text \<open>
  What \<^verbatim>\<open>write_number_kfloat\<close> does with a number. A quotient is taken to 68 further bits, with one more
  bit for a remainder, which is enough to round it correctly. The conversion cuts off the fraction; it
  goes through 64 bits, and what does not fit gives \<^verbatim>\<open>2^63\<close>, whose low word is 0.
\<close>

fun below_zero :: "kfloat \<Rightarrow> bool" where
  "below_zero (Finite m e) \<longleftrightarrow> m < 0"
| "below_zero (Infinite neg) \<longleftrightarrow> neg"
| "below_zero Not_A_Number \<longleftrightarrow> False"

fun negated :: "kfloat \<Rightarrow> kfloat" where
  "negated (Finite m e) = Finite (- m) e"
| "negated (Infinite neg) = Infinite (\<not> neg)"
| "negated Not_A_Number = Not_A_Number"

fun at_least_one :: "kfloat \<Rightarrow> bool" where
  "at_least_one (Finite m e) \<longleftrightarrow> (if 0 \<le> e then 1 \<le> m else 2 ^ nat (- e) \<le> m)"
| "at_least_one (Infinite neg) \<longleftrightarrow> \<not> neg"
| "at_least_one Not_A_Number \<longleftrightarrow> False"

fun divided_by_ten :: "kfloat \<Rightarrow> kfloat" where
  "divided_by_ten (Finite m e) =
     (let q = \<bar>m\<bar> * 2 ^ 68 div 10; r = \<bar>m\<bar> * 2 ^ 68 mod 10
      in rounded (sgn m * (2 * q + (if r \<noteq> 0 then 1 else 0))) (e - 69))"
| "divided_by_ten x = x"

fun times_ten :: "kfloat \<Rightarrow> kfloat" where
  "times_ten (Finite m e) = rounded (m * 10) e"
| "times_ten x = x"

definition whole_part :: "int \<Rightarrow> int \<Rightarrow> int" where
  "whole_part m e = (if 0 \<le> e then m * 2 ^ nat e else sgn m * (\<bar>m\<bar> div 2 ^ nat (- e)))"

fun to_kuint :: "kfloat \<Rightarrow> u32" where
  "to_kuint (Finite m e) =
     (if \<bar>whole_part m e\<bar> < 2 ^ 63 then word_of_int (whole_part m e) else 0)"
| "to_kuint x = 0"

fun minus_kuint :: "kfloat \<Rightarrow> u32 \<Rightarrow> kfloat" where
  "minus_kuint (Finite m e) t =
     (if 0 \<le> e then rounded (m * 2 ^ nat e - uint t) 0 else rounded (m - uint t * 2 ^ nat (- e)) e)"
| "minus_kuint x t = x"

section \<open>The routine\<close>

text \<open>The first loop scales the number below 1 and counts the places before the point.\<close>

definition scale_turn :: "kfloat \<times> int \<Rightarrow> stop + (kfloat \<times> int + kfloat \<times> int)" where
  "scale_turn = (\<lambda>(number, count).
     if at_least_one number then Inr (Inl (divided_by_ten number, count + 1))
     else Inr (Inr (number, count)))"

text \<open>
  One turn of the second loop, on the number, \<^verbatim>\<open>count\<close>, \<^verbatim>\<open>decimal_places\<close>, \<^verbatim>\<open>written_one\<close> and the
  characters written.
\<close>

type_synonym digits_state = "kfloat \<times> int \<times> int \<times> bool \<times> u8 list"

definition digits_turn :: "digits_state \<Rightarrow> stop + (digits_state + u8 list)" where
  "digits_turn = (\<lambda>(number, count, decimal_places, written_one, out).
     if 0 < count \<or> 0 < decimal_places then
       (let out1 = out @ (if count = 0 then (if written_one then [0x2E] else [0x30, 0x2E]) else []);
            number1 = times_ten number;
            tmp = to_kuint number1;
            number2 = minus_kuint number1 tmp;
            out2 = out1 @ [ucast (tmp + 0x30)];
            count1 = (if 0 \<le> count then count - 1 else count);
            decimal_places1 = (if count1 < 0 then decimal_places - 1 else decimal_places)
        in Inr (Inl (number2, count1, decimal_places1, True, out2)))
     else Inr (Inr out))"

definition places_of :: "u32 \<Rightarrow> int" where
  "places_of width = (if width AND 0xFFFF = 0 then 6 else uint (width AND 0xFFFF))"

definition write_number_kfloat :: "kfloat \<Rightarrow> u32 \<Rightarrow> stop + u8 list" where
  "write_number_kfloat number width =
     (let out = (if below_zero number then [0x2D] else []);
          number1 = (if below_zero number then negated number else number)
      in andthen (iterate scale_turn (number1, 0)) (\<lambda>(number2, count).
           iterate digits_turn (number2, count, places_of width, False, out)))"

section \<open>Rounding\<close>

lemma nearest_bounds:
  "2 * m - 2 ^ k \<le> 2 * (2 ^ k * nearest k m)" "2 * (2 ^ k * nearest k m) \<le> 2 * m + 2 ^ k"
proof -
  define q r where "q = m div 2 ^ k" and "r = m mod 2 ^ k"
  have "2 ^ k * q + r = m" "0 \<le> r" "r < 2 ^ k" by (simp_all add: q_def r_def)
  moreover have "2 ^ k * (q + 1) = 2 ^ k * q + 2 ^ k" by (simp add: distrib_left)
  moreover have "nearest k m = (if 2 * r < 2 ^ k \<or> 2 * r = 2 ^ k \<and> even q then q else q + 1)"
    by (simp add: nearest_def q_def r_def Let_def)
  ultimately show "2 * m - 2 ^ k \<le> 2 * (2 ^ k * nearest k m)" "2 * (2 ^ k * nearest k m) \<le> 2 * m + 2 ^ k"
    by (simp_all split: if_splits)
qed

lemma nearest_nonneg: "0 \<le> m \<Longrightarrow> 0 \<le> nearest k m"
  by (simp add: nearest_def Let_def pos_imp_zdiv_nonneg_iff)

lemma round_sig_exact: "0 \<le> m \<Longrightarrow> m < 2 ^ 64 \<Longrightarrow> round_sig m e = (m, e)"
  using bitlen_le_iff_power [of m 64] by (simp add: round_sig_def)

text \<open>
  A rounded significand is \<open>q\<close> with the exponent raised by \<open>j\<close>; \<open>k\<close> bits were cut off, so it is off by
  half of \<open>2 ^ k\<close> at most.
\<close>

lemma round_sig_spec:
  assumes "0 \<le> m" and "2 ^ 64 \<le> m"
  obtains q j k where "round_sig m e = (q, e + int j)" "0 \<le> q" "q < 2 ^ 64" "k = nat (bitlen m - 64)" "0 < k"
    "2 * (q * 2 ^ j) \<le> 2 * m + 2 ^ k" "2 * m - 2 ^ k \<le> 2 * (q * 2 ^ j)"
proof -
  define k where "k = nat (bitlen m - 64)"
  have b: "64 < bitlen m" using assms bitlen_le_iff_power [of m 64] by (simp add: not_le [symmetric])
  then have k: "0 < k" "bitlen m - 64 = int k" "nat (bitlen m) = 64 + k" by (simp_all add: k_def)
  have "m < 2 ^ (64 + k)" using bitlen_bounds [of m] assms k by simp
  then have m: "m < 2 ^ 64 * 2 ^ k" by (simp add: power_add)
  let ?q = "nearest k m"
  note n = nearest_bounds [where m = m and k = k]
  have "2 ^ k * ((2 :: int) ^ 64 + 1) = 2 ^ 64 * 2 ^ k + 2 ^ k" "0 < (2 :: int) ^ k" by (simp_all add: algebra_simps)
  then have "2 ^ k * ?q < 2 ^ k * (2 ^ 64 + 1)" using n(2) m by linarith
  then have q: "?q \<le> 2 ^ 64" by simp
  show thesis
  proof (cases "?q = 2 ^ 64")
    case True
    have "round_sig m e = (2 ^ 63, e + int (k + 1))" using k True by (simp add: round_sig_def Let_def)
    then show ?thesis
    proof (rule that)
      show "2 * (2 ^ 63 * 2 ^ (k + 1)) \<le> 2 * m + 2 ^ k" "2 * m - 2 ^ k \<le> 2 * (2 ^ 63 * 2 ^ (k + 1))"
        using n True by simp_all
    qed (simp_all add: k_def b)
  next
    case False
    have "round_sig m e = (?q, e + int k)" using k False by (simp add: round_sig_def Let_def)
    then show ?thesis
    proof (rule that)
      show "?q < 2 ^ 64" using q False by simp
      show "0 \<le> ?q" by (rule nearest_nonneg [OF assms(1)])
      show "2 * (?q * 2 ^ k) \<le> 2 * m + 2 ^ k" "2 * m - 2 ^ k \<le> 2 * (?q * 2 ^ k)"
        using n by (simp_all add: mult.commute)
    qed (simp_all add: k_def b)
  qed
qed

section \<open>Values\<close>

definition float_value :: "int \<Rightarrow> int \<Rightarrow> rat" where
  "float_value m e = of_int m * 2 powi e"

lemma whole_part_floor: "0 \<le> m \<Longrightarrow> whole_part m e = \<lfloor>float_value m e\<rfloor>"
proof (cases "0 \<le> e")
  case True
  have "float_value m e = of_int (m * 2 ^ nat e)" using True by (simp add: float_value_def power_int_def)
  then show ?thesis using True by (simp add: whole_part_def del: of_int_mult of_int_power)
next
  case False
  assume "0 \<le> m"
  have "float_value m e = of_int m / of_int (2 ^ nat (- e))"
    using False by (simp add: float_value_def power_int_def field_simps)
  then show ?thesis
    using False \<open>0 \<le> m\<close> by (simp add: whole_part_def floor_divide_of_int_eq sgn_if del: of_int_power)
qed

lemma at_least_one_value: "0 \<le> m \<Longrightarrow> at_least_one (Finite m e) \<longleftrightarrow> 1 \<le> float_value m e"
proof (cases "0 \<le> e")
  case True
  assume "0 \<le> m"
  have "float_value m e = of_int (m * 2 ^ nat e)" using True by (simp add: float_value_def power_int_def)
  moreover have "1 \<le> m \<longleftrightarrow> 1 \<le> m * 2 ^ nat e" using \<open>0 \<le> m\<close> by (auto simp: mult_le_0_iff int_one_le_iff_zero_less zero_less_mult_iff)
  ultimately show ?thesis using True by (simp del: of_int_mult of_int_power)
next
  case False
  have "1 \<le> float_value m e \<longleftrightarrow> of_int (2 ^ nat (- e)) \<le> (of_int m :: rat)"
    using False by (simp add: float_value_def power_int_def field_simps)
  then show ?thesis using False by (simp only: of_int_le_iff at_least_one.simps) simp
qed

fun kfloat_value :: "kfloat \<Rightarrow> rat" where
  "kfloat_value (Finite m e) = float_value m e"
| "kfloat_value _ = 0"

section \<open>Digits after the point\<close>

text \<open>A number that is finite, not negative and below 1, or no number, which prints as 0.\<close>

definition fraction :: "kfloat \<Rightarrow> bool" where
  "fraction x \<longleftrightarrow> x = Not_A_Number \<or> (\<exists>m e. x = Finite m e \<and> 0 \<le> m \<and> m < 2 ^ 64 \<and> m < 2 ^ nat (- e))"

lemma fraction_value:
  assumes "fraction x"
  shows "0 \<le> kfloat_value x \<and> kfloat_value x < 1"
proof (cases "x = Not_A_Number")
  case False
  then obtain m e where x: "x = Finite m e" "0 \<le> m" "m < 2 ^ nat (- e)" using assms by (auto simp: fraction_def)
  then have "0 \<le> kfloat_value x" by (simp add: float_value_def)
  moreover have "\<not> at_least_one (Finite m e)" using x by auto
  ultimately show ?thesis using x by (simp add: at_least_one_value del: at_least_one.simps)
qed simp

lemma rounded_small: "0 \<le> m \<Longrightarrow> m < 2 ^ 64 \<Longrightarrow> rounded m e = Finite m e"
  by (simp add: rounded_def round_sig_exact sgn_if)

text \<open>Ten times a fraction is below 10, however it is rounded.\<close>

lemma times_ten_fraction:
  assumes "0 \<le> m" "m < 2 ^ 64" "m < 2 ^ n"
  obtains q j where "times_ten (Finite m e) = Finite q (e + int j)" "0 \<le> q" "q < 2 ^ 64" "q * 2 ^ j < 10 * 2 ^ n"
    "10 * m < 2 ^ 64 \<Longrightarrow> j = 0 \<and> q = 10 * m"
proof (cases "10 * m < 2 ^ 64")
  case True
  then show ?thesis
    using assms by (intro that [of "10 * m" 0]) (simp_all add: rounded_small mult.commute)
next
  case False
  from assms(1) False have "0 \<le> 10 * m" "2 ^ 64 \<le> 10 * m" by simp_all
  then obtain q j k where q: "round_sig (10 * m) e = (q, e + int j)" "0 \<le> q" "q < 2 ^ 64"
      "k = nat (bitlen (10 * m) - 64)" "2 * (q * 2 ^ j) \<le> 2 * (10 * m) + 2 ^ k"
    by (rule round_sig_spec)
  have "bitlen (10 * m) \<le> 68" using assms(2) by (simp add: bitlen_le_iff_power)
  then have "k \<le> 4" using q(4) by simp
  then have "(2 :: int) ^ k \<le> 2 ^ 4" by (intro power_increasing) simp_all
  moreover have "m + 1 \<le> 2 ^ n" using assms(3) by simp
  ultimately have "q * 2 ^ j < 10 * 2 ^ n" using q(5) by simp
  moreover have "times_ten (Finite m e) = Finite q (e + int j)"
    using q(1) assms(1) False by (simp add: rounded_def mult.commute [of m] sgn_if abs_mult)
  ultimately show ?thesis using q False by (intro that [of q j]) simp_all
qed

lemma uint_digit: "0 \<le> w \<Longrightarrow> w < 10 \<Longrightarrow> uint (word_of_nat (nat w) :: u32) = w"
  by (simp add: unsigned_of_int take_bit_int_eq_self)

lemma div_less_times: "q < c * p \<Longrightarrow> 0 < p \<Longrightarrow> q div p < c" for q c p :: int
  by (metis div_mult_mod_eq not_le order_trans mult_right_mono less_imp_le le_add_same_cancel1 pos_mod_sign)

text \<open>So the character written is a digit, and a fraction is left.\<close>

lemma digit_of_fraction:
  assumes "fraction x"
  obtains t where "to_kuint (times_ten x) = word_of_nat t" "t < 10"
    "fraction (minus_kuint (times_ten x) (word_of_nat t))"
    "kfloat_value (minus_kuint (times_ten x) (word_of_nat t)) = kfloat_value (times_ten x) - of_nat t"
proof (cases "x = Not_A_Number")
  case True
  then show thesis by (intro that [of 0]) (simp_all add: fraction_def)
next
  case False
  then obtain m e where x: "x = Finite m e" "0 \<le> m" "m < 2 ^ 64" "m < 2 ^ nat (- e)"
    using assms by (auto simp: fraction_def)
  obtain q j where q: "times_ten x = Finite q (e + int j)" "0 \<le> q" "q < 2 ^ 64" "q * 2 ^ j < 10 * 2 ^ nat (- e)"
    "10 * m < 2 ^ 64 \<Longrightarrow> j = 0 \<and> q = 10 * m"
    using times_ten_fraction [OF x(2-4), of e] unfolding x(1) by blast
  show thesis
  proof (cases "0 \<le> e + int j")
    case True
    let ?w = "q * 2 ^ nat (e + int j)"
    have w: "?w < 10"
    proof (cases "0 \<le> e")
      case True
      then have "m = 0" using x by simp
      then show ?thesis using q(5) by simp
    next
      case False
      have "j = nat (e + int j) + nat (- e)" using True False by simp
      then have "(2 :: int) ^ j = 2 ^ nat (e + int j) * 2 ^ nat (- e)" by (metis power_add)
      then have "?w * 2 ^ nat (- e) < 10 * 2 ^ nat (- e)" using q(4) by simp
      then show ?thesis by simp
    qed
    have w0: "0 \<le> ?w" using q(2) by simp
    have "to_kuint (times_ten x) = word_of_nat (nat ?w)"
      using w w0 True by (simp add: q(1) whole_part_def)
    moreover have "minus_kuint (times_ten x) (word_of_nat (nat ?w)) = Finite 0 0"
      using True by (simp add: q(1) uint_digit [OF w0 w] rounded_small del: of_nat_nat)
    moreover have "float_value q (e + int j) = of_int ?w"
      using True by (simp add: float_value_def power_int_def)
    moreover have "kfloat_value (times_ten x) = float_value q (e + int j)" by (simp add: q(1))
    ultimately show ?thesis
      using w w0 by (intro that [of "nat ?w"]) (simp_all add: fraction_def float_value_def)
  next
    case False
    define n where "n = nat (- e - int j)"
    let ?w = "q div 2 ^ n"
    have "nat (- e) = n + j" using False by (simp add: n_def)
    then have "q * 2 ^ j < 10 * 2 ^ n * 2 ^ j" using q(4) by (simp add: power_add)
    then have "q < 10 * 2 ^ n" by simp
    then have w: "?w < 10" by (intro div_less_times) simp_all
    have w0: "0 \<le> ?w" using q(2) by (simp add: pos_imp_zdiv_nonneg_iff)
    have "to_kuint (times_ten x) = word_of_nat (nat ?w)"
      using w w0 q(2) False by (simp add: q(1) whole_part_def sgn_if flip: n_def)
    moreover have "minus_kuint (times_ten x) (word_of_nat (nat ?w)) = Finite (q mod 2 ^ n) (e + int j)"
    proof -
      have "q mod 2 ^ n \<le> q" using q(2) by (simp add: zmod_le_nonneg_dividend)
      then have "rounded (q mod 2 ^ n) (e + int j) = Finite (q mod 2 ^ n) (e + int j)"
        using q(3) by (intro rounded_small) simp_all
      then show ?thesis
        using False by (simp add: q(1) uint_digit [OF w0 w] minus_div_mult_eq_mod del: of_nat_nat flip: n_def)
    qed
    moreover have small: "q mod 2 ^ n < 2 ^ 64" using q(2,3) zmod_le_nonneg_dividend [of q "2 ^ n"] by linarith
    moreover have "float_value (q mod 2 ^ n) (e + int j) = float_value q (e + int j) - of_nat (nat ?w)"
    proof -
      have "q mod 2 ^ n = q - ?w * 2 ^ n" by (simp add: minus_div_mult_eq_mod)
      moreover have "(2 :: rat) ^ n * 2 powi (e + int j) = 1"
        using False by (simp add: n_def power_int_def flip: power_mult_distrib)
      ultimately show ?thesis using w0 by (simp add: float_value_def left_diff_distrib mult.assoc)
    qed
    moreover have "kfloat_value (times_ten x) = float_value q (e + int j)" by (simp add: q(1))
    moreover have "fraction (Finite (q mod 2 ^ n) (e + int j))"
      using small by (simp add: fraction_def n_def)
    ultimately show ?thesis using w w0 by (intro that [of "nat ?w"]) simp_all
  qed
qed

section \<open>Numbers that are not rounded\<close>

text \<open>
  A fraction with at most 60 binary places is never rounded while its decimals are taken off.
\<close>

lemma round_sig_value:
  assumes "0 \<le> b" "b < 2 ^ 64" "round_sig (b * 2 ^ i) e = (q, e1)"
  shows "float_value q e1 = float_value (b * 2 ^ i) e"
proof (cases "b * 2 ^ i < 2 ^ 64")
  case True
  then show ?thesis using assms by (simp add: round_sig_exact)
next
  case False
  then have b: "0 < b" using assms(1) by (cases "b = 0") simp_all
  have "bitlen b \<le> 64" using assms(2) by (simp add: bitlen_le_iff_power)
  define k where "k = nat (bitlen (b * 2 ^ i) - 64)"
  have k: "bitlen (b * 2 ^ i) - 64 = int k" "0 < k"
    using False bitlen_le_iff_power [of "b * 2 ^ i" 64] by (simp_all add: k_def not_le [symmetric])
  have "k \<le> i" using k b \<open>bitlen b \<le> 64\<close> by simp
  then have m: "b * 2 ^ i = b * 2 ^ (i - k) * 2 ^ k" by (simp add: power_add [symmetric])
  have n: "nearest k (b * 2 ^ i) = b * 2 ^ (i - k)" by (simp add: nearest_def m Let_def)
  show ?thesis
  proof (cases "b * 2 ^ (i - k) = 2 ^ 64")
    case True
    then have "q = 2 ^ 63" "e1 = e + int k + 1" using assms(3) k n by (simp_all add: round_sig_def Let_def)
    then show ?thesis using True by (simp add: float_value_def m power_int_add)
  next
    case False
    then have "q = b * 2 ^ (i - k)" "e1 = e + int k" using assms(3) k n by (simp_all add: round_sig_def Let_def)
    then show ?thesis by (simp add: float_value_def m power_int_add)
  qed
qed

lemma times_ten_exact:
  assumes "fraction x" "kfloat_value x = of_int a / 2 ^ n" "n \<le> 60"
  shows "kfloat_value (times_ten x) = 10 * kfloat_value x"
proof (cases "x = Not_A_Number")
  case False
  then obtain m e where x: "x = Finite m e" "0 \<le> m" "m < 2 ^ 64" "m < 2 ^ nat (- e)"
    using assms(1) by (auto simp: fraction_def)
  define E where "E = nat (- e)"
  have v: "float_value m e = of_int m / 2 ^ E"
    using x by (cases "0 \<le> e") (simp_all add: E_def float_value_def power_int_def field_simps)
  have "(of_int (m * 2 ^ n) :: rat) = of_int (a * 2 ^ E)"
    using assms(2) by (simp add: x(1) v field_simps)
  then have eq: "m * 2 ^ n = a * 2 ^ E" by (simp only: of_int_eq_iff)
  have "of_int a / 2 ^ n < (1 :: rat)" using fraction_value [OF assms(1)] assms(2) by simp
  then have "of_int a < (of_int (2 ^ n) :: rat)" by simp
  then have "a < 2 ^ n" by (simp only: of_int_less_iff)
  also have "(2 :: int) ^ n \<le> 2 ^ 60" using assms(3) by (intro power_increasing) simp_all
  finally have a60: "a < 2 ^ 60" .
  have "0 \<le> a * 2 ^ E" using x(2) by (simp flip: eq)
  then have a0: "0 \<le> a" by (simp add: zero_le_mult_iff)
  show ?thesis
  proof (cases "n \<le> E")
    case True
    then have "m * 2 ^ n = a * 2 ^ (E - n) * 2 ^ n" using eq by (simp add: power_add [symmetric])
    then have m: "m * 10 = a * 10 * 2 ^ (E - n)" by simp
    obtain q e1 where q: "round_sig (a * 10 * 2 ^ (E - n)) e = (q, e1)" by fastforce
    have "float_value q e1 = float_value (a * 10 * 2 ^ (E - n)) e"
      using a0 a60 by (intro round_sig_value [OF _ _ q]) simp_all
    moreover have "times_ten x = Finite q e1"
    proof (cases "m = 0")
      case True
      then show ?thesis using q by (simp add: x(1) rounded_def m [symmetric] round_sig_exact)
    next
      case False
      then show ?thesis using q x(2) by (simp add: x(1) rounded_def m [symmetric] sgn_if abs_mult)
    qed
    ultimately show ?thesis by (simp add: x(1) float_value_def m [symmetric] mult.commute)
  next
    case False
    then have "m * 2 ^ (n - E) * 2 ^ E = a * 2 ^ E" using eq by (simp add: power_add [symmetric] mult.assoc)
    then have "m * 2 ^ (n - E) = a" by simp
    moreover have "m * 1 \<le> m * 2 ^ (n - E)" using x(2) by (intro mult_left_mono) simp_all
    ultimately have "m * 10 < 2 ^ 64" using a60 by simp
    then show ?thesis using x(2) by (simp add: x(1) rounded_small float_value_def)
  qed
qed simp

definition binary_places :: "rat \<Rightarrow> bool" where
  "binary_places v \<longleftrightarrow> (\<exists>a n. n \<le> 60 \<and> v = of_int a / 2 ^ n)"

lemma binary_places_next: "binary_places v \<Longrightarrow> binary_places (10 * v - of_nat t)"
proof -
  assume "binary_places v"
  then obtain a n where "n \<le> 60" "v = of_int a / 2 ^ n" by (auto simp: binary_places_def)
  then have "10 * v - of_nat t = of_int (10 * a - int t * 2 ^ n) / 2 ^ n" by (simp add: field_simps)
  with \<open>n \<le> 60\<close> show ?thesis unfolding binary_places_def by blast
qed

lemma digit_exact:
  assumes "fraction x" "binary_places (kfloat_value x)"
    and "kfloat_value y = kfloat_value (times_ten x) - of_nat t"
  shows "kfloat_value y = 10 * kfloat_value x - of_nat t" "binary_places (kfloat_value y)"
proof -
  obtain a n where "n \<le> 60" "kfloat_value x = of_int a / 2 ^ n" using assms(2) by (auto simp: binary_places_def)
  then show "kfloat_value y = 10 * kfloat_value x - of_nat t" using times_ten_exact assms(1,3) by simp
  then show "binary_places (kfloat_value y)" using binary_places_next [OF assms(2)] by simp
qed

section \<open>The second loop\<close>

definition decimal_digit :: "u8 \<Rightarrow> bool" where
  "decimal_digit c \<longleftrightarrow> 0x30 \<le> c \<and> c \<le> 0x39"

lemma decimal_digit_zero [simp]: "decimal_digit 0x30"
  by (simp add: decimal_digit_def)

definition digit_char :: "nat \<Rightarrow> u8" where
  "digit_char t = ucast (word_of_nat t + 0x30 :: u32)"

lemma digit_char: "t < 10 \<Longrightarrow> decimal_digit (digit_char t) \<and> char_value (digit_char t) = t"
proof -
  assume "t < 10"
  then have "t \<in> {0, 1, 2, 3, 4, 5, 6, 7, 8, 9}" by (simp, presburger)
  then show ?thesis by (auto simp: digit_char_def decimal_digit_def char_value_def)
qed

lemma read_number_Cons: "read_number b (c # cs) = char_value c * b ^ length cs + read_number b cs"
proof (induction cs rule: rev_induct)
  case (snoc d cs)
  have "read_number b (c # cs @ [d]) = read_number b (c # cs) * b + char_value d"
    using read_number_snoc [of b "c # cs" d] by simp
  then show ?case using snoc by (simp add: read_number_snoc algebra_simps)
qed (simp add: read_number_def)

text \<open>The decimals of a fraction, as far as they are exact.\<close>

definition decimals_of :: "kfloat \<Rightarrow> nat \<Rightarrow> u8 list \<Rightarrow> bool" where
  "decimals_of x d fp \<longleftrightarrow> length fp = d \<and> list_all decimal_digit fp \<and>
     (binary_places (kfloat_value x) \<longrightarrow> int (read_number 10 fp) = \<lfloor>kfloat_value x * 10 ^ d\<rfloor>)"

lemma decimals_of_Cons:
  assumes "fraction x" "t < 10" "kfloat_value y = kfloat_value (times_ten x) - of_nat t" "decimals_of y d fp"
  shows "decimals_of x (Suc d) (digit_char t # fp)"
proof -
  have "int (read_number 10 (digit_char t # fp)) = \<lfloor>kfloat_value x * 10 ^ Suc d\<rfloor>"
    if b: "binary_places (kfloat_value x)"
  proof -
    note e = digit_exact [OF assms(1) b assms(3)]
    have "int (read_number 10 (digit_char t # fp)) = int (t * 10 ^ d) + \<lfloor>kfloat_value y * 10 ^ d\<rfloor>"
      using assms(4) e(2) digit_char [OF assms(2)] by (simp add: decimals_of_def read_number_Cons)
    also have "\<dots> = \<lfloor>of_int (int (t * 10 ^ d)) + kfloat_value y * 10 ^ d\<rfloor>" by (rule int_add_floor)
    also have "of_int (int (t * 10 ^ d)) + kfloat_value y * 10 ^ d = kfloat_value x * 10 ^ Suc d"
      by (simp add: e(1) algebra_simps)
    finally show ?thesis .
  qed
  then show ?thesis using assms(4) digit_char [OF assms(2)] by (simp add: decimals_of_def)
qed

lemma digits_turn_go:
  assumes "0 < c \<or> 0 < d" "to_kuint (times_ten x) = word_of_nat t"
  shows "iterate digits_turn (x, c, d, w, out) = iterate digits_turn
    (minus_kuint (times_ten x) (word_of_nat t), if 0 \<le> c then c - 1 else c, if c \<le> 0 then d - 1 else d, True,
      out @ (if c = 0 then (if w then [0x2E] else [0x30, 0x2E]) else []) @ [digit_char t])"
  by (rule iterate_go) (use assms in \<open>auto simp: digits_turn_def digit_char_def Let_def\<close>)

lemma digits_turn_end: "iterate digits_turn (x, - 1, 0, w, out) = Inr out"
  by (rule iterate_leave) (simp add: digits_turn_def)

text \<open>Behind the point.\<close>

lemma decimals:
  assumes "fraction x"
  shows "\<exists>fp. iterate digits_turn (x, - 1, int d, True, out) = Inr (out @ fp) \<and> decimals_of x d fp"
  using assms
proof (induction d arbitrary: x out)
  case 0
  then show ?case
    using fraction_value [of x] by (simp add: digits_turn_end decimals_of_def read_number_def floor_eq_iff)
next
  case (Suc d)
  obtain t where t: "to_kuint (times_ten x) = word_of_nat t" "t < 10"
    "fraction (minus_kuint (times_ten x) (word_of_nat t))"
    "kfloat_value (minus_kuint (times_ten x) (word_of_nat t)) = kfloat_value (times_ten x) - of_nat t"
    using digit_of_fraction [OF Suc.prems] .
  obtain fp where "iterate digits_turn (minus_kuint (times_ten x) (word_of_nat t), - 1, int d, True, out @ [digit_char t]) =
      Inr ((out @ [digit_char t]) @ fp)" "decimals_of (minus_kuint (times_ten x) (word_of_nat t)) d fp"
    using Suc.IH [OF t(3)] by blast
  then show ?case
    using digits_turn_go [of "- 1" "int (Suc d)", OF _ t(1), of True out] decimals_of_Cons [OF Suc.prems t(2,4)]
    by (intro exI [of _ "digit_char t # fp"]) simp
qed

text \<open>The point and what is behind it.\<close>

lemma point_and_decimals:
  assumes "fraction x" "0 < d"
  shows "\<exists>fp. iterate digits_turn (x, 0, int d, w, out) = Inr (out @ (if w then [] else [0x30]) @ [0x2E] @ fp) \<and>
    decimals_of x d fp"
proof -
  obtain t where t: "to_kuint (times_ten x) = word_of_nat t" "t < 10"
    "fraction (minus_kuint (times_ten x) (word_of_nat t))"
    "kfloat_value (minus_kuint (times_ten x) (word_of_nat t)) = kfloat_value (times_ten x) - of_nat t"
    using digit_of_fraction [OF assms(1)] .
  let ?out = "out @ (if w then [] else [0x30]) @ [0x2E, digit_char t]"
  obtain fp where fp: "iterate digits_turn (minus_kuint (times_ten x) (word_of_nat t), - 1, int (d - 1), True, ?out) =
      Inr (?out @ fp)" "decimals_of (minus_kuint (times_ten x) (word_of_nat t)) (d - 1) fp"
    using decimals [OF t(3)] by blast
  have "iterate digits_turn (x, 0, int d, w, out) = Inr (?out @ fp)"
    using digits_turn_go [of 0 "int d", OF _ t(1), of w out] fp(1) assms(2) by (auto simp: of_nat_diff)
  moreover have "decimals_of x d (digit_char t # fp)"
    using decimals_of_Cons [OF assms(1) t(2,4) fp(2)] assms(2) by simp
  ultimately show ?thesis by (intro exI [of _ "digit_char t # fp"]) simp
qed

text \<open>The places before it.\<close>

lemma all_places:
  assumes "fraction x" "0 < d" "0 < c"
  shows "\<exists>ip fp. iterate digits_turn (x, int c, int d, w, out) = Inr (out @ ip @ [0x2E] @ fp) \<and>
    length fp = d \<and> list_all decimal_digit fp \<and> list_all decimal_digit ip \<and> length ip = c"
  using assms(1,3)
proof (induction c arbitrary: x w out)
  case (Suc c)
  obtain t where t: "to_kuint (times_ten x) = word_of_nat t" "t < 10"
    "fraction (minus_kuint (times_ten x) (word_of_nat t))"
    using digit_of_fraction [OF Suc.prems(1)] by blast
  let ?x = "minus_kuint (times_ten x) (word_of_nat t)"
  have "\<exists>ip fp. iterate digits_turn (?x, int c, int d, True, out @ [digit_char t]) =
      Inr ((out @ [digit_char t]) @ ip @ [0x2E] @ fp) \<and> length fp = d \<and> list_all decimal_digit fp \<and>
      list_all decimal_digit ip \<and> length ip = c"
  proof (cases "c = 0")
    case True
    then show ?thesis
      using point_and_decimals [OF t(3) assms(2), of True "out @ [digit_char t]"]
      by - (rule exI [of _ "[]"], auto simp: decimals_of_def)
  next
    case False
    then show ?thesis using Suc.IH [OF t(3), of True "out @ [digit_char t]"] by simp
  qed
  then obtain ip fp where "iterate digits_turn (?x, int c, int d, True, out @ [digit_char t]) =
      Inr ((out @ [digit_char t]) @ ip @ [0x2E] @ fp)" "length fp = d" "list_all decimal_digit fp"
      "list_all decimal_digit ip" "length ip = c"
    by blast
  then show ?case
    using digits_turn_go [of "int (Suc c)" "int d", OF _ t(1), of w out] digit_char [OF t(2)]
    by - (rule exI [of _ "digit_char t # ip"], rule exI [of _ fp], simp)
qed simp

section \<open>The first loop\<close>

text \<open>Rounding at most doubles, so that a tenth is at most a half.\<close>

lemma round_sig_double:
  assumes "0 \<le> m" "round_sig m e = (q, e1)"
  shows "0 \<le> q" "q < 2 ^ 64" "float_value q e1 \<le> 2 * float_value m e"
proof -
  have "0 \<le> q \<and> q < 2 ^ 64 \<and> float_value q e1 \<le> 2 * float_value m e"
  proof (cases "m < 2 ^ 64")
    case True
    then show ?thesis using assms by (simp add: round_sig_exact float_value_def)
  next
    case False
    then obtain q' j k where q: "round_sig m e = (q', e + int j)" "0 \<le> q'" "q' < 2 ^ 64" "k = nat (bitlen m - 64)" "0 < k"
        "2 * (q' * 2 ^ j) \<le> 2 * m + 2 ^ k"
      using round_sig_spec [of m e] assms(1) by (metis not_le)
    have "(2 :: int) ^ k \<le> 2 ^ nat (bitlen m - 1)" using q(4) by (intro power_increasing) simp_all
    also have "\<dots> \<le> m" using bitlen_bounds [of m] False by simp
    finally have "q' * 2 ^ j \<le> 2 * m" using q(6) assms(1) by simp
    then have "(of_int (q' * 2 ^ j) :: rat) * 2 powi e \<le> of_int (2 * m) * 2 powi e"
      by (intro mult_right_mono) (simp_all only: of_int_le_iff, simp)
    then have "float_value q' (e + int j) \<le> 2 * float_value m e"
      by (simp add: float_value_def power_int_add field_simps)
    then show ?thesis using q assms(2) by simp
  qed
  then show "0 \<le> q" "q < 2 ^ 64" "float_value q e1 \<le> 2 * float_value m e" by blast+
qed

lemma floor_half:
  fixes u v :: rat
  assumes "u \<le> v / 2" "1 \<le> v"
  shows "\<lfloor>u\<rfloor> < \<lfloor>v\<rfloor>"
proof (cases "v < 2")
  case True
  then have "u < 1" using assms by (simp add: field_simps)
  then have "\<lfloor>u\<rfloor> < 1" by (simp add: floor_less_iff)
  also have "1 \<le> \<lfloor>v\<rfloor>" using assms(2) by (simp add: le_floor_iff)
  finally show ?thesis .
next
  case False
  then have "u \<le> v - 1" using assms(1) by (simp add: field_simps)
  then have "\<lfloor>u\<rfloor> \<le> \<lfloor>v - 1\<rfloor>" by (rule floor_mono)
  then show ?thesis by simp
qed

lemma divided_by_ten_half:
  assumes "0 \<le> m" "m < 2 ^ 64"
  obtains q e1 where "divided_by_ten (Finite m e) = Finite q e1" "0 \<le> q" "q < 2 ^ 64"
    "float_value q e1 \<le> float_value m e / 2"
proof (cases "m = 0")
  case True
  then show ?thesis by (intro that [of 0 "e - 69"]) (simp_all add: rounded_small float_value_def)
next
  case False
  let ?M = "2 * (m * 2 ^ 68 div 10) + (if m * 2 ^ 68 mod 10 \<noteq> 0 then 1 else 0)"
  obtain q e1 where q: "round_sig ?M (e - 69) = (q, e1)" by fastforce
  have M: "0 < ?M" "10 * ?M \<le> m * 2 ^ 69 + 10" using assms(1) False by auto
  note r = round_sig_double [OF less_imp_le [OF M(1)] q]
  have "divided_by_ten (Finite m e) = Finite q e1"
    using assms(1) False M(1) q by (simp add: rounded_def Let_def sgn_if)
  moreover have "float_value q e1 \<le> float_value m e / 2"
  proof -
    have "4 * ?M \<le> m * 2 ^ 69" using M(2) False assms(1) by simp
    then have "(of_int (4 * ?M) :: rat) * 2 powi (e - 69) \<le> of_int (m * 2 ^ 69) * 2 powi (e - 69)"
      by (intro mult_right_mono) (simp_all only: of_int_le_iff, simp)
    then have "4 * float_value ?M (e - 69) \<le> float_value m e"
      by (simp add: float_value_def power_int_diff mult.assoc)
    then show ?thesis using r(3) by simp
  qed
  ultimately show ?thesis using r(1,2) by (intro that [of q e1])
qed

text \<open>So the loop ends, with a fraction; it leaves a number that is below 1 already as it is.\<close>

lemma scale_ends:
  assumes "0 \<le> m" "m < 2 ^ 64"
  shows "\<exists>x c. iterate scale_turn (Finite m e, count) = Inr (x, count + int c) \<and> fraction x \<and>
    (c = 0 \<longleftrightarrow> \<not> at_least_one (Finite m e)) \<and> (c = 0 \<longrightarrow> x = Finite m e)"
  using assms
proof (induction "nat (whole_part m e)" arbitrary: m e count rule: less_induct)
  case less
  show ?case
  proof (cases "at_least_one (Finite m e)")
    case False
    then have "iterate scale_turn (Finite m e, count) = Inr (Finite m e, count)"
      by (intro iterate_leave) (simp add: scale_turn_def)
    moreover have "fraction (Finite m e)"
      using False less.prems by (auto simp: fraction_def split: if_splits)
    ultimately show ?thesis using False by (intro exI [of _ "Finite m e"] exI [of _ 0]) simp
  next
    case True
    obtain q e1 where q: "divided_by_ten (Finite m e) = Finite q e1" "0 \<le> q" "q < 2 ^ 64"
      "float_value q e1 \<le> float_value m e / 2"
      using divided_by_ten_half [OF less.prems] .
    have one: "1 \<le> float_value m e" using True less.prems at_least_one_value by blast
    have "\<lfloor>float_value q e1\<rfloor> < \<lfloor>float_value m e\<rfloor>" by (rule floor_half [OF q(4) one])
    then have "nat (whole_part q e1) < nat (whole_part m e)"
      using one q(2) less.prems(1) by (simp add: whole_part_floor)
    from less.hyps [OF this q(2,3), of "count + 1"]
    obtain x c where "iterate scale_turn (Finite q e1, count + 1) = Inr (x, count + 1 + int c)" "fraction x"
      by blast
    moreover have "iterate scale_turn (Finite m e, count) = iterate scale_turn (Finite q e1, count + 1)"
      by (intro iterate_go) (use True q(1) in \<open>simp add: scale_turn_def\<close>)
    ultimately show ?thesis using True by (intro exI [of _ x] exI [of _ "Suc c"]) simp
  qed
qed

section \<open>What is printed\<close>

lemma kfloat_of_finite:
  assumes "kfloat_of ws = Finite m e"
  shows "\<bar>m\<bar> < 2 ^ 64"
proof -
  obtain w0 w1 w2 where ws: "ws = (w0, w1, w2)" by (metis prod_cases3)
  define sig where "sig = uint w1 * 2 ^ 32 + uint w0"
  have "uint w1 \<le> 2 ^ 32 - 1" "uint w0 \<le> 2 ^ 32 - 1" using uint_lt2p [of w1] uint_lt2p [of w0] by simp_all
  then have "0 \<le> sig" "sig < 2 ^ 64" by (simp_all add: sig_def)
  moreover have "m = sig \<or> m = - sig"
    using assms unfolding ws kfloat_of_def split_conv sig_def [symmetric] Let_def by (auto split: if_splits)
  ultimately show ?thesis by auto
qed

lemma places_positive: "0 < places_of width"
proof (cases "width AND 0xFFFF = 0")
  case False
  then have "0 < width AND 0xFFFF" by (simp only: word_gt_0 simp_thms)
  then show ?thesis using False by (simp add: places_of_def word_less_def)
qed (simp add: places_of_def)

lemma infinite_spins: "iterate scale_turn (Infinite False, count) = Inl Spins"
proof -
  show ?thesis
    by (rule iterate_spins [of "\<lambda>(x, c). x = Infinite False"]) (auto simp: scale_turn_def)
qed

text \<open>The two loops on a number without its sign.\<close>

lemma both_loops:
  assumes "x = Not_A_Number \<or> (\<exists>m e. x = Finite m e \<and> 0 \<le> m \<and> m < 2 ^ 64)"
  shows "\<exists>x1 c ip fp. iterate scale_turn (x, 0) = Inr (x1, c) \<and>
    iterate digits_turn (x1, c, places_of width, False, out) = Inr (out @ ip @ [0x2E] @ fp) \<and>
    ip \<noteq> [] \<and> list_all decimal_digit (ip @ fp) \<and> length fp = nat (places_of width) \<and>
    (kfloat_value x < 1 \<longrightarrow> ip = [0x30] \<and> decimals_of x (nat (places_of width)) fp)"
proof -
  have one: "at_least_one x \<longleftrightarrow> 1 \<le> kfloat_value x" if "x \<noteq> Not_A_Number"
    using assms that at_least_one_value by auto
  have "\<exists>x1 c. iterate scale_turn (x, 0) = Inr (x1, int c) \<and> fraction x1 \<and>
      (c = 0 \<longleftrightarrow> kfloat_value x < 1) \<and> (c = 0 \<longrightarrow> x1 = x)"
  proof (cases "x = Not_A_Number")
    case True
    have "iterate scale_turn (x, 0) = Inr (x, 0)" by (rule iterate_leave) (simp add: scale_turn_def True)
    then show ?thesis using True by (intro exI [of _ x] exI [of _ 0]) (simp add: fraction_def)
  next
    case False
    then obtain m e where x: "x = Finite m e" "0 \<le> m" "m < 2 ^ 64" using assms by blast
    show ?thesis using scale_ends [OF x(2,3), of e 0] one [OF False] by (auto simp: x(1) simp del: at_least_one.simps)
  qed
  then obtain x1 c where c: "iterate scale_turn (x, 0) = Inr (x1, int c)" "fraction x1"
    "c = 0 \<longleftrightarrow> kfloat_value x < 1" "c = 0 \<longrightarrow> x1 = x" by blast
  have d: "0 < nat (places_of width)" "int (nat (places_of width)) = places_of width"
    using places_positive [of width] by simp_all
  show ?thesis
  proof (cases "c = 0")
    case True
    then obtain fp where "iterate digits_turn (x, 0, places_of width, False, out) = Inr (out @ [0x30, 0x2E] @ fp)"
      "decimals_of x (nat (places_of width)) fp"
      using point_and_decimals [of x, OF _ d(1), of False out] c d(2) by auto
    then show ?thesis
      using c(1,4) True
      by - (rule exI [of _ x], rule exI [of _ 0], rule exI [of _ "[0x30]"], rule exI [of _ fp], auto simp: decimals_of_def)
  next
    case False
    then obtain ip fp where "iterate digits_turn (x1, int c, places_of width, False, out) = Inr (out @ ip @ [0x2E] @ fp)"
      "length fp = nat (places_of width)" "list_all decimal_digit fp" "list_all decimal_digit ip" "length ip = c"
      using all_places [OF c(2) d(1), of c False out] d(2) by auto
    then show ?thesis
      using c(1,3) False
      by - (rule exI [of _ x1], rule exI [of _ "int c"], rule exI [of _ ip], rule exI [of _ fp], auto)
  qed
qed

lemma printed_kfloat:
  "if \<exists>neg. kfloat_of ws = Infinite neg then write_number_kfloat (kfloat_of ws) width = Inl Spins
   else \<exists>ip fp. write_number_kfloat (kfloat_of ws) width =
       Inr ((if below_zero (kfloat_of ws) then [0x2D] else []) @ ip @ [0x2E] @ fp) \<and>
     ip \<noteq> [] \<and> list_all decimal_digit (ip @ fp) \<and> length fp = nat (places_of width) \<and>
     (\<bar>kfloat_value (kfloat_of ws)\<bar> < 1 \<longrightarrow> ip = [0x30] \<and>
       (binary_places \<bar>kfloat_value (kfloat_of ws)\<bar> \<longrightarrow>
         int (read_number 10 fp) = \<lfloor>\<bar>kfloat_value (kfloat_of ws)\<bar> * 10 ^ nat (places_of width)\<rfloor>))"
proof (cases "\<exists>neg. kfloat_of ws = Infinite neg")
  case True
  then show ?thesis by (auto simp: write_number_kfloat_def infinite_spins)
next
  case False
  let ?x = "kfloat_of ws"
  let ?y = "if below_zero ?x then negated ?x else ?x"
  have "?y = Not_A_Number \<or> (\<exists>m e. ?y = Finite m e \<and> 0 \<le> m \<and> m < 2 ^ 64)"
  proof (cases ?x)
    case (Finite m e)
    then show ?thesis using kfloat_of_finite [OF Finite] by auto
  qed (use False in auto)
  from both_loops [OF this, of width "if below_zero ?x then [0x2D] else []"]
  obtain x1 c ip fp where l: "iterate scale_turn (?y, 0) = Inr (x1, c)"
    "iterate digits_turn (x1, c, places_of width, False, if below_zero ?x then [0x2D] else []) =
      Inr ((if below_zero ?x then [0x2D] else []) @ ip @ [0x2E] @ fp)"
    "ip \<noteq> []" "list_all decimal_digit (ip @ fp)" "length fp = nat (places_of width)"
    "kfloat_value ?y < 1 \<longrightarrow> ip = [0x30] \<and> decimals_of ?y (nat (places_of width)) fp"
    by blast
  have v: "kfloat_value ?y = \<bar>kfloat_value ?x\<bar>"
    by (cases ?x) (auto simp: float_value_def abs_mult)
  have "write_number_kfloat ?x width = Inr ((if below_zero ?x then [0x2D] else []) @ ip @ [0x2E] @ fp)"
    using l(1,2) by (simp add: write_number_kfloat_def Let_def)
  moreover have "\<bar>kfloat_value ?x\<bar> < 1 \<longrightarrow> ip = [0x30] \<and> (binary_places \<bar>kfloat_value ?x\<bar> \<longrightarrow>
      int (read_number 10 fp) = \<lfloor>\<bar>kfloat_value ?x\<bar> * 10 ^ nat (places_of width)\<rfloor>)"
    using l(6) unfolding v decimals_of_def by blast
  ultimately show ?thesis unfolding if_not_P [OF False] using l(3-5) by blast
qed

lemma kfloat_returns:
  assumes "\<nexists>neg. kfloat_of ws = Infinite neg"
  shows "\<exists>out. write_number_kfloat (kfloat_of ws) width = Inr out"
  using printed_kfloat [of ws width] unfolding if_not_P [OF assms] by blast



text \<open>
  From 1 on, the digits are those of tenths that are rounded again and again, and nothing is rounded
  at the end: \<^verbatim>\<open>%f\<close> prints 13 as 12.999999.
\<close>
theorem thirteen_prints_as_less:
  "kfloat_value (kfloat_of (0, 0xD0000000, 0x4002)) = 13 \<and>
   write_number_kfloat (kfloat_of (0, 0xD0000000, 0x4002)) 0 =
     Inr [0x31, 0x32, 0x2E, 0x39, 0x39, 0x39, 0x39, 0x39, 0x39]"
proof
  let ?x = "Finite 14987979559889010688 (- 60)"
  let ?y = "divided_by_ten (divided_by_ten ?x)"
  let ?out = "[0x31, 0x32, 0x2E, 0x39, 0x39, 0x39, 0x39, 0x39, 0x39] :: u8 list"
  have x: "kfloat_of (0, 0xD0000000, 0x4002) = ?x" by (simp add: kfloat_of_def)
  then show "kfloat_value (kfloat_of (0, 0xD0000000, 0x4002)) = 13"
    by (simp add: float_value_def power_int_def power_one_over)
  have "after_turns 2 scale_turn (?x, 0) = (?y, 2)" "scale_turn (?y, 2) = Inr (Inr (?y, 2))"
    by code_simp+
  then have "iterate scale_turn (?x, 0) = Inr (?y, 2)"
    using iterate_after_turns [of scale_turn 2 "(?x, 0)"] by (simp add: iterate_leave)
  moreover have "(case after_turns 8 digits_turn (?y, 2, 6, False, []) of (z, c, d, w, out) \<Rightarrow>
      c = - 1 \<and> d = 0 \<and> out = ?out)"
    by code_simp
  then have "iterate digits_turn (?y, 2, 6, False, []) = Inr ?out"
    using iterate_after_turns [of digits_turn 8 "(?y, 2, 6, False, [])"]
    by (auto simp: digits_turn_end split: prod.splits)
  ultimately show "write_number_kfloat (kfloat_of (0, 0xD0000000, 0x4002)) 0 = Inr ?out"
    by (simp add: x write_number_kfloat_def places_of_def)
qed

end
