(* ===== verification/Printf.thy ===== *)
theory Printf
  imports Kfloat Vmalloc Ioport
begin

unbundle bit_operations_syntax

text \<open>
  \<^verbatim>\<open>arch/ia32/printf.c\<close>: formats and the screen. A format is the list of its bytes before the terminating
  0, which \<open>fetch\<close> supplies; what the routines write through \<^verbatim>\<open>buffer\<close> is the list they return.
\<close>

section \<open>Formats\<close>

text \<open>\<^verbatim>\<open>*(format++)\<close>; no routine fetches again behind the terminating 0.\<close>

fun fetch :: "u8 list \<Rightarrow> u8 \<times> u8 list" where
  "fetch [] = (0, [])"
| "fetch (c # cs) = (c, cs)"

lemma fetch_shorter: "fetch fmt = (c, fmt') \<Longrightarrow> length fmt' \<le> length fmt \<and> (c \<noteq> 0 \<longrightarrow> length fmt' < length fmt)"
  by (cases fmt) auto

text \<open>What is left of a format: the current character counts while it is not the terminating one.\<close>

definition left :: "u8 \<Rightarrow> u8 list \<Rightarrow> nat" where
  "left c fmt = length fmt + (if c = 0 then 0 else 1)"

function parse_flags :: "u32 \<Rightarrow> u8 \<Rightarrow> u8 list \<Rightarrow> u32 \<times> u8 \<times> u8 list" where
  "parse_flags flags c fmt =
     (if c = 0x23 then parse_flags (flags OR FLAG_ALTERNATE) (fst (fetch fmt)) (snd (fetch fmt))
      else if c = 0x30 then parse_flags (flags OR FLAG_ZERO_PAD) (fst (fetch fmt)) (snd (fetch fmt))
      else if c = 0x20 then parse_flags (flags OR FLAG_SPACE_PAD) (fst (fetch fmt)) (snd (fetch fmt))
      else (flags, c, fmt))"
  by pat_completeness auto
termination
  by (relation "measure (\<lambda>(flags, c, fmt). left c fmt)")
    (auto simp: left_def split: prod.splits dest: fetch_shorter)

declare parse_flags.simps [simp del]

function parse_number :: "u32 \<Rightarrow> u8 \<Rightarrow> u8 list \<Rightarrow> u32 \<times> u8 \<times> u8 list" where
  "parse_number temp c fmt =
     (if 0x30 \<le> c \<and> c \<le> 0x39 then
        parse_number (temp * 10 + (ucast c - 0x30)) (fst (fetch fmt)) (snd (fetch fmt))
      else (temp, c, fmt))"
  by pat_completeness auto
termination
  by (relation "measure (\<lambda>(temp, c, fmt). left c fmt)")
    (auto simp: left_def split: prod.splits dest: fetch_shorter)

declare parse_number.simps [simp del]

text \<open>The width is shifted to the upper half; the precision is not.\<close>

definition parse_width :: "u8 \<Rightarrow> u8 list \<Rightarrow> u32 \<times> u8 \<times> u8 list" where
  "parse_width c fmt =
     (if 0x31 \<le> c \<and> c \<le> 0x39 then
        (let (temp, c1, fmt1) = parse_number 0 c fmt in (push_bit 16 temp, c1, fmt1))
      else (0, c, fmt))"

definition parse_precision :: "u8 \<Rightarrow> u8 list \<Rightarrow> u32 \<times> u8 \<times> u8 list" where
  "parse_precision c fmt =
     (if c = 0x2E then
        (let (c1, fmt1) = fetch fmt in
         if 0x31 \<le> c1 \<and> c1 \<le> 0x39 then parse_number 0 c1 fmt1 else (0, c1, fmt1))
      else (0, c, fmt))"

text \<open>\<^verbatim>\<open>h\<close>, \<^verbatim>\<open>hh\<close>, \<^verbatim>\<open>l\<close>, \<^verbatim>\<open>ll\<close>.\<close>

definition parse_length :: "u32 \<Rightarrow> u8 \<Rightarrow> u8 list \<Rightarrow> u32 \<times> u8 \<times> u8 list" where
  "parse_length flags c fmt =
     (if c = 0x68 then
        (if fst (fetch fmt) = 0x68 then (flags OR LENGTH_KUINT8, fetch (snd (fetch fmt)))
         else (flags OR LENGTH_KUINT16, fetch fmt))
      else if c = 0x6C then
        (if fst (fetch fmt) = 0x6C then (flags OR LENGTH_KUINT64, fetch (snd (fetch fmt)))
         else (flags OR LENGTH_KUINT32, fetch fmt))
      else (flags, c, fmt))"

text \<open>The words of the variable arguments, and the way they are taken.\<close>

type_synonym va_list = "nat \<Rightarrow> u32"

definition va_skip :: "nat \<Rightarrow> va_list \<Rightarrow> va_list" where
  "va_skip n args = (\<lambda>i. args (i + n))"

definition specifier_flags :: "u8 \<Rightarrow> u32" where
  "specifier_flags c =
     (if c = 0x58 then FLAG_UPPERCASE OR FLAG_HEX OR FLAG_UNSIGNED
      else if c = 0x78 then FLAG_HEX OR FLAG_UNSIGNED
      else if c = 0x6F then FLAG_OCTAL OR FLAG_UNSIGNED
      else if c = 0x75 then FLAG_UNSIGNED else 0)"

text \<open>
  The switch over the specifier; \<open>None\<close> leaves it for the error message. \<open>str\<close> gives the bytes from a
  pointer on; a long double is three words.
\<close>

definition convert :: "(u32 \<Rightarrow> u8 list) \<Rightarrow> u32 \<Rightarrow> u32 \<Rightarrow> u8 \<Rightarrow> va_list \<Rightarrow>
    (stop + (u8 list \<times> va_list)) option" where
  "convert str flags width c args =
     (if c = 0x25 then Some (Inr ([c], args))
      else if c = 0x63 then Some (Inr ([ucast (args 0)], va_skip 1 args))
      else if c = 0x73 then
        Some (Inr (if args 0 \<noteq> 0 then write_string (str (args 0))
          else [0x28, 0x6E, 0x75, 0x6C, 0x6C, 0x29], va_skip 1 args))
      else if c = 0x70 then
        Some (Inr (if args 0 \<noteq> 0 then write_number_kuint32 (args 0) (flags OR FLAG_ALTERNATE OR FLAG_HEX OR FLAG_UNSIGNED) width
          else [0x28, 0x6E, 0x69, 0x6C, 0x29], va_skip 1 args))
      else if c \<in> {0x58, 0x78, 0x6F, 0x75, 0x64, 0x69} then
        (let flags1 = flags OR specifier_flags c in
         if flags1 AND LENGTH_KUINT64 \<noteq> 0 then
           Some (Inr (write_number_kuint64 (word_cat (args 1) (args 0)) flags1 width, va_skip 2 args))
         else Some (Inr (write_number_kuint32 (args 0) flags1 width, va_skip 1 args)))
      else if c = 0x66 \<or> c = 0x46 then
        Some (andthen (write_number_kfloat (kfloat_of (args 0, args 1, args 2)) width)
          (\<lambda>out. Inr (out, va_skip 3 args)))
      else None)"

text \<open>\<^verbatim>\<open><format error,\<close>, the character, and \<^verbatim>\<open>>\<close>.\<close>

definition format_error :: "u8 \<Rightarrow> u8 list" where
  "format_error c = [0x3C, 0x66, 0x6F, 0x72, 0x6D, 0x61, 0x74, 0x20, 0x65, 0x72, 0x72, 0x6F, 0x72, 0x2C, c, 0x3E]"

text \<open>One directive, behind its \<^verbatim>\<open>%\<close>: the flags, the width with the precision, and the rest.\<close>

definition parse_directive :: "u8 \<Rightarrow> u8 list \<Rightarrow> u32 \<times> u32 \<times> u8 \<times> u8 list" where
  "parse_directive c fmt =
     (let (flags, c1, fmt1) = parse_flags 0 c fmt;
          (w, c2, fmt2) = parse_width c1 fmt1;
          (p, c3, fmt3) = parse_precision c2 fmt2;
          (flags1, c4, fmt4) = parse_length flags c3 fmt3
      in (flags1, w OR p, c4, fmt4))"

text \<open>No stage gives back more than it was given.\<close>

lemma fetch_le: "length (snd (fetch fmt)) \<le> length fmt"
  by (cases fmt) simp_all

lemma parse_flags_le: "length (snd (snd (parse_flags flags c fmt))) \<le> length fmt"
proof (induction flags c fmt rule: parse_flags.induct)
  case (1 flags c fmt)
  then show ?case
    using fetch_le [of fmt] by (subst parse_flags.simps) (auto intro: order_trans)
qed

lemma parse_number_le: "length (snd (snd (parse_number temp c fmt))) \<le> length fmt"
proof (induction temp c fmt rule: parse_number.induct)
  case (1 temp c fmt)
  then show ?case
    using fetch_le [of fmt] by (subst parse_number.simps) (auto intro: order_trans)
qed

lemma parse_width_le: "length (snd (snd (parse_width c fmt))) \<le> length fmt"
  using parse_number_le [of 0 c fmt] by (simp add: parse_width_def split_beta Let_def)

lemma parse_precision_le: "length (snd (snd (parse_precision c fmt))) \<le> length fmt"
  using order_trans [OF parse_number_le fetch_le, of 0 "fst (fetch fmt)" fmt] fetch_le [of fmt]
  by (simp add: parse_precision_def split_beta Let_def)

lemma parse_length_le: "length (snd (snd (parse_length flags c fmt))) \<le> length fmt"
  using order_trans [OF fetch_le fetch_le, of fmt] fetch_le [of fmt] by (simp add: parse_length_def)

lemma parse_directive_le:
  assumes "parse_directive c fmt = (flags, width, c', fmt')"
  shows "length fmt' \<le> length fmt"
proof -
  obtain f c1 fmt1 where 1: "parse_flags 0 c fmt = (f, c1, fmt1)" by (metis prod_cases3)
  obtain w c2 fmt2 where 2: "parse_width c1 fmt1 = (w, c2, fmt2)" by (metis prod_cases3)
  obtain p c3 fmt3 where 3: "parse_precision c2 fmt2 = (p, c3, fmt3)" by (metis prod_cases3)
  obtain f4 c4 fmt4 where 4: "parse_length f c3 fmt3 = (f4, c4, fmt4)" by (metis prod_cases3)
  have "fmt' = fmt4" using assms by (simp add: parse_directive_def 1 2 3 4)
  then show ?thesis
    using parse_flags_le [of 0 c fmt] parse_width_le [of c1 fmt1] parse_precision_le [of c2 fmt2]
      parse_length_le [of f c3 fmt3] by (simp add: 1 2 3 4)
qed

text \<open>The loop of \<^verbatim>\<open>kvsprintf\<close>.\<close>

function format_loop :: "(u32 \<Rightarrow> u8 list) \<Rightarrow> u8 list \<Rightarrow> va_list \<Rightarrow> stop + u8 list" where
  "format_loop str fmt args =
     (let (c, fmt1) = fetch fmt in
      if c = 0 then Inr []
      else if c \<noteq> 0x25 then andthen (format_loop str fmt1 args) (\<lambda>rest. Inr (c # rest))
      else let (c1, fmt2) = fetch fmt1 in
        if c1 = 0 then Inr (format_error c1)
        else let (flags, width, c2, fmt3) = parse_directive c1 fmt2 in
          (case convert str flags width c2 args of
             None \<Rightarrow> Inr (format_error c2)
           | Some r \<Rightarrow> andthen r (\<lambda>(out, args1).
               andthen (format_loop str fmt3 args1) (\<lambda>rest. Inr (out @ rest)))))"
  by pat_completeness auto
termination
proof (relation "measure (\<lambda>(str, fmt, args). length fmt)"; clarsimp)
  fix fmt fmt1 :: "u8 list" and c :: u8
  assume "(c, fmt1) = fetch fmt" "c \<noteq> 0"
  then show "length fmt1 < length fmt" by (cases fmt) auto
next
  fix fmt fmt1 fmt2 fmt3 :: "u8 list" and c c1 c2 :: u8 and flags width :: u32
  assume "(37, fmt1) = fetch fmt" "(c1, fmt2) = fetch fmt1" "c1 \<noteq> 0" "(flags, width, c2, fmt3) = parse_directive c1 fmt2"
  then show "length fmt3 < length fmt"
    using parse_directive_le [of c1 fmt2 flags width c2 fmt3] by (cases fmt; cases fmt1) auto
qed

declare format_loop.simps [simp del]

definition kvsprintf :: "(u32 \<Rightarrow> u8 list) \<Rightarrow> u8 list \<Rightarrow> va_list \<Rightarrow> stop + (u32 \<times> u8 list)" where
  "kvsprintf str fmt args =
     andthen (format_loop str fmt args) (\<lambda>out. Inr (word_of_nat (length out), out))"

section \<open>What a format prints\<close>

text \<open>
  The formats the kernel uses: text, and directives with an optional 0 flag and a precision of one
  digit (0 for none). \<open>Num\<close> has the specifier, one of \<^verbatim>\<open>d i u o x X\<close>; \<open>Flt\<close> is \<^verbatim>\<open>f\<close> with the three words
  of a long double that is not infinite.
\<close>

datatype item =
    Text "u8 list"
  | Percent
  | Char u32
  | Str u32
  | Num u8 bool nat u32
  | Flt bool nat "u32 \<times> u32 \<times> u32"

fun item_ok :: "item \<Rightarrow> bool" where
  "item_ok (Text t) \<longleftrightarrow> (\<forall>c\<in>set t. c \<noteq> 0 \<and> c \<noteq> 0x25)"
| "item_ok (Num spec z p w) \<longleftrightarrow> spec \<in> {0x58, 0x78, 0x6F, 0x75, 0x64, 0x69} \<and> p < 10"
| "item_ok (Flt z p ws) \<longleftrightarrow> p < 10 \<and> (\<nexists>neg. kfloat_of ws = Infinite neg)"
| "item_ok _ \<longleftrightarrow> True"

definition directive :: "bool \<Rightarrow> nat \<Rightarrow> u8 \<Rightarrow> u8 list" where
  "directive z p spec =
     0x25 # (if z then [0x30] else []) @ (if p = 0 then [] else [0x2E, 0x30 + word_of_nat p]) @ [spec]"

fun item_format :: "item \<Rightarrow> u8 list" where
  "item_format (Text t) = t"
| "item_format Percent = [0x25, 0x25]"
| "item_format (Char w) = [0x25, 0x63]"
| "item_format (Str p) = [0x25, 0x73]"
| "item_format (Num spec z p w) = directive z p spec"
| "item_format (Flt z p ws) = directive z p 0x66"

fun item_args :: "item \<Rightarrow> u32 list" where
  "item_args (Char w) = [w]"
| "item_args (Str p) = [p]"
| "item_args (Num spec z p w) = [w]"
| "item_args (Flt z p ws) = [fst ws, fst (snd ws), snd (snd ws)]"
| "item_args _ = []"

fun item_output :: "(u32 \<Rightarrow> u8 list) \<Rightarrow> item \<Rightarrow> u8 list" where
  "item_output str (Text t) = t"
| "item_output str Percent = [0x25]"
| "item_output str (Char w) = [ucast w]"
| "item_output str (Str p) = (if p = 0 then [0x28, 0x6E, 0x75, 0x6C, 0x6C, 0x29] else write_string (str p))"
| "item_output str (Num spec z p w) =
     write_number_kuint32 w ((if z then FLAG_ZERO_PAD else 0) OR specifier_flags spec) (word_of_nat p)"
| "item_output str (Flt z p ws) =
     (case write_number_kfloat (kfloat_of ws) (word_of_nat p) of Inr out \<Rightarrow> out | Inl _ \<Rightarrow> [])"

text \<open>The given words in front of the others on the stack.\<close>

definition given :: "u32 list \<Rightarrow> va_list \<Rightarrow> va_list" where
  "given ws args = (\<lambda>i. if i < length ws then ws ! i else args (i - length ws))"

lemma given_simps [simp]: "given [] args = args" "given (w # ws) args 0 = w" "va_skip (Suc 0) (given (w # ws) args) = given ws args"
  by (auto simp: given_def va_skip_def)

lemma given_append: "given (vs @ ws) args = given vs (given ws args)"
  by (rule ext) (auto simp: given_def nth_append)

lemma format_loop_text:
  assumes "\<forall>c\<in>set t. c \<noteq> 0 \<and> c \<noteq> 0x25"
  shows "format_loop str (t @ fmt) args = andthen (format_loop str fmt args) (\<lambda>rest. Inr (t @ rest))"
  using assms
proof (induction t)
  case Nil
  show ?case by (cases "format_loop str fmt args") simp_all
next
  case (Cons c t)
  then show ?case by (subst format_loop.simps) (simp add: andthen_assoc)
qed

lemma format_loop_directive:
  assumes "c1 \<noteq> 0" "parse_directive c1 fmt = (flags, width, c2, fmt1)"
    "convert str flags width c2 args = Some (Inr (out, args1))"
  shows "format_loop str (0x25 # c1 # fmt) args = andthen (format_loop str fmt1 args1) (\<lambda>rest. Inr (out @ rest))"
  using assms by (subst format_loop.simps) simp

lemma parse_width_none: "\<not> (0x31 \<le> c \<and> c \<le> 0x39) \<Longrightarrow> parse_width c fmt = (0, c, fmt)"
  unfolding parse_width_def by (rule if_not_P)

text \<open>A directive without flags, width, precision and length.\<close>

lemma parse_plain:
  assumes "c \<notin> {0x23, 0x30, 0x20, 0x2E, 0x68, 0x6C}" "\<not> (0x31 \<le> c \<and> c \<le> 0x39)"
  shows "parse_directive c fmt = (0, 0, c, fmt)"
proof -
  have "parse_flags 0 c fmt = (0, c, fmt)" using assms by (subst parse_flags.simps) simp
  then show ?thesis
    using assms(1) by (simp add: parse_directive_def parse_width_none [OF assms(2)] parse_precision_def parse_length_def)
qed

definition spec_char :: "u8 \<Rightarrow> bool" where
  "spec_char c \<longleftrightarrow> c \<in> {0x58, 0x78, 0x6F, 0x75, 0x64, 0x69, 0x66}"

lemma spec_char_plain: "spec_char c \<Longrightarrow> c \<notin> {0, 0x23, 0x30, 0x20, 0x2E, 0x68, 0x6C} \<and> \<not> (0x31 \<le> c \<and> c \<le> 0x39) \<and> \<not> (0x30 \<le> c \<and> c \<le> 0x39)"
  by (auto simp: spec_char_def)

lemma parse_precision_digit:
  assumes "0 < p" "p < 10" "spec_char c"
  shows "parse_precision 0x2E ((0x30 + word_of_nat p) # c # fmt) = (word_of_nat p, c, fmt)"
proof -
  have "p \<in> {1, 2, 3, 4, 5, 6, 7, 8, 9}" using assms by auto
  moreover have "parse_number t c fmt = (t, c, fmt)" for t
    using spec_char_plain [OF assms(3)] by (subst parse_number.simps) auto
  ultimately show ?thesis
    by (elim insertE; simp add: parse_precision_def; subst parse_number.simps; simp)
qed

lemma parse_spec:
  assumes "spec_char c" "p < 10"
  shows "\<exists>c1 rest. directive z p c = 0x25 # c1 # rest \<and> c1 \<noteq> 0 \<and>
    parse_directive c1 (rest @ fmt) = (if z then FLAG_ZERO_PAD else 0, word_of_nat p, c, fmt)"
proof -
  note plain = spec_char_plain [OF assms(1)]
  then have width: "parse_width c r = (0, c, r)" for r by (intro parse_width_none) blast
  have stop: "parse_flags f c fmt = (f, c, fmt)" for f using plain by (subst parse_flags.simps) simp
  have dot: "parse_flags f 0x2E r = (f, 0x2E, r)" for f r by (subst parse_flags.simps) simp
  have zero: "parse_flags 0 0x30 (d # r) = parse_flags FLAG_ZERO_PAD d r" for d r by (subst parse_flags.simps) simp
  show ?thesis
  proof (cases "p = 0")
    case True
    have "parse_directive c fmt = (0, 0, c, fmt)" using plain by (intro parse_plain) auto
    moreover have "parse_directive 0x30 (c # fmt) = (FLAG_ZERO_PAD, 0, c, fmt)"
      using plain by (simp add: parse_directive_def zero stop width parse_precision_def parse_length_def)
    ultimately show ?thesis using True plain by (cases z) (auto simp: directive_def)
  next
    case False
    then have prec: "parse_precision 0x2E ((0x30 + word_of_nat p) # c # fmt) = (word_of_nat p, c, fmt)"
      using parse_precision_digit assms by simp
    have "parse_directive 0x2E ((0x30 + word_of_nat p) # c # fmt) = (0, word_of_nat p, c, fmt)"
      using plain by (simp add: parse_directive_def dot parse_width_none prec parse_length_def)
    moreover have "parse_directive 0x30 (0x2E # (0x30 + word_of_nat p) # c # fmt) = (FLAG_ZERO_PAD, word_of_nat p, c, fmt)"
      using plain by (simp add: parse_directive_def zero dot parse_width_none prec parse_length_def)
    ultimately show ?thesis using False by (cases z) (auto simp: directive_def)
  qed
qed

lemma convert_num:
  assumes "spec_char c" "c \<noteq> 0x66" "flags AND LENGTH_KUINT64 = 0"
  shows "convert str flags width c args =
    Some (Inr (write_number_kuint32 (args 0) (flags OR specifier_flags c) width, va_skip 1 args))"
proof -
  have "(flags OR specifier_flags c) AND LENGTH_KUINT64 = 0"
    using assms by (auto simp: specifier_flags_def bit.conj_disj_distrib2)
  then show ?thesis using assms(1,2) by (auto simp: convert_def spec_char_def)
qed

lemma format_loop_item:
  assumes "item_ok it"
  shows "format_loop str (item_format it @ fmt) (given (item_args it) args) =
    andthen (format_loop str fmt args) (\<lambda>rest. Inr (item_output str it @ rest))"
proof (cases it)
  case (Text t)
  then show ?thesis using assms format_loop_text by simp
next
  case Percent
  have "format_loop str (0x25 # 0x25 # fmt) args =
      andthen (format_loop str fmt args) (\<lambda>rest. Inr ([0x25] @ rest))"
    by (rule format_loop_directive [OF _ parse_plain]) (simp_all add: convert_def)
  then show ?thesis using Percent by simp
next
  case (Char w)
  have "format_loop str (0x25 # 0x63 # fmt) (given [w] args) =
      andthen (format_loop str fmt args) (\<lambda>rest. Inr ([ucast w] @ rest))"
    by (rule format_loop_directive [OF _ parse_plain]) (simp_all add: convert_def)
  then show ?thesis using Char by simp
next
  case (Str p)
  have "format_loop str (0x25 # 0x73 # fmt) (given [p] args) =
      andthen (format_loop str fmt args) (\<lambda>rest. Inr (item_output str it @ rest))"
    by (rule format_loop_directive [OF _ parse_plain]) (simp_all add: convert_def Str)
  then show ?thesis using Str by simp
next
  case (Num c z p w)
  then have c: "spec_char c" "p < 10" "c \<noteq> 0x66" using assms by (auto simp: spec_char_def)
  obtain c1 rest where f: "item_format it = 0x25 # c1 # rest" "c1 \<noteq> 0"
    "parse_directive c1 (rest @ fmt) = (if z then FLAG_ZERO_PAD else 0, word_of_nat p, c, fmt)"
    using parse_spec [OF c(1,2)] Num by (metis item_format.simps(5))
  have "convert str (if z then FLAG_ZERO_PAD else 0) (word_of_nat p) c (given [w] args) =
      Some (Inr (item_output str it, args))"
    using convert_num [OF c(1,3), of "if z then FLAG_ZERO_PAD else 0"] by (simp add: Num)
  with f show ?thesis using format_loop_directive [OF f(2,3)] by (simp add: Num)
next
  case (Flt z p ws)
  then have c: "spec_char 0x66" "p < 10" "\<nexists>neg. kfloat_of ws = Infinite neg" using assms by (auto simp: spec_char_def)
  obtain c1 rest where f: "item_format it = 0x25 # c1 # rest" "c1 \<noteq> 0"
    "parse_directive c1 (rest @ fmt) = (if z then FLAG_ZERO_PAD else 0, word_of_nat p, 0x66, fmt)"
    using parse_spec [OF c(1,2)] Flt by (metis item_format.simps(6))
  obtain out where "write_number_kfloat (kfloat_of ws) (word_of_nat p) = Inr out"
    using kfloat_returns [OF c(3)] by blast
  then have "convert str (if z then FLAG_ZERO_PAD else 0) (word_of_nat p) 0x66 (given (item_args it) args) =
      Some (Inr (item_output str it, args))"
    by (simp add: Flt convert_def given_def va_skip_def numeral_nat(7))
  with f show ?thesis using format_loop_directive [OF f(2,3)] by simp
qed

lemma format_loop_items:
  assumes "list_all item_ok items"
  shows "format_loop str (concat (map item_format items)) (given (concat (map item_args items)) args) =
    Inr (concat (map (item_output str) items))"
  using assms
proof (induction items)
  case Nil
  show ?case by (subst format_loop.simps) simp
next
  case (Cons it items)
  then show ?case by (simp add: given_append format_loop_item)
qed


text \<open>The number routine evaluated, and \<^verbatim>\<open>"a=%0.8x %d%%"\<close> with two arguments.\<close>

lemmas number_eval = write_number_kuint32_def number_array_def sign_of_def shorten_def store_digits.simps
  base_of_def digits_of_def lower_digits_def upper_digits_def store_pad_def specifier_flags_def numeral_nat(7)


section \<open>The screen\<close>

text \<open>The file's variables; the screen has 25 lines of 80 characters with their attributes.\<close>

record console =
  video_memory :: u32
  video_next :: u32
  kprintf_buffer :: u32
  kprintf_spinlock :: u32

text \<open>
  One character of \<^verbatim>\<open>raw_print\<close>: the debug port, the screen, and a line up at its end. \<open>blank\<close> is the
  address of \<^verbatim>\<open>blank_line\<close>.
\<close>

definition raw_char :: "'d bus \<Rightarrow> u32 \<Rightarrow> u8 \<Rightarrow> console \<times> kmem \<times> 'd \<Rightarrow> stop + (console \<times> kmem \<times> 'd)" where
  "raw_char bus blank c = (\<lambda>(v, m, d).
     let d1 = kioport_out_kuint8 bus 0xE9 c d in
     andthen (if c = 0x0A then Inr (v\<lparr>video_next := video_next v div 160 * 160 + 160\<rparr>, m)
         else andthen (kmemory_linear_write_kuint8 (video_memory v + video_next v) c m) (\<lambda>m1.
           Inr (v\<lparr>video_next := video_next v + 2\<rparr>, m1))) (\<lambda>(v1, m1).
     if 4000 \<le> video_next v1 then
       (let v2 = v1\<lparr>video_next := 3840\<rparr>
        in andthen (kmemory_virtual_copy (video_memory v2) (video_memory v2 + 160) 3840 m1) (\<lambda>(p2, m2).
           andthen (kmemory_virtual_copy (video_memory v2 + video_next v2) blank 160 m2) (\<lambda>(p3, m3). Inr (v2, m3, d1))))
     else Inr (v1, m1, d1)))"

text \<open>The string is handed over as its bytes.\<close>

primrec raw_print :: "'d bus \<Rightarrow> u32 \<Rightarrow> u8 list \<Rightarrow> console \<times> kmem \<times> 'd \<Rightarrow> stop + (console \<times> kmem \<times> 'd)" where
  "raw_print bus blank [] s = Inr s"
| "raw_print bus blank (c # cs) s = (if c = 0 then Inr s else andthen (raw_char bus blank c s) (raw_print bus blank cs))"

text \<open>A byte stored through a pointer into memory that the page fault handler may have to provide.\<close>

definition store_byte :: "u32 \<Rightarrow> u8 \<Rightarrow> kmem \<Rightarrow> stop + kmem" where
  "store_byte a b m =
     (case wr8 a b m of
        Inl (Page_Fault va) \<Rightarrow> andthen (handle_page_fault va m) (\<lambda>r. case r of
            Resumed m1 \<Rightarrow> wr8 a b m1
          | Kill_Current m1 \<Rightarrow> Inl (Page_Fault va))
      | r \<Rightarrow> r)"

primrec store_bytes :: "u32 \<Rightarrow> u8 list \<Rightarrow> kmem \<Rightarrow> stop + kmem" where
  "store_bytes a [] m = Inr m"
| "store_bytes a (b # bs) m = andthen (store_byte a b m) (store_bytes (a + 1) bs)"

definition kvprintf :: "'d bus \<Rightarrow> u32 \<Rightarrow> (u32 \<Rightarrow> u8 list) \<Rightarrow> u8 list \<Rightarrow> va_list \<Rightarrow> console \<times> kmem \<times> 'd \<Rightarrow> stop + (u32 \<times> console \<times> kmem \<times> 'd)" where
  "kvprintf bus blank str fmt args = (\<lambda>(v, m, d).
     andthen (kspinlock_lock_irqsave \<lparr>lock_word = kprintf_spinlock v, irqsave = 0, eflags = eflags_reg m\<rparr>) (\<lambda>l.
     let v1 = v\<lparr>kprintf_spinlock := lock_word l\<rparr>;
         m1 = m\<lparr>eflags_reg := eflags l\<rparr>
     in andthen (kvsprintf str fmt args) (\<lambda>(count, out).
        andthen (store_bytes (kprintf_buffer v1) (out @ [0]) m1) (\<lambda>m2.
        andthen (raw_print bus blank (out @ [0]) (v1, m2, d)) (\<lambda>(v3, m3, d3).
        let u = kspinlock_unlock_irqrestore \<lparr>lock_word = kprintf_spinlock v3, irqsave = irqsave l, eflags = eflags_reg m3\<rparr>
        in Inr (count, v3\<lparr>kprintf_spinlock := lock_word u\<rparr>, m3\<lparr>eflags_reg := eflags u\<rparr>, d3))))))"

definition kprintf :: "'d bus \<Rightarrow> u32 \<Rightarrow> (u32 \<Rightarrow> u8 list) \<Rightarrow> u8 list \<Rightarrow> va_list \<Rightarrow> console \<times> kmem \<times> 'd \<Rightarrow> stop + (u32 \<times> console \<times> kmem \<times> 'd)" where
  "kprintf bus blank str fmt args s = kvprintf bus blank str fmt args s"

text \<open>The lines from offset \<open>i\<close> on are blanked.\<close>

function blank_lines :: "u32 \<Rightarrow> u32 \<Rightarrow> u32 \<Rightarrow> kmem \<Rightarrow> stop + kmem" where
  "blank_lines video blank i m =
     (if i < 4000 then andthen (kmemory_virtual_copy (video + i) blank 160 m) (\<lambda>(p, m1). blank_lines video blank (i + 160) m1) else Inr m)"
  by pat_completeness auto
termination
proof (relation "measure (\<lambda>(video, blank, i, m). 8000 - unat i)", simp)
  fix i :: u32
  assume "i < 4000"
  then have "unat i < 4000" by (simp add: word_less_nat_alt)
  moreover from this have "unat (i + 160) = unat i + 160" by (simp add: unat_word_ariths)
  ultimately show "((video, blank, i + 160, x), video, blank, i, m) \<in> measure (\<lambda>(video, blank, i, m). 8000 - unat i)"
    for video blank x m by simp
qed

declare blank_lines.simps [simp del]

definition kprintf_init :: "u32 \<Rightarrow> console \<times> kmem \<Rightarrow> stop + (console \<times> kmem)" where
  "kprintf_init blank = (\<lambda>(v, m).
     let v1 = v\<lparr>video_memory := 0x000B8000\<rparr> in
     andthen (kmemory_linear_page_map (video_memory v1) (80 * 25 * 2 div KPAGESIZE + 1) m) (\<lambda>(a, m1).
     andthen (blank_lines (video_memory v1) blank 0 m1) (\<lambda>m2.
     andthen (kmemory_virtual_page_allocate 1 0 m2) (\<lambda>(p, m3). Inr (v1\<lparr>kprintf_buffer := p\<rparr>, m3)))))"

section \<open>The cursor\<close>

text \<open>The next character has a place on the screen.\<close>

definition on_screen :: "console \<Rightarrow> bool" where
  "on_screen v \<longleftrightarrow> unat (video_next v) < 4000 \<and> even (unat (video_next v))"

lemma raw_char_on_screen:
  assumes "on_screen v" "raw_char bus blank c (v, m, d) = Inr (v', m', d')"
  shows "on_screen v' \<and> video_memory v' = video_memory v \<and> kprintf_spinlock v' = kprintf_spinlock v"
proof -
  let ?n = "unat (video_next v)"
  have n: "?n < 4000" "even ?n" using assms(1) by (simp_all add: on_screen_def)
  have two: "unat (video_next v + 2) = ?n + 2" using n(1) by (simp add: unat_word_ariths)
  have q: "?n div 160 \<le> 24" using n(1) by simp
  have line: "unat (video_next v div 160 * 160 + 160) = ?n div 160 * 160 + 160"
    using q by (simp add: unat_word_ariths unat_div)
  have four: "4000 \<le> w \<longleftrightarrow> 4000 \<le> unat w" for w :: u32 by (simp add: word_le_nat_alt)
  obtain w where w: "w = video_next v div 160 * 160 + 160 \<or> w = video_next v + 2"
    and v': "v' = v\<lparr>video_next := if 4000 \<le> w then 3840 else w\<rparr>"
    using assms(2) by (force simp: raw_char_def Let_def andthen_Inr_iff split: if_splits)
  have "even (unat w)" using w n(2) two line by (metis dvd_add dvd_mult even_numeral)
  then show ?thesis by (auto simp: v' on_screen_def four)
qed

lemma raw_print_on_screen:
  "on_screen v \<Longrightarrow> raw_print bus blank cs (v, m, d) = Inr (v', m', d') \<Longrightarrow>
    on_screen v' \<and> video_memory v' = video_memory v \<and> kprintf_spinlock v' = kprintf_spinlock v"
proof (induction cs arbitrary: v m d)
  case (Cons c cs)
  show ?case
  proof (cases "c = 0")
    case True
    with Cons.prems show ?thesis by simp
  next
    case False
    then obtain v1 m1 d1 where s1: "raw_char bus blank c (v, m, d) = Inr (v1, m1, d1)"
      "raw_print bus blank cs (v1, m1, d1) = Inr (v', m', d')"
      using Cons.prems(2) by (auto simp: andthen_Inr_iff)
    then show ?thesis using raw_char_on_screen [OF Cons.prems(1)] Cons.IH by metis
  qed
qed auto

end
