(* ===== verification/Screen.thy ===== *)
theory Screen
  imports Printf
begin

unbundle bit_operations_syntax

text \<open>
  What \<^verbatim>\<open>raw_print\<close> and \<^verbatim>\<open>kprintf\<close> of \<^verbatim>\<open>arch/ia32/printf.c\<close> show: the memory of the screen against a terminal
  that keeps everything ever printed, of which the last 25 lines are visible.
\<close>

section \<open>Memory through a window\<close>

text \<open>
  The addresses of \<open>A\<close> are mapped to different bytes of the memory, whatever is stored in these bytes: no
  page table that the walk needs is among them. \<open>f\<close> is the translation.
\<close>

definition window :: "kmem \<Rightarrow> u32 set \<Rightarrow> (u32 \<Rightarrow> u32) \<Rightarrow> bool" where
  "window s A f \<longleftrightarrow> inj_on f A \<and>
     (\<forall>m. (\<forall>p. p \<notin> f ` A \<longrightarrow> m p = ram s p) \<longrightarrow> (\<forall>a\<in>A. translate (s\<lparr>ram := m\<rparr>) a = Some (f a)))"

text \<open>What is stored at an address, and the states that differ in the window only.\<close>

definition view :: "(u32 \<Rightarrow> u32) \<Rightarrow> kmem \<Rightarrow> u32 \<Rightarrow> u8" where
  "view f s a = ram s (f a)"

definition only_in :: "u32 set \<Rightarrow> (u32 \<Rightarrow> u32) \<Rightarrow> kmem \<Rightarrow> kmem \<Rightarrow> bool" where
  "only_in A f s s' \<longleftrightarrow> (\<exists>m. s' = s\<lparr>ram := m\<rparr> \<and> (\<forall>p. p \<notin> f ` A \<longrightarrow> m p = ram s p))"

lemma only_in_refl [simp]: "only_in A f s s"
  unfolding only_in_def by (intro exI [of _ "ram s"]) simp

lemma only_in_trans: "only_in A f s s1 \<Longrightarrow> only_in A f s1 s2 \<Longrightarrow> only_in A f s s2"
  unfolding only_in_def by fastforce

lemma only_in_window: "only_in A f s s' \<Longrightarrow> window s A f \<Longrightarrow> window s' A f"
  unfolding only_in_def window_def by fastforce

lemma window_translate:
  assumes "window s A f" "a \<in> A"
  shows "translate s a = Some (f a)"
proof -
  have "\<forall>a\<in>A. translate (s\<lparr>ram := ram s\<rparr>) a = Some (f a)" using assms(1) unfolding window_def by blast
  then show ?thesis using assms(2) by simp
qed

lemma window_unpaged: "\<not> paging s \<Longrightarrow> window s A (\<lambda>a. a)"
  by (simp add: window_def translate_def)

lemma window_rd8: "window s A f \<Longrightarrow> a \<in> A \<Longrightarrow> rd8 s a = Inr (view f s a)"
  by (simp add: rd8_def phys_def window_translate view_def)

lemma view_update: "inj_on f A \<Longrightarrow> a \<in> A \<Longrightarrow> b \<in> A \<Longrightarrow> view f (s\<lparr>ram := (ram s)(f a := v)\<rparr>) b = ((view f s)(a := v)) b"
  by (auto simp: view_def dest: inj_onD)

lemma window_wr8:
  assumes w: "window s A f" and a: "a \<in> A"
  shows "\<exists>s'. wr8 a v s = Inr s' \<and> only_in A f s s' \<and> (\<forall>b\<in>A. view f s' b = ((view f s)(a := v)) b)"
proof -
  have "wr8 a v s = Inr (s\<lparr>ram := (ram s)(f a := v)\<rparr>)" by (simp add: wr8_def phys_def window_translate [OF w a])
  moreover have "only_in A f s (s\<lparr>ram := (ram s)(f a := v)\<rparr>)"
    unfolding only_in_def using a by (intro exI [of _ "(ram s)(f a := v)"]) auto
  ultimately show ?thesis using view_update [OF _ a] w by (auto simp: window_def)
qed

lemma window_rd32:
  assumes "window s A f" "a \<in> A" "a + 1 \<in> A" "a + 2 \<in> A" "a + 3 \<in> A"
  shows "rd32 s a = Inr (word_of_bytes (view f s a) (view f s (a + 1)) (view f s (a + 2)) (view f s (a + 3)))"
  using assms by (simp add: rd32_def window_rd8)

lemma window_wr32:
  assumes w: "window s A f" and a: "a \<in> A" "a + 1 \<in> A" "a + 2 \<in> A" "a + 3 \<in> A"
  shows "\<exists>s'. wr32 a (word_of_bytes b0 b1 b2 b3) s = Inr s' \<and> only_in A f s s' \<and>
    (\<forall>b\<in>A. view f s' b = ((view f s)(a := b0, a + 1 := b1, a + 2 := b2, a + 3 := b3)) b)"
proof -
  let ?m = "(ram s)(f a := b0, f (a + 1) := b1, f (a + 2) := b2, f (a + 3) := b3)"
  have inj: "inj_on f A" using w by (simp add: window_def)
  have "wr32 a (word_of_bytes b0 b1 b2 b3) s = Inr (s\<lparr>ram := ?m\<rparr>)"
    using window_translate [OF w] a by (simp add: wr32_def phys_def bytes_of_word)
  moreover have "only_in A f s (s\<lparr>ram := ?m\<rparr>)" unfolding only_in_def using a by (intro exI [of _ ?m]) auto
  moreover have "view f (s\<lparr>ram := ?m\<rparr>) b = ((view f s)(a := b0, a + 1 := b1, a + 2 := b2, a + 3 := b3)) b" if "b \<in> A" for b
    using that a by (simp add: view_def inj_on_eq_iff [OF inj] fun_upd_apply)
  ultimately show ?thesis by blast
qed

text \<open>An area of \<open>n\<close> bytes.\<close>

definition area :: "u32 \<Rightarrow> nat \<Rightarrow> u32 set" where
  "area p n = (\<lambda>i. p + word_of_nat i) ` {..<n}"

lemma area_mem: "i < n \<Longrightarrow> p + word_of_nat i \<in> area p n"
  by (auto simp: area_def)

lemma area_in: "area p n \<subseteq> A \<Longrightarrow> i < n \<Longrightarrow> p + word_of_nat i \<in> A"
  using area_mem by blast

lemma area_first: "0 < n \<Longrightarrow> p \<in> area p n"
  using area_mem [of 0 n p] by simp

text \<open>
  A copy of whole words that goes upwards is right as long as no byte of the source is overwritten
  before it is read: the areas may overlap if the destination is the lower one.
\<close>

definition ahead :: "u32 \<Rightarrow> u32 \<Rightarrow> nat \<Rightarrow> bool" where
  "ahead dst src n \<longleftrightarrow> (\<forall>j<n. \<forall>i<j. src + word_of_nat j \<noteq> dst + word_of_nat i)"

lemma copied_ahead:
  assumes "ahead dst src l" "k \<le> j" "j < l"
  shows "overlay m dst k g (src + word_of_nat j) = m (src + word_of_nat j)"
proof -
  have "\<not> unat (src + word_of_nat j - dst) < k"
  proof
    let ?i = "unat (src + word_of_nat j - dst)"
    assume "?i < k"
    then have "src + word_of_nat j \<noteq> dst + word_of_nat ?i"
      using assms unfolding ahead_def by (meson less_le_trans)
    moreover have "src + word_of_nat j = dst + word_of_nat ?i" by simp
    ultimately show False by blast
  qed
  then show ?thesis by (simp add: overlay_def)
qed

lemma window_movs_from:
  assumes w: "window s A f" and dst: "area dst (4 * N) \<subseteq> A" and src: "area src (4 * N) \<subseteq> A"
    and ahd: "ahead dst src (4 * N)" and N: "4 * N < 4294967296"
  defines "g \<equiv> \<lambda>i. view f s (src + word_of_nat i)"
  shows "k + n = N \<Longrightarrow> only_in A f s s1 \<Longrightarrow> \<forall>a\<in>A. view f s1 a = overlay (view f s) dst (4 * k) g a \<Longrightarrow>
    \<exists>s'. rep_movs rd32 wr32 4 n (dst + word_of_nat (4 * k)) (src + word_of_nat (4 * k)) s1 =
        Inr (dst + word_of_nat (4 * N), src + word_of_nat (4 * N), s') \<and>
      only_in A f s s' \<and> (\<forall>a\<in>A. view f s' a = overlay (view f s) dst (4 * N) g a)"
proof (induction n arbitrary: k s1)
  case (Suc n)
  let ?d = "dst + word_of_nat (4 * k)" and ?s = "src + word_of_nat (4 * k)"
  have w1: "window s1 A f" by (rule only_in_window [OF Suc.prems(2) w])
  have off: "p + word_of_nat (4 * k) + 1 = p + word_of_nat (4 * k + 1)" "p + word_of_nat (4 * k) + 2 = p + word_of_nat (4 * k + 2)"
    "p + word_of_nat (4 * k) + 3 = p + word_of_nat (4 * k + 3)" for p :: u32 by (simp_all add: algebra_simps)
  have k: "4 * k + j < 4 * N" if "j < 4" for j using that Suc.prems(1) by linarith
  have inA: "?d \<in> A" "?d + 1 \<in> A" "?d + 2 \<in> A" "?d + 3 \<in> A" "?s \<in> A" "?s + 1 \<in> A" "?s + 2 \<in> A" "?s + 3 \<in> A"
    unfolding off by (rule area_in [OF dst] area_in [OF src], use k [of 0] k [of 1] k [of 2] k [of 3] in simp)+
  have "view f s1 (src + word_of_nat (4 * k + j)) = g (4 * k + j)" if "j < 4" for j
    using Suc.prems(3) area_in [OF src k [OF that]] copied_ahead [OF ahd _ k [OF that], of "4 * k" "view f s" g]
    by (simp add: g_def del: of_nat_add of_nat_mult)
  from this [of 0] this [of 1] this [of 2] this [of 3]
  have rd: "view f s1 ?s = g (4 * k)" "view f s1 (?s + 1) = g (4 * k + 1)" "view f s1 (?s + 2) = g (4 * k + 2)"
    "view f s1 (?s + 3) = g (4 * k + 3)"
    unfolding off by (simp_all del: of_nat_add of_nat_mult)
  obtain s2 where s2: "wr32 ?d (word_of_bytes (g (4 * k)) (g (4 * k + 1)) (g (4 * k + 2)) (g (4 * k + 3))) s1 = Inr s2"
    "only_in A f s1 s2" "\<forall>b\<in>A. view f s2 b = ((view f s1)(?d := g (4 * k), ?d + 1 := g (4 * k + 1),
      ?d + 2 := g (4 * k + 2), ?d + 3 := g (4 * k + 3))) b"
    using window_wr32 [OF w1 inA(1-4)] by blast
  have "overlay (view f s) dst (4 * Suc k) g = (overlay (view f s) dst (4 * k) g)(?d := g (4 * k), ?d + 1 := g (4 * k + 1),
      ?d + 2 := g (4 * k + 2), ?d + 3 := g (4 * k + 3))"
    using overlay_4 [of "4 * k" "view f s" dst g] k [of 3] N by (simp add: add.commute)
  then have v2: "\<forall>a\<in>A. view f s2 a = overlay (view f s) dst (4 * Suc k) g a" using s2(3) Suc.prems(3) by auto
  have "rd32 s1 ?s = Inr (word_of_bytes (g (4 * k)) (g (4 * k + 1)) (g (4 * k + 2)) (g (4 * k + 3)))"
    using window_rd32 [OF w1 inA(5-8)] rd by simp
  then have "rep_movs rd32 wr32 4 (Suc n) ?d ?s s1 =
      rep_movs rd32 wr32 4 n (dst + word_of_nat (4 * Suc k)) (src + word_of_nat (4 * Suc k)) s2"
    using s2(1) by (simp add: algebra_simps)
  then show ?case using Suc.IH [of "Suc k" s2] Suc.prems(1) only_in_trans [OF Suc.prems(2) s2(2)] v2 by simp
qed (auto simp: g_def)

lemma window_copy:
  assumes "window s A f" "area dst (4 * n) \<subseteq> A" "area src (4 * n) \<subseteq> A" "ahead dst src (4 * n)"
    and len: "unat len = 4 * n"
  shows "\<exists>s'. kmemory_virtual_copy dst src len s = Inr (dst, s') \<and> only_in A f s s' \<and>
    (\<forall>a\<in>A. view f s' a = overlay (view f s) dst (4 * n) (\<lambda>i. view f s (src + word_of_nat i)) a)"
proof -
  have "4 * n < 4294967296" using unat_u32_less [of len] len by simp
  from window_movs_from [OF assms(1-4) this, of 0 n s] obtain s' where
    s': "rep_movs rd32 wr32 4 n dst src s = Inr (dst + word_of_nat (4 * n), src + word_of_nat (4 * n), s')"
      "only_in A f s s'" "\<forall>a\<in>A. view f s' a = overlay (view f s) dst (4 * n) (\<lambda>i. view f s (src + word_of_nat i)) a"
    by (auto simp: overlay_def)
  have "unat (len div 4) = n" using len by (simp add: unat_div)
  moreover have "len AND 0x02 = 0" "len AND 0x01 = 0" using size_bits [of len] len by auto
  ultimately show ?thesis using s' by (simp add: kmemory_virtual_copy_def)
qed

section \<open>The terminal\<close>

text \<open>
  All rows ever begun, the last one being written; none is longer than 80 characters. A byte of the
  screen is a character of one of the last 25 rows, or what the blank line has in its place: behind the
  end of a row, and in the odd bytes, which are the colours.
\<close>

definition typed :: "u8 \<Rightarrow> u8 list list \<Rightarrow> u8 list list" where
  "typed c rows =
     (if c = 0x0A then rows @ [[]]
      else let row = last rows @ [c] in butlast rows @ [row] @ (if length row = 80 then [[]] else []))"

definition top_row :: "u8 list list \<Rightarrow> nat" where
  "top_row rows = length rows - 25"

definition glyph :: "(nat \<Rightarrow> u8) \<Rightarrow> u8 list list \<Rightarrow> nat \<Rightarrow> nat \<Rightarrow> u8" where
  "glyph blank rows r b =
     (if even b \<and> r < length rows \<and> b div 2 < length (rows ! r) then rows ! r ! (b div 2) else blank b)"

definition cell :: "(nat \<Rightarrow> u8) \<Rightarrow> u8 list list \<Rightarrow> nat \<Rightarrow> u8" where
  "cell blank rows i = glyph blank rows (top_row rows + i div 160) (i mod 160)"

definition cursor :: "u8 list list \<Rightarrow> nat" where
  "cursor rows = (length rows - 1 - top_row rows) * 160 + 2 * length (last rows)"

lemma cursor_row:
  assumes "rows \<noteq> []" "length (last rows) < 80"
  shows "cursor rows div 160 = length rows - 1 - top_row rows" "cursor rows mod 160 = 2 * length (last rows)"
    "cursor rows < 4000"
  using assms by (auto simp: cursor_def top_row_def)

lemma glyph_typed:
  assumes "rows \<noteq> []"
  shows "glyph blank (butlast rows @ [last rows @ [c]]) r b =
    (if r = length rows - 1 \<and> b = 2 * length (last rows) then c else glyph blank rows r b)"
proof -
  have last: "rows ! (length rows - 1) = last rows" using assms by (simp add: last_conv_nth)
  have len: "length rows = Suc (length rows - 1)" using assms by simp
  consider "r < length rows - 1" | "r = length rows - 1" | "length rows - 1 < r" by linarith
  then show ?thesis
  proof cases
    case 1
    then have "r < length rows" by linarith
    with 1 show ?thesis by (simp add: glyph_def nth_append nth_butlast)
  next
    case 2
    then have r: "(butlast rows @ [last rows @ [c]]) ! r = last rows @ [c]" "rows ! r = last rows" "r < length rows"
      using last len by (simp_all add: nth_append)
    have "b div 2 < Suc n \<longleftrightarrow> b div 2 < n \<or> b = 2 * n" if "even b" for n using that by auto
    then show ?thesis unfolding glyph_def r using 2 assms by (auto simp: nth_append)
  next
    case 3
    then have "\<not> r < length rows" by linarith
    with 3 show ?thesis by (simp add: glyph_def)
  qed
qed

lemma glyph_new_row: "glyph blank (rows @ [[]]) r b = glyph blank rows r b"
  by (auto simp: glyph_def nth_append less_Suc_eq)

lemma cell_typed:
  assumes "rows \<noteq> []" "length (last rows) < 80"
  shows "cell blank (butlast rows @ [last rows @ [c]]) i = (if i = cursor rows then c else cell blank rows i)"
proof -
  let ?r = "top_row rows + i div 160" and ?b = "i mod 160"
  have top: "top_row (butlast rows @ [last rows @ [c]]) = top_row rows" using assms(1) by (simp add: top_row_def)
  have "i = cursor rows \<longleftrightarrow> ?r = length rows - 1 \<and> ?b = 2 * length (last rows)"
  proof
    assume "i = cursor rows"
    then show "?r = length rows - 1 \<and> ?b = 2 * length (last rows)" using cursor_row [OF assms] by (simp add: top_row_def)
  next
    assume e: "?r = length rows - 1 \<and> ?b = 2 * length (last rows)"
    then have "i div 160 = length rows - 1 - top_row rows" by linarith
    moreover have "i = i div 160 * 160 + ?b" by simp
    ultimately show "i = cursor rows" using e by (simp add: cursor_def)
  qed
  then show ?thesis unfolding cell_def top glyph_typed [OF assms(1)] by simp
qed

lemma cell_new_row:
  assumes "i < 4000"
  shows "cell blank (rows @ [[]]) i =
    (if length rows < 25 then cell blank rows i else if i < 3840 then cell blank rows (i + 160) else blank (i - 3840))"
proof -
  consider "length rows < 25" | "25 \<le> length rows" "i < 3840" | "25 \<le> length rows" "3840 \<le> i" by linarith
  then show ?thesis
  proof cases
    case 1
    then show ?thesis by (simp add: cell_def glyph_new_row top_row_def)
  next
    case 2
    then have "top_row (rows @ [[]]) + i div 160 = top_row rows + (i + 160) div 160" by (simp add: top_row_def)
    then show ?thesis using 2 unfolding cell_def glyph_new_row by simp
  next
    case 3
    define k where "k = i - 3840"
    have k: "i = 24 * 160 + k" "k < 160" using 3 assms by (simp_all add: k_def)
    then have "top_row (rows @ [[]]) + i div 160 = length rows" "i mod 160 = k"
      using 3 k(2) unfolding k(1) mod_mult_self3 by (simp_all add: top_row_def)
    then show ?thesis using 3 k unfolding cell_def glyph_new_row by (simp add: glyph_def)
  qed
qed

section \<open>The screen is the terminal\<close>

text \<open>The blank line as it is in memory, and what has to be mapped: the screen and, apart from it, that line.\<close>

abbreviation (input) blank_in :: "(u32 \<Rightarrow> u32) \<Rightarrow> u32 \<Rightarrow> kmem \<Rightarrow> nat \<Rightarrow> u8" where
  "blank_in f blank m \<equiv> \<lambda>b. view f m (blank + word_of_nat b)"

definition screen_mapped :: "u32 set \<Rightarrow> (u32 \<Rightarrow> u32) \<Rightarrow> u32 \<Rightarrow> console \<Rightarrow> kmem \<Rightarrow> bool" where
  "screen_mapped A f blank v m \<longleftrightarrow> window m A f \<and> area (video_memory v) 4000 \<subseteq> A \<and> area blank 160 \<subseteq> A \<and>
     area (video_memory v) 4000 \<inter> area blank 160 = {}"

definition good_rows :: "u8 list list \<Rightarrow> bool" where
  "good_rows rows \<longleftrightarrow> rows \<noteq> [] \<and> (\<forall>r\<in>set rows. length r \<le> 80)"

text \<open>The screen shows the rows.\<close>

definition screen_is :: "(u32 \<Rightarrow> u32) \<Rightarrow> u32 \<Rightarrow> console \<Rightarrow> kmem \<Rightarrow> u8 list list \<Rightarrow> bool" where
  "screen_is f blank v m rows \<longleftrightarrow>
     (\<forall>i<4000. view f m (video_memory v + word_of_nat i) = cell (blank_in f blank m) rows i)"

definition shown :: "(u32 \<Rightarrow> u32) \<Rightarrow> u32 \<Rightarrow> console \<Rightarrow> kmem \<Rightarrow> u8 list list \<Rightarrow> bool" where
  "shown f blank v m rows \<longleftrightarrow> good_rows rows \<and> length (last rows) < 80 \<and>
     video_next v = word_of_nat (cursor rows) \<and> screen_is f blank v m rows"

text \<open>Only the screen changes.\<close>

definition draws :: "u32 set \<Rightarrow> (u32 \<Rightarrow> u32) \<Rightarrow> console \<Rightarrow> kmem \<Rightarrow> kmem \<Rightarrow> bool" where
  "draws A f v m m' \<longleftrightarrow> only_in A f m m' \<and> (\<forall>a\<in>A - area (video_memory v) 4000. view f m' a = view f m a)"

lemma draws_refl [simp]: "draws A f v m m"
  by (simp add: draws_def)

lemma draws_trans: "draws A f v m m1 \<Longrightarrow> draws A f v m1 m2 \<Longrightarrow> draws A f v m m2"
  by (auto simp: draws_def intro: only_in_trans)

lemma draws_mapped:
  assumes "draws A f v m m'" "screen_mapped A f blank v m"
  shows "screen_mapped A f blank v m'" "b < 160 \<Longrightarrow> blank_in f blank m' b = blank_in f blank m b"
proof -
  show "screen_mapped A f blank v m'" using assms only_in_window by (auto simp: screen_mapped_def draws_def)
  assume "b < 160"
  then have "blank + word_of_nat b \<in> area blank 160" by (rule area_mem)
  then have "blank + word_of_nat b \<in> A - area (video_memory v) 4000"
    using assms(2) by (auto simp: screen_mapped_def)
  then show "blank_in f blank m' b = blank_in f blank m b" using assms(1) unfolding draws_def by blast
qed

lemma cell_cong: "(\<And>b. b < 160 \<Longrightarrow> bl b = bl' b) \<Longrightarrow> cell bl rows i = cell bl' rows i"
  by (simp add: cell_def glyph_def)

text \<open>The bytes of an area are different.\<close>

lemma area_eq_iff: "i < 4000 \<Longrightarrow> j < 4000 \<Longrightarrow> p + word_of_nat i = p + word_of_nat j \<longleftrightarrow> i = j" for p :: u32
proof -
  assume "i < 4000" "j < 4000"
  then have "unat (word_of_nat i :: u32) = i" "unat (word_of_nat j :: u32) = j" by (simp_all add: unat_of_nat_small)
  then show ?thesis by (metis add_left_cancel)
qed

lemma draw_char:
  assumes sm: "screen_mapped A f blank v m" and sh: "shown f blank v m rows"
  shows "\<exists>m'. kmemory_linear_write_kuint8 (video_memory v + video_next v) c m = Inr m' \<and> draws A f v m m' \<and>
    screen_is f blank v m' (butlast rows @ [last rows @ [c]])"
proof -
  have rows: "rows \<noteq> []" "length (last rows) < 80" using sh by (simp_all add: shown_def good_rows_def)
  let ?a = "video_memory v + word_of_nat (cursor rows)"
  have in_screen: "?a \<in> area (video_memory v) 4000" using cursor_row(3) [OF rows] by (rule area_mem)
  then have "?a \<in> A" using sm by (auto simp: screen_mapped_def)
  from window_wr8 [OF _ this, of m f c] sm obtain m' where m': "wr8 ?a c m = Inr m'" "only_in A f m m'"
    "\<forall>b\<in>A. view f m' b = ((view f m)(?a := c)) b" by (auto simp: screen_mapped_def)
  have d: "draws A f v m m'" using m'(2,3) in_screen by (auto simp: draws_def)
  have "view f m' (video_memory v + word_of_nat i) = cell (blank_in f blank m') (butlast rows @ [last rows @ [c]]) i"
    if i: "i < 4000" for i
  proof -
    have "video_memory v + word_of_nat i \<in> A" using area_mem [OF i] sm by (auto simp: screen_mapped_def)
    then have "view f m' (video_memory v + word_of_nat i) = (if i = cursor rows then c else view f m (video_memory v + word_of_nat i))"
      using m'(3) area_eq_iff [OF i cursor_row(3) [OF rows]] by simp
    also have "\<dots> = (if i = cursor rows then c else cell (blank_in f blank m) rows i)"
      using sh i by (simp add: shown_def screen_is_def)
    also have "\<dots> = cell (blank_in f blank m) (butlast rows @ [last rows @ [c]]) i"
      by (simp add: cell_typed [OF rows])
    also have "\<dots> = cell (blank_in f blank m') (butlast rows @ [last rows @ [c]]) i"
      by (rule cell_cong) (simp add: draws_mapped(2) [OF d sm])
    finally show ?thesis .
  qed
  then show ?thesis using m'(1) d sh by (auto simp: kmemory_linear_write_kuint8_def shown_def screen_is_def)
qed

text \<open>The second half of \<open>raw_char\<close>: the screen moves up at its end.\<close>

definition move_up :: "u32 \<Rightarrow> console \<times> kmem \<times> 'd \<Rightarrow> stop + (console \<times> kmem \<times> 'd)" where
  "move_up blank = (\<lambda>(v1, m1, d1).
     if 4000 \<le> video_next v1 then
       (let v2 = v1\<lparr>video_next := 3840\<rparr>
        in andthen (kmemory_virtual_copy (video_memory v2) (video_memory v2 + 160) 3840 m1) (\<lambda>(p2, m2).
           andthen (kmemory_virtual_copy (video_memory v2 + video_next v2) blank 160 m2) (\<lambda>(p3, m3). Inr (v2, m3, d1))))
     else Inr (v1, m1, d1))"

lemma raw_char_move_up: "raw_char bus blank c (v, m, d) =
    andthen (if c = 0x0A then Inr (v\<lparr>video_next := video_next v div 160 * 160 + 160\<rparr>, m)
      else andthen (kmemory_linear_write_kuint8 (video_memory v + video_next v) c m) (\<lambda>m1.
        Inr (v\<lparr>video_next := video_next v + 2\<rparr>, m1)))
     (\<lambda>(v1, m1). move_up blank (v1, m1, kioport_out_kuint8 bus 0xE9 c d))"
  by (simp add: raw_char_def move_up_def Let_def)

lemma overlay_here: "i < 4000 \<Longrightarrow> overlay m p n g (p + word_of_nat i) = (if i < n then g i else m (p + word_of_nat i))"
  by (simp add: overlay_def unat_of_nat_small)

lemma overlay_outside: "a \<notin> area p n \<Longrightarrow> overlay m p n g a = m a"
proof -
  assume "a \<notin> area p n"
  moreover have "p + word_of_nat (unat (a - p)) = a" by simp
  ultimately have "\<not> unat (a - p) < n" using area_mem [of "unat (a - p)" n p] by auto
  then show ?thesis by (simp add: overlay_def)
qed

lemma area_part:
  assumes "k + n \<le> l"
  shows "area (p + word_of_nat k) n \<subseteq> area p l"
proof
  fix a assume "a \<in> area (p + word_of_nat k) n"
  then obtain i where i: "i < n" "a = p + word_of_nat (k + i)" by (auto simp: area_def add.assoc)
  then show "a \<in> area p l" using area_mem [of "k + i" l p] assms by simp
qed

lemma move_up_row:
  assumes sm: "screen_mapped A f blank v m" and good: "good_rows rows" and scr: "screen_is f blank v m rows"
    and next_row: "video_next v = word_of_nat ((length rows - top_row rows) * 160)"
  shows "\<exists>n m'. move_up blank (v, m, d) = Inr (v\<lparr>video_next := n\<rparr>, m', d) \<and> draws A f v m m' \<and>
    shown f blank (v\<lparr>video_next := n\<rparr>) m' (rows @ [[]])"
proof -
  let ?V = "video_memory v"
  have good': "good_rows (rows @ [[]])" using good by (simp add: good_rows_def)
  show ?thesis
  proof (cases "length rows < 25")
    case True
    then have n: "video_next v = word_of_nat (length rows * 160)" "length rows * 160 < 4000"
      using next_row by (simp_all add: top_row_def)
    then have "\<not> 4000 \<le> video_next v" by (simp add: word_le_nat_alt unat_of_nat_small del: of_nat_mult)
    then have "move_up blank (v, m, d) = Inr (v\<lparr>video_next := video_next v\<rparr>, m, d)" by (simp add: move_up_def)
    moreover have "cursor (rows @ [[]]) = length rows * 160" using True by (simp add: cursor_def top_row_def)
    then have "shown f blank (v\<lparr>video_next := video_next v\<rparr>) m (rows @ [[]])"
      using good' scr n(1) True by (simp add: shown_def screen_is_def cell_new_row)
    ultimately show ?thesis by (metis draws_refl)
  next
    case False
    have n: "video_next v = 4000" using next_row False by (simp add: top_row_def)
    let ?v2 = "v\<lparr>video_next := 3840\<rparr>"
    have A: "window m A f" "area ?V 4000 \<subseteq> A" "area blank 160 \<subseteq> A" "area ?V 4000 \<inter> area blank 160 = {}"
      using sm by (simp_all add: screen_mapped_def)
    have parts: "area ?V (4 * 960) \<subseteq> area ?V 4000" "area (?V + 160) (4 * 960) \<subseteq> area ?V 4000"
      "area (?V + 3840) (4 * 40) \<subseteq> area ?V 4000"
      using area_part [of 0 3840 4000 ?V] area_part [of 160 3840 4000 ?V] area_part [of 3840 160 4000 ?V] by simp_all
    have up: "?V + 160 + word_of_nat j = ?V + word_of_nat (160 + j)" for j by (simp add: algebra_simps)
    have ahd: "ahead ?V (?V + 160) (4 * 960)"
      unfolding ahead_def up using area_eq_iff [of "160 + _" _ ?V] by fastforce
    then obtain m2 where m2: "kmemory_virtual_copy ?V (?V + 160) 3840 m = Inr (?V, m2)" "only_in A f m m2"
      "\<forall>a\<in>A. view f m2 a = overlay (view f m) ?V (4 * 960) (\<lambda>i. view f m (?V + 160 + word_of_nat i)) a"
      using window_copy [OF A(1) order_trans [OF parts(1) A(2)] order_trans [OF parts(2) A(2)] ahd, of 3840] by auto
    have d2: "draws A f v m m2"
      using m2(2,3) parts(1) by (auto simp: draws_def intro!: overlay_outside)
    have sm2: "screen_mapped A f blank v m2" by (rule draws_mapped(1) [OF d2 sm])
    have ahd: "ahead (?V + 3840) blank (4 * 40)"
      unfolding ahead_def
    proof (intro allI impI)
      fix j i :: nat assume "j < 4 * 40" "i < j"
      then have "?V + 3840 + word_of_nat i \<in> area ?V 4000" "blank + word_of_nat j \<in> area blank 160"
        using area_in [OF parts(3), of i] area_mem [of j 160 blank] by simp_all
      then show "blank + word_of_nat j \<noteq> ?V + 3840 + word_of_nat i" using A(4) by auto
    qed
    then obtain m3 where m3: "kmemory_virtual_copy (?V + 3840) blank 160 m2 = Inr (?V + 3840, m3)" "only_in A f m2 m3"
      "\<forall>a\<in>A. view f m3 a = overlay (view f m2) (?V + 3840) (4 * 40) (blank_in f blank m2) a"
      using window_copy [OF only_in_window [OF m2(2) A(1)] order_trans [OF parts(3) A(2)] _ ahd, of 160] A(3) by auto
    have d3: "draws A f v m2 m3"
      using m3(2,3) parts(3) by (auto simp: draws_def intro!: overlay_outside)
    have d: "draws A f v m m3" by (rule draws_trans [OF d2 d3])
    have "view f m3 (?V + word_of_nat i) = cell (blank_in f blank m3) (rows @ [[]]) i" if i: "i < 4000" for i
    proof -
      have V: "?V + word_of_nat i \<in> A" using area_mem [OF i] A(2) by blast
      have "view f m3 (?V + word_of_nat i) =
          (if i < 3840 then cell (blank_in f blank m) rows (i + 160) else blank_in f blank m (i - 3840))"
      proof (cases "i < 3840")
        case True
        have "?V + word_of_nat i \<notin> area (?V + 3840) (4 * 40)"
        proof
          assume "?V + word_of_nat i \<in> area (?V + 3840) (4 * 40)"
          then obtain j where "j < 160" "?V + word_of_nat i = ?V + word_of_nat (3840 + j)" by (auto simp: area_def)
          then show False using area_eq_iff [of i "3840 + j" ?V] True by simp
        qed
        then have "view f m3 (?V + word_of_nat i) = view f m2 (?V + word_of_nat i)"
          using m3(3) V by (simp add: overlay_outside)
        also have "\<dots> = view f m (?V + word_of_nat (160 + i))"
          using m2(3) V True unfolding up [symmetric] by (simp add: overlay_here)
        also have "\<dots> = cell (blank_in f blank m) rows (160 + i)"
          using scr True unfolding screen_is_def by (simp del: of_nat_add)
        finally show ?thesis using True by (simp add: add.commute)
      next
        case False
        then have "?V + word_of_nat i = ?V + 3840 + word_of_nat (i - 3840)" by (simp add: of_nat_diff)
        moreover have "i - 3840 < 160" using i False by simp
        ultimately show ?thesis
          using m3(3) V False overlay_here [of "i - 3840" "view f m2" "?V + 3840" "4 * 40" "blank_in f blank m2"]
            draws_mapped(2) [OF d2 sm, of "i - 3840"] by simp
      qed
      also have "\<dots> = cell (blank_in f blank m) (rows @ [[]]) i" using cell_new_row [OF i] False by simp
      also have "\<dots> = cell (blank_in f blank m3) (rows @ [[]]) i"
        by (rule cell_cong) (simp add: draws_mapped(2) [OF d sm])
      finally show ?thesis .
    qed
    then have "shown f blank ?v2 m3 (rows @ [[]])"
      using good' False by (simp add: shown_def screen_is_def cursor_def top_row_def)
    moreover have "move_up blank (v, m, d) = Inr (?v2, m3, d)" using n m2(1) m3(1) by (simp add: move_up_def)
    ultimately show ?thesis using d by blast
  qed
qed

lemma good_typed: "good_rows rows \<Longrightarrow> length (last rows) < 80 \<Longrightarrow> good_rows (butlast rows @ [last rows @ [c]])"
  by (auto simp: good_rows_def dest: in_set_butlastD)

lemma screen_next [simp]:
  "screen_mapped A f blank (v\<lparr>video_next := n\<rparr>) m = screen_mapped A f blank v m"
  "screen_is f blank (v\<lparr>video_next := n\<rparr>) m rows = screen_is f blank v m rows"
  "draws A f (v\<lparr>video_next := n\<rparr>) m m' = draws A f v m m'"
  by (simp_all add: screen_mapped_def screen_is_def draws_def)

lemma raw_char_shown:
  assumes sm: "screen_mapped A f blank v m" and sh: "shown f blank v m rows"
  shows "\<exists>n m'. raw_char bus blank c (v, m, d) = Inr (v\<lparr>video_next := n\<rparr>, m', kioport_out_kuint8 bus 0xE9 c d) \<and>
    draws A f v m m' \<and> shown f blank (v\<lparr>video_next := n\<rparr>) m' (typed c rows)"
proof -
  let ?d = "kioport_out_kuint8 bus 0xE9 c d" and ?n = "cursor rows"
  have good: "good_rows rows" and rows: "rows \<noteq> []" "length (last rows) < 80" and n: "video_next v = word_of_nat ?n"
    and scr: "screen_is f blank v m rows"
    using sh by (simp_all add: shown_def good_rows_def)
  have un: "unat (video_next v) = ?n" using cursor_row(3) [OF rows] by (simp add: n unat_of_nat_small)
  have top: "Suc (length rows - 1 - top_row rows) = length rows - top_row rows"
    using rows(1) by (cases rows) (auto simp: top_row_def)
  have small: "(length rows - top_row rows) * 160 < 4294967296" by (simp add: top_row_def)
  show ?thesis
  proof (cases "c = 0x0A")
    case True
    let ?w = "video_next v div 160 * 160 + 160"
    have "unat ?w = ?n div 160 * 160 + 160"
      using un cursor_row(3) [OF rows] by (simp add: unat_word_ariths unat_div)
    also have "\<dots> = (length rows - top_row rows) * 160" using cursor_row(1) [OF rows] top by simp
    finally have e: "unat ?w = (length rows - top_row rows) * 160" .
    have "?w = word_of_nat (unat ?w)" by simp
    then have "?w = word_of_nat ((length rows - top_row rows) * 160)" unfolding e .
    then obtain n1 m1 where "move_up blank (v\<lparr>video_next := ?w\<rparr>, m, ?d) = Inr (v\<lparr>video_next := n1\<rparr>, m1, ?d)"
      "draws A f v m m1" "shown f blank (v\<lparr>video_next := n1\<rparr>) m1 (rows @ [[]])"
      using move_up_row [of A f blank "v\<lparr>video_next := ?w\<rparr>" m rows ?d] sm good scr by auto
    then show ?thesis using True by (auto simp: raw_char_move_up typed_def)
  next
    case False
    obtain m1 where m1: "kmemory_linear_write_kuint8 (video_memory v + video_next v) c m = Inr m1" "draws A f v m m1"
      "screen_is f blank v m1 (butlast rows @ [last rows @ [c]])"
      using draw_char [OF sm sh] by blast
    let ?rows = "butlast rows @ [last rows @ [c]]" and ?v = "v\<lparr>video_next := video_next v + 2\<rparr>"
    have sm1: "screen_mapped A f blank v m1" by (rule draws_mapped(1) [OF m1(2) sm])
    have good1: "good_rows ?rows" by (rule good_typed [OF good rows(2)])
    have next2: "video_next ?v = word_of_nat (?n + 2)" by (simp add: n)
    have len: "length ?rows = length rows" "top_row ?rows = top_row rows" using rows(1) by (simp_all add: top_row_def)
    have "raw_char bus blank c (v, m, d) = move_up blank (?v, m1, ?d)" using False m1(1) by (simp add: raw_char_move_up)
    moreover have "\<exists>n2 m2. move_up blank (?v, m1, ?d) = Inr (v\<lparr>video_next := n2\<rparr>, m2, ?d) \<and> draws A f v m1 m2 \<and>
        shown f blank (v\<lparr>video_next := n2\<rparr>) m2 (typed c rows)"
    proof (cases "length (last rows @ [c]) = 80")
      case True
      then have "?n + 2 = (length ?rows - top_row ?rows) * 160" unfolding len using top by (simp add: cursor_def)
      then have "video_next ?v = word_of_nat ((length ?rows - top_row ?rows) * 160)" using next2 by simp
      from move_up_row [OF _ good1 _ this, of A f blank m1 ?d] sm1 m1(3) True False show ?thesis
        by (auto simp: typed_def)
    next
      case not_full: False
      then have "cursor ?rows = ?n + 2" using len by (simp add: cursor_def)
      then have at: "video_next ?v = word_of_nat (cursor ?rows)" unfolding next2 by (rule arg_cong [OF sym])
      have "cursor ?rows < 4000" using not_full rows by (intro cursor_row(3)) simp_all
      then have "unat (video_next ?v) < 4000" unfolding at by (subst unat_of_nat_small) simp_all
      then have "\<not> 4000 \<le> video_next ?v" by (simp only: word_le_nat_alt) simp
      with at have "move_up blank (?v, m1, ?d) = Inr (?v, m1, ?d)" "shown f blank ?v m1 (typed c rows)"
        using not_full False good1 m1(3) rows(2) by (simp_all add: move_up_def shown_def typed_def)
      then show ?thesis using draws_refl by blast
    qed
    ultimately show ?thesis using draws_trans [OF m1(2)] by auto
  qed
qed

text \<open>The text of a string: what is before its end.\<close>

lemma raw_print_shown:
  assumes "screen_mapped A f blank v m" "shown f blank v m rows"
  defines "text cs \<equiv> takeWhile (\<lambda>c. c \<noteq> 0) cs"
  shows "\<exists>n m'. raw_print bus blank cs (v, m, d) =
      Inr (v\<lparr>video_next := n\<rparr>, m', fold (kioport_out_kuint8 bus 0xE9) (text cs) d) \<and>
    draws A f v m m' \<and> shown f blank (v\<lparr>video_next := n\<rparr>) m' (fold typed (text cs) rows)"
  using assms(1,2)
proof (induction cs arbitrary: v m d rows)
  case Nil
  then show ?case by (intro exI [of _ "video_next v"] exI [of _ m]) (simp add: text_def)
next
  case (Cons c cs)
  show ?case
  proof (cases "c = 0")
    case True
    with Cons.prems show ?thesis by (intro exI [of _ "video_next v"] exI [of _ m]) (simp add: text_def)
  next
    case False
    obtain n1 m1 where 1: "raw_char bus blank c (v, m, d) = Inr (v\<lparr>video_next := n1\<rparr>, m1, kioport_out_kuint8 bus 0xE9 c d)"
      "draws A f v m m1" "shown f blank (v\<lparr>video_next := n1\<rparr>) m1 (typed c rows)"
      using raw_char_shown [OF Cons.prems, of bus c d] by blast
    have "screen_mapped A f blank (v\<lparr>video_next := n1\<rparr>) m1" using draws_mapped(1) [OF 1(2) Cons.prems(1)] by simp
    from Cons.IH [OF this 1(3), of "kioport_out_kuint8 bus 0xE9 c d"] obtain n2 m2 where
      "raw_print bus blank cs (v\<lparr>video_next := n1\<rparr>, m1, kioport_out_kuint8 bus 0xE9 c d) =
        Inr (v\<lparr>video_next := n2\<rparr>, m2, fold (kioport_out_kuint8 bus 0xE9) (text cs) (kioport_out_kuint8 bus 0xE9 c d))"
      "draws A f v m1 m2" "shown f blank (v\<lparr>video_next := n2\<rparr>) m2 (fold typed (text cs) (typed c rows))" by auto
    then show ?thesis using False 1(1) draws_trans [OF 1(2)] by (auto simp: text_def)
  qed
qed

section \<open>The whole of \<open>kprintf\<close>\<close>

text \<open>
  The console between two calls: the screen, the blank line and the buffer are mapped, apart from each
  other; the lock is free; the screen shows the rows.
\<close>

definition console_ok :: "u32 set \<Rightarrow> (u32 \<Rightarrow> u32) \<Rightarrow> u32 \<Rightarrow> console \<Rightarrow> kmem \<Rightarrow> u8 list list \<Rightarrow> bool" where
  "console_ok A f blank v m rows \<longleftrightarrow> screen_mapped A f blank v m \<and> area (kprintf_buffer v) 4096 \<subseteq> A \<and>
     area (kprintf_buffer v) 4096 \<inter> (area (video_memory v) 4000 \<union> area blank 160) = {} \<and>
     \<not> bit (kprintf_spinlock v) 31 \<and> shown f blank v m rows"

text \<open>What a string adds to the rows, and to the output of the debug port.\<close>

definition text_of :: "u8 list \<Rightarrow> u8 list" where
  "text_of out = takeWhile (\<lambda>c. c \<noteq> 0) out"

definition to_port :: "'d bus \<Rightarrow> u8 list \<Rightarrow> 'd \<Rightarrow> 'd" where
  "to_port bus text d = fold (kioport_out_kuint8 bus 0xE9) text d"

lemma window_flags [simp]:
  "window (m\<lparr>eflags_reg := e\<rparr>) A f = window m A f" "view f (m\<lparr>eflags_reg := e\<rparr>) = view f m"
  by (simp_all add: window_def translate_def view_def fun_eq_iff)

lemma screen_flags [simp]:
  "screen_mapped A f blank v (m\<lparr>eflags_reg := e\<rparr>) = screen_mapped A f blank v m"
  "shown f blank v (m\<lparr>eflags_reg := e\<rparr>) rows = shown f blank v m rows"
  by (simp_all add: screen_mapped_def shown_def screen_is_def)

lemma screen_lock [simp]:
  "screen_mapped A f blank (v\<lparr>kprintf_spinlock := l\<rparr>) m = screen_mapped A f blank v m"
  "shown f blank (v\<lparr>kprintf_spinlock := l\<rparr>) m rows = shown f blank v m rows"
  by (simp_all add: screen_mapped_def shown_def screen_is_def)

lemma window_store_bytes:
  assumes "window m A f" "area p (length bs) \<subseteq> A"
  shows "\<exists>m'. store_bytes p bs m = Inr m' \<and> only_in A f m m' \<and> (\<forall>a\<in>A - area p (length bs). view f m' a = view f m a)"
  using assms
proof (induction bs arbitrary: p m)
  case (Cons b bs)
  have p: "p \<in> A" using area_first [of "length (b # bs)" p] Cons.prems(2) by auto
  obtain m1 where m1: "wr8 p b m = Inr m1" "only_in A f m m1" "\<forall>a\<in>A. view f m1 a = ((view f m)(p := b)) a"
    using window_wr8 [OF Cons.prems(1) p] by blast
  have rest: "area (p + 1) (length bs) \<subseteq> area p (length (b # bs))" using area_part [of 1 "length bs" "length (b # bs)" p] by simp
  obtain m2 where m2: "store_bytes (p + 1) bs m1 = Inr m2" "only_in A f m1 m2"
    "\<forall>a\<in>A - area (p + 1) (length bs). view f m2 a = view f m1 a"
    using Cons.IH [OF only_in_window [OF m1(2) Cons.prems(1)], of "p + 1"] rest Cons.prems(2) by auto
  have "view f m2 a = view f m a" if "a \<in> A - area p (length (b # bs))" for a
  proof -
    have "a \<in> A" "a \<notin> area (p + 1) (length bs)" "a \<noteq> p"
      using that rest area_first [of "length (b # bs)" p] by auto
    then show ?thesis using m1(3) m2(3) by auto
  qed
  then show ?case using m1(1) m2(1) only_in_trans [OF m1(2) m2(2)] by (auto simp: store_byte_def)
qed simp

lemma screen_is_kept:
  assumes "screen_mapped A f blank v m" "\<forall>a\<in>A - B. view f m' a = view f m a"
    and "B \<inter> (area (video_memory v) 4000 \<union> area blank 160) = {}" "shown f blank v m rows"
  shows "shown f blank v m' rows"
proof -
  have "view f m' (video_memory v + word_of_nat i) = view f m (video_memory v + word_of_nat i)" if "i < 4000" for i
    using assms(1-3) area_mem [OF that, of "video_memory v"] by (auto simp: screen_mapped_def)
  moreover have "blank_in f blank m' b = blank_in f blank m b" if "b < 160" for b
    using assms(1-3) area_mem [OF that, of blank] by (auto simp: screen_mapped_def)
  ultimately show ?thesis
    using assms(4) cell_cong [of "blank_in f blank m'" "blank_in f blank m"] by (simp add: shown_def screen_is_def)
qed

lemma kprintf_shown:
  assumes ok: "console_ok A f blank v m rows" and out: "kvsprintf strs fmt args = Inr (count, out)" and len: "length out < 4096"
  shows "\<exists>v' m'. kprintf bus blank strs fmt args (v, m, d) = Inr (count, v', m', to_port bus (text_of out) d) \<and>
    console_ok A f blank v' m' (fold typed (text_of out) rows) \<and> video_memory v' = video_memory v \<and>
    eflags_reg m' = eflags_reg m"
proof -
  let ?lock = "kspinlock_lock_irqsave \<lparr>lock_word = kprintf_spinlock v, irqsave = 0, eflags = eflags_reg m\<rparr>"
  obtain k where k: "?lock = Inr k" "irqsave k = eflags_reg m"
    using ok by (auto simp: console_ok_def kspinlock_lock_irqsave_def spin_loop_eq Let_def)
  let ?v1 = "v\<lparr>kprintf_spinlock := lock_word k\<rparr>" and ?m1 = "m\<lparr>eflags_reg := eflags k\<rparr>" and ?p = "kprintf_buffer v"
  have w: "window ?m1 A f" and sm: "screen_mapped A f blank ?v1 ?m1" and sh: "shown f blank ?v1 ?m1 rows"
    and buf: "area ?p 4096 \<subseteq> A" "area ?p 4096 \<inter> (area (video_memory v) 4000 \<union> area blank 160) = {}"
    using ok by (simp_all add: console_ok_def screen_mapped_def)
  have part: "area ?p (length (out @ [0])) \<subseteq> area ?p 4096" using area_part [of 0 "length (out @ [0])" 4096 ?p] len by simp
  obtain m2 where m2: "store_bytes ?p (out @ [0]) ?m1 = Inr m2" "only_in A f ?m1 m2"
    "\<forall>a\<in>A - area ?p (length (out @ [0])). view f m2 a = view f ?m1 a"
    using window_store_bytes [OF w, of ?p "out @ [0]"] part buf(1) by auto
  have sm2: "screen_mapped A f blank ?v1 m2" using sm only_in_window [OF m2(2)] by (auto simp: screen_mapped_def)
  have sh2: "shown f blank ?v1 m2 rows"
    by (rule screen_is_kept [OF sm m2(3) _ sh]) (use part buf(2) in auto)
  have str: "takeWhile (\<lambda>c. c \<noteq> 0) (out @ [0]) = text_of out"
    by (simp add: text_of_def takeWhile_tail)
  obtain n m3 where m3: "raw_print bus blank (out @ [0]) (?v1, m2, d) = Inr (?v1\<lparr>video_next := n\<rparr>, m3, to_port bus (text_of out) d)"
    "draws A f ?v1 m2 m3" "shown f blank (?v1\<lparr>video_next := n\<rparr>) m3 (fold typed (text_of out) rows)"
    using raw_print_shown [OF sm2 sh2, of bus "out @ [0]" d] unfolding str to_port_def by blast
  let ?u = "kspinlock_unlock_irqrestore \<lparr>lock_word = lock_word k, irqsave = irqsave k, eflags = eflags_reg m3\<rparr>"
  let ?v' = "?v1\<lparr>video_next := n, kprintf_spinlock := lock_word ?u\<rparr>" and ?m' = "m3\<lparr>eflags_reg := eflags ?u\<rparr>"
  have "kprintf bus blank strs fmt args (v, m, d) = Inr (count, ?v', ?m', to_port bus (text_of out) d)"
    using k(1) out m2(1) m3(1) by (simp add: kprintf_def kvprintf_def Let_def)
  moreover have "console_ok A f blank ?v' ?m' (fold typed (text_of out) rows)"
    using draws_mapped(1) [OF m3(2) sm2] m3(3) buf
    by (simp add: console_ok_def screen_mapped_def shown_def screen_is_def kspinlock_unlock_irqrestore_def bit_unset_bit_iff)
  moreover have "video_memory ?v' = video_memory v" by simp
  moreover have "eflags_reg ?m' = eflags_reg m" using k(2) by (simp add: kspinlock_unlock_irqrestore_def)
  ultimately show ?thesis by blast
qed

text \<open>No character gets lost.\<close>

lemma concat_typed: "rows \<noteq> [] \<Longrightarrow> concat (typed c rows) = concat rows @ (if c = 0x0A then [] else [c])"
  by (cases rows rule: rev_cases) (simp_all add: typed_def Let_def)

lemma concat_typed_text: "rows \<noteq> [] \<Longrightarrow> concat (fold typed cs rows) = concat rows @ filter (\<lambda>c. c \<noteq> 0x0A) cs"
proof (induction cs arbitrary: rows)
  case (Cons c cs)
  have "typed c rows \<noteq> []" by (simp add: typed_def Let_def)
  then show ?case using Cons by (simp add: concat_typed)
qed simp

text \<open>
  C13: what \<^verbatim>\<open>kprintf\<close> shows. A call with a format whose output fits the buffer returns and leaves the screen as
  a terminal does that has got this output: the last 25 of all rows ever printed, broken at the ends of
  lines and at 80 characters, with the blank line behind their ends, so that no character is lost; the
  same output goes to the debug port; and lock and interrupts are as before, so that the next call finds
  everything in order.
\<close>
theorem kprintf_shows_on_terminal:
  assumes "console_ok A f blank v m rows" and "kvsprintf strs fmt args = Inr (count, out)" and "length out < 4096"
  shows "\<exists>v' m'. kprintf bus blank strs fmt args (v, m, d) = Inr (count, v', m', to_port bus (text_of out) d) \<and>
    console_ok A f blank v' m' (fold typed (text_of out) rows) \<and> video_memory v' = video_memory v \<and>
    eflags_reg m' = eflags_reg m \<and> concat (fold typed (text_of out) rows) = concat rows @ filter (\<lambda>c. c \<noteq> 0x0A) (text_of out)"
proof -
  have "rows \<noteq> []" using assms(1) by (simp add: console_ok_def shown_def good_rows_def)
  then show ?thesis using kprintf_shown [OF assms, of bus d] concat_typed_text by blast
qed

text \<open>A new console without paging, and a debug port that keeps what it gets.\<close>

definition new_console :: console where
  "new_console = \<lparr>video_memory = 0xB8000, video_next = 0, kprintf_buffer = 0x7000, kprintf_spinlock = 0\<rparr>"

definition log_bus :: "u8 list bus" where
  "log_bus = \<lparr>in8 = \<lambda>p d. (0, d), in16 = \<lambda>p d. (0, d), in32 = \<lambda>p d. (0, d),
     out8 = \<lambda>p v d. if p = 0xE9 then d @ [v] else d, out16 = \<lambda>p v d. d, out32 = \<lambda>p v d. d\<rparr>"

lemma log_bus_gets [simp]: "to_port log_bus cs d = d @ cs"
  by (induction cs arbitrary: d) (simp_all add: to_port_def kioport_out_kuint8_def log_bus_def)

lemma area_bounds: "a \<in> area p n \<Longrightarrow> unat p + n \<le> 4294967296 \<Longrightarrow> unat p \<le> unat a \<and> unat a < unat p + n"
proof -
  assume "a \<in> area p n" and n: "unat p + n \<le> 4294967296"
  then obtain i where i: "a = p + word_of_nat i" "i < n" by (auto simp: area_def)
  then have "unat a = unat p + i" using n by (simp add: unat_word_ariths unat_of_nat_small)
  then show ?thesis using i(2) by simp
qed

lemma areas_apart: "unat p + n \<le> unat q \<Longrightarrow> unat q + k \<le> 4294967296 \<Longrightarrow> area p n \<inter> area q k = {}"
  using area_bounds [of _ p n] area_bounds [of _ q k] by fastforce

lemma new_console_ok: "console_ok UNIV (\<lambda>a. a) 0x4000 new_console bare_machine [[]]"
proof -
  have apart: "area 0x4000 160 \<inter> area 0xB8000 4000 = {}" "area 0x7000 4096 \<inter> area 0xB8000 4000 = {}"
    "area 0x4000 160 \<inter> area 0x7000 4096 = {}"
    by (rule areas_apart, simp, simp)+
  have zero: "ram bare_machine a = 0" if "a \<in> area p n" "0x2003 \<le> unat p" "unat p + n \<le> 4294967296" for a p n
    using area_bounds [OF that(1,3)] that(2) by (auto simp: bare_machine_def)
  have "ram bare_machine (0xB8000 + word_of_nat i) = 0" if "i < 4000" for i
    by (rule zero [OF area_mem [OF that]]) simp_all
  moreover have "ram bare_machine (0x4000 + word_of_nat b) = 0" if "b < 160" for b
    by (rule zero [OF area_mem [OF that]]) simp_all
  moreover have "window bare_machine UNIV (\<lambda>a. a)" by (rule window_unpaged) (simp add: bare_machine_def)
  ultimately show ?thesis
    using apart unfolding console_ok_def screen_mapped_def shown_def good_rows_def screen_is_def
    by (auto simp: new_console_def view_def cell_def glyph_def cursor_def)
qed

theorem kprintf_shows_on_terminal_witness:
  "\<exists>v' m'. kprintf log_bus 0x4000 (\<lambda>_. []) [0x48, 0x69, 0x0A] (\<lambda>_. 0) (new_console, bare_machine, []) =
      Inr (3, v', m', [0x48, 0x69, 0x0A]) \<and> ram m' 0xB8000 = 0x48 \<and> ram m' 0xB8002 = 0x69 \<and>
    console_ok UNIV (\<lambda>a. a) 0x4000 v' m' [[0x48, 0x69], []]"
proof -
  have out: "kvsprintf (\<lambda>_. []) [0x48, 0x69, 0x0A] (\<lambda>_. 0) = Inr (3, [0x48, 0x69, 0x0A])"
    using format_loop_items [of "[Text [0x48, 0x69, 0x0A]]" "\<lambda>_. []" "\<lambda>_. 0"] by (simp add: kvsprintf_def)
  have rows: "fold typed (text_of [0x48, 0x69, 0x0A]) [[]] = [[0x48, 0x69], []]" by (simp add: text_of_def typed_def)
  have str: "text_of [0x48, 0x69, 0x0A] = [0x48, 0x69, 0x0A]" by (simp add: text_of_def)
  from kprintf_shows_on_terminal [OF new_console_ok out, of log_bus "[]"] obtain v' m' where
    k: "kprintf log_bus 0x4000 (\<lambda>_. []) [0x48, 0x69, 0x0A] (\<lambda>_. 0) (new_console, bare_machine, []) =
      Inr (3, v', m', [0x48, 0x69, 0x0A])" "console_ok UNIV (\<lambda>a. a) 0x4000 v' m' [[0x48, 0x69], []]" "video_memory v' = 0xB8000"
    unfolding rows by (auto simp: text_of_def new_console_def)
  have "view (\<lambda>a. a) m' (0xB8000 + word_of_nat i) = cell (view (\<lambda>a. a) m' \<circ> (\<lambda>b. 0x4000 + word_of_nat b)) [[0x48, 0x69], []] i"
    if "i < 4000" for i
    using k(2,3) that by (simp add: console_ok_def shown_def screen_is_def comp_def)
  from this [of 0] this [of 2] have "ram m' 0xB8000 = 0x48" "ram m' 0xB8002 = 0x69"
    by (simp_all add: view_def cell_def glyph_def top_row_def)
  with k(1,2) show ?thesis by blast
qed

end
