(* ===== verification/Report.thy ===== *)
theory Report
  imports Printf Irq
begin

unbundle bit_operations_syntax

text \<open>
  The reports of \<^verbatim>\<open>arch/ia32/thread.c\<close>, \<^verbatim>\<open>irq.c\<close> and \<^verbatim>\<open>memory.c\<close>, printed through \<^verbatim>\<open>kprintf\<close>, and the
  handlers that print them: exceptions and page faults that are not resolved.
\<close>

section \<open>Printing\<close>

definition ascii :: "string \<Rightarrow> u8 list" where
  "ascii s = map (\<lambda>c. word_of_nat (of_char c)) s"

text \<open>
  One call of \<^verbatim>\<open>kprintf\<close> with its arguments, on the screen, the threads with their memory, and the devices.
  None of the formats below has a \<^verbatim>\<open>%s\<close>.
\<close>

type_synonym 'd report_state = "console \<times> sched \<times> 'd"

definition say :: "'d bus \<Rightarrow> u32 \<Rightarrow> u8 list \<Rightarrow> u32 list \<Rightarrow> 'd report_state \<Rightarrow> stop + 'd report_state" where
  "say bus blank fmt ws = (\<lambda>(v, s, d).
     andthen (kprintf bus blank (\<lambda>_. []) fmt (given ws (\<lambda>_. 0)) (v, memory s, d)) (\<lambda>(count, v1, m, d1).
       Inr (v1, s\<lparr>memory := m\<rparr>, d1)))"

definition read_state :: "u32 \<Rightarrow> 'd report_state \<Rightarrow> stop + u32" where
  "read_state a = (\<lambda>(v, s, d). rd32 (memory s) a)"

section \<open>Stack traces\<close>

record processor_regs =
  r_esp :: u32
  r_ebp :: u32
  r_esi :: u32
  r_edi :: u32
  r_edx :: u32
  r_ecx :: u32
  r_ebx :: u32
  r_eax :: u32
  r_error :: u32
  r_eip :: u32
  r_cs :: u32
  r_eflags :: u32

definition five_words :: "u8 list" where
  "five_words = ascii (''%0.8x %0.8x %0.8x %0.8x %0.8x'' @ [CHR 0x0A])"

text \<open>The words from the frame on, in the order they are read.\<close>

primrec read_words :: "u32 list \<Rightarrow> 'd report_state \<Rightarrow> stop + u32 list" where
  "read_words [] x = Inr []"
| "read_words (a # as) x = andthen (read_state a x) (\<lambda>w. andthen (read_words as x) (\<lambda>ws. Inr (w # ws)))"

definition trace_turn :: "'d bus \<Rightarrow> u32 \<Rightarrow> u32 \<times> 'd report_state \<Rightarrow>
    stop + (u32 \<times> 'd report_state + 'd report_state)" where
  "trace_turn bus blank = (\<lambda>(stack, x).
     if stack = 0 then Inr (Inr x)
     else andthen (read_state stack x) (\<lambda>w.
       if w = 0 then Inr (Inr x)
       else andthen (read_words [stack + 4, stack + 8, stack + 12, stack + 16, stack + 20] x) (\<lambda>ws.
         andthen (say bus blank five_words ws x) (\<lambda>x1.
         andthen (read_state stack x1) (\<lambda>stack1. Inr (Inl (stack1, x1)))))))"

definition print_stack_trace :: "'d bus \<Rightarrow> u32 \<Rightarrow> processor_regs \<Rightarrow> 'd report_state \<Rightarrow> stop + 'd report_state" where
  "print_stack_trace bus blank regs x =
     andthen (say bus blank (ascii (''Stack Trace'' @ [CHR 0x0A])) [] x) (\<lambda>x1.
       iterate (trace_turn bus blank) (r_ebp regs, x1))"

section \<open>Exceptions and page faults\<close>

text \<open>\<^verbatim>\<open>kthread_kill_current\<close> at the end of a handler.\<close>

definition kill_interrupted :: "'d report_state \<Rightarrow> stop + 'd report_state" where
  "kill_interrupted = (\<lambda>(v, s, d). andthen (kthread_kill_current s) (\<lambda>s1. Inr (v, s1, d)))"

text \<open>\<^verbatim>\<open>cr1\<close> and \<^verbatim>\<open>cr4\<close> are printed as 0: the instructions that read them are comments.\<close>

definition exception_handler :: "'d bus \<Rightarrow> u32 \<Rightarrow> u32 \<Rightarrow> processor_regs \<Rightarrow> u32 \<Rightarrow> u32 \<Rightarrow>
    'd report_state \<Rightarrow> stop + 'd report_state" where
  "exception_handler bus blank number regs cr0_reg cr2_reg x =
     andthen (say bus blank (ascii (''Exception=%02x'' @ [CHR 0x0A])) [number] x) (\<lambda>x1.
     andthen (say bus blank (ascii (''eflags=%0.8x cs=%0.8x eip=%0.8x error=%0.8x'' @ [CHR 0x0A]))
       [r_eflags regs, r_cs regs, r_eip regs, r_error regs] x1) (\<lambda>x2.
     andthen (say bus blank (ascii (''eax=%0.8x ebx=%0.8x ecx=%0.8x edx=%0.8x'' @ [CHR 0x0A]))
       [r_eax regs, r_ebx regs, r_ecx regs, r_edx regs] x2) (\<lambda>x3.
     andthen (say bus blank (ascii (''edi=%0.8x esi=%0.8x ebp=%0.8x esp=%0.8x'' @ [CHR 0x0A]))
       [r_edi regs, r_esi regs, r_ebp regs, r_esp regs] x3) (\<lambda>x4.
     andthen (say bus blank (ascii (''cr0=%0.8x cr1=%0.8x cr2=%0.8x cr3=%0.8x cr4=%0.8x'' @ [CHR 0x0A]))
       [cr0_reg, 0, cr2_reg, cr3 (memory (fst (snd x))), 0] x4) (\<lambda>x5.
     andthen (print_stack_trace bus blank regs x5) kill_interrupted)))))"

definition page_fault_handler :: "'d bus \<Rightarrow> u32 \<Rightarrow> u32 \<Rightarrow> processor_regs \<Rightarrow>
    'd report_state \<Rightarrow> stop + 'd report_state" where
  "page_fault_handler bus blank cr2_reg regs = (\<lambda>(v, s, d).
     andthen (handle_page_fault cr2_reg (memory s)) (\<lambda>r. case r of
         Resumed m \<Rightarrow> Inr (v, s\<lparr>memory := m\<rparr>, d)
       | Kill_Current m \<Rightarrow>
           andthen (say bus blank (ascii (''Page Fault'' @ [CHR 0x0A] @ ''cr2: %0.8x'' @ [CHR 0x0A] @
               ''eip: %0.8x'' @ [CHR 0x0A] @ ''error: %0.8x'' @ [CHR 0x0A]))
             [cr2_reg, r_eip regs, r_error regs] (v, s\<lparr>memory := m\<rparr>, d)) (\<lambda>x1.
           andthen (print_stack_trace bus blank regs x1) kill_interrupted)))"

section \<open>The tables of the memory manager\<close>

primrec each :: "('a \<Rightarrow> 's \<Rightarrow> stop + 's) \<Rightarrow> 'a list \<Rightarrow> 's \<Rightarrow> stop + 's" where
  "each f [] x = Inr x"
| "each f (a # as) x = andthen (f a x) (each f as)"

definition four_words :: "u8 list" where
  "four_words = ascii (''%0.8x %0.8x %0.8x %0.8x'' @ [CHR 0x0A])"

text \<open>
  The two loops over a directory at \<open>ptd\<close>, for the entries with a bit of \<open>upper\<close>, and over each table, for
  the entries with a bit of \<open>lower\<close>. An entry is read where the condition and the arguments name it.
\<close>

definition print_table_entry :: "'d bus \<Rightarrow> u32 \<Rightarrow> u32 \<Rightarrow> u32 \<Rightarrow> u32 \<Rightarrow> nat \<Rightarrow> 'd report_state \<Rightarrow> stop + 'd report_state" where
  "print_table_entry bus blank lower i1 pt i2 x =
     (let i2w = word_of_nat i2 :: u32; slot = pt + 4 * i2w
      in andthen (read_state slot x) (\<lambda>w.
         if w AND lower \<noteq> 0 then
           say bus blank (0x20 # five_words) [i1, i2w, push_bit 22 i1 OR push_bit 12 i2w, w, slot] x
         else Inr x))"

definition print_directory_entry :: "'d bus \<Rightarrow> u32 \<Rightarrow> u32 \<Rightarrow> u32 \<Rightarrow> u32 \<Rightarrow> nat \<Rightarrow> 'd report_state \<Rightarrow> stop + 'd report_state" where
  "print_directory_entry bus blank upper lower ptd i x =
     (let i1 = word_of_nat i :: u32; slot = ptd + 4 * i1
      in andthen (read_state slot x) (\<lambda>w.
         if w AND upper \<noteq> 0 then
           andthen (say bus blank four_words [i1, push_bit 22 i1, w, slot] x) (\<lambda>x1.
             each (print_table_entry bus blank lower i1 (page_base w)) [0..<1024] x1)
         else Inr x))"

definition print_zone :: "'d bus \<Rightarrow> u32 \<Rightarrow> nat \<Rightarrow> 'd report_state \<Rightarrow> stop + 'd report_state" where
  "print_zone bus blank i x =
     (let z = zones (memory (fst (snd x))) i
      in say bus blank (ascii (''%0.8x %0.8x %0.8x'' @ [CHR 0x0A])) [zone_next z, zone_start z, zone_end z] x)"

definition print_page_table :: "'d bus \<Rightarrow> u32 \<Rightarrow> 'd report_state \<Rightarrow> stop + 'd report_state" where
  "print_page_table bus blank x =
     (let m = memory (fst (snd x)) in
      andthen (read_words [virtual_block m + 4, virtual_block m + 12] x) (\<lambda>counts.
      andthen (say bus blank (ascii (''Virtual Memory Info'' @ [CHR 0x0A] @ ''%#0.8x %#0.8x %#0.8x'' @ [CHR 0x0A]))
        (virtual_address m # counts) x) (\<lambda>x1.
      andthen (say bus blank (ascii (''Zones'' @ [CHR 0x0A])) [] x1) (\<lambda>x2.
      andthen (each (print_zone bus blank) [0..<ZONE_COUNT] x2) (\<lambda>x3.
      andthen (say bus blank (ascii (''Linear Page Tables'' @ [CHR 0x0A])) [] x3) (\<lambda>x4.
      andthen (each (print_directory_entry bus blank LINEAR_ALLOCATED LINEAR_ALLOCATED (lptd m)) [0..<1024] x4) (\<lambda>x5.
      andthen (say bus blank (ascii (''Virtual Page Tables'' @ [CHR 0x0A])) [] x5) (\<lambda>x6.
        each (print_directory_entry bus blank VIRTUAL_ALLOCATED (VIRTUAL_ALLOCATED OR VIRTUAL_ASSIGNED) (vptd m))
          [0..<1024] x6))))))))"

section \<open>A fault ends the thread\<close>

text \<open>Of the threads, printing changes the memory only.\<close>

definition only_memory :: "sched \<Rightarrow> 'd report_state \<Rightarrow> bool" where
  "only_memory s x \<longleftrightarrow> (\<exists>m. fst (snd x) = s\<lparr>memory := m\<rparr>)"

lemma only_memory_self [simp]: "only_memory s (v, s\<lparr>memory := m\<rparr>, d)"
  by (auto simp: only_memory_def)

lemma say_memory: "say bus blank fmt ws x = Inr x1 \<Longrightarrow> only_memory s x \<Longrightarrow> only_memory s x1"
  by (cases x) (auto simp: say_def only_memory_def andthen_Inr_iff)

lemma say_then:
  assumes "andthen (say bus blank fmt ws x) f = Inr y" "only_memory s x"
  obtains x1 where "f x1 = Inr y" "only_memory s x1"
  using assms say_memory unfolding andthen_Inr_iff by blast

lemma print_stack_trace_memory:
  assumes "print_stack_trace bus blank regs x = Inr x1" "only_memory s x"
  shows "only_memory s x1"
proof -
  obtain x0 where x0: "iterate (trace_turn bus blank) (r_ebp regs, x0) = Inr x1" "only_memory s x0"
    using say_then [OF assms(1) [unfolded print_stack_trace_def] assms(2)] by blast
  show ?thesis
  proof (rule iterate_invariant [OF x0(1), of "\<lambda>(stack, x). only_memory s x" "only_memory s"])
    show "case (r_ebp regs, x0) of (stack, x) \<Rightarrow> only_memory s x" using x0(2) by simp
    show "case t' of (stack, x) \<Rightarrow> only_memory s x"
      if om: "case t of (stack, x) \<Rightarrow> only_memory s x" and go: "trace_turn bus blank t = Inr (Inl t')" for t t'
    proof -
      obtain stack x where t: "t = (stack, x)" by (cases t) auto
      then obtain ws where "andthen (say bus blank five_words ws x)
          (\<lambda>x1. andthen (read_state stack x1) (\<lambda>stack1. Inr (Inl (stack1, x1) :: _ + 'a report_state))) = Inr (Inl t')"
        using go by (auto simp: trace_turn_def andthen_Inr_iff split: if_splits)
      then show ?thesis using om t say_memory [of bus blank five_words ws x] by (auto simp: andthen_Inr_iff)
    qed
    show "only_memory s y" if "case t of (stack, x) \<Rightarrow> only_memory s x" "trace_turn bus blank t = Inr (Inr y)" for t y
      using that by (cases t) (auto simp: trace_turn_def andthen_Inr_iff split: if_splits)
  qed
qed

text \<open>A piece of a handler that ends in \<^verbatim>\<open>kthread_kill_current\<close>, with nothing but printing before.\<close>

definition kills :: "sched \<Rightarrow> ('d report_state \<Rightarrow> stop + 'd report_state) \<Rightarrow> bool" where
  "kills s f \<longleftrightarrow> (\<forall>x v1 s1 d1. only_memory s x \<longrightarrow> f x = Inr (v1, s1, d1) \<longrightarrow>
     (\<exists>m. kthread_kill_current (s\<lparr>memory := m\<rparr>) = Inr s1))"

lemma kills_say: "kills s f \<Longrightarrow> kills s (\<lambda>x. andthen (say bus blank fmt ws x) f)"
  unfolding kills_def by (metis say_then)

lemma kills_trace: "kills s (\<lambda>x. andthen (print_stack_trace bus blank regs x) kill_interrupted)"
  unfolding kills_def
proof (intro allI impI)
  fix x v1 s1 d1
  assume "only_memory s x" "andthen (print_stack_trace bus blank regs x) kill_interrupted = Inr (v1, s1, d1)"
  then obtain x1 where "only_memory s x1" "kill_interrupted x1 = Inr (v1, s1, d1)"
    using print_stack_trace_memory unfolding andthen_Inr_iff by blast
  then show "\<exists>m. kthread_kill_current (s\<lparr>memory := m\<rparr>) = Inr s1"
    by (cases x1) (auto simp: only_memory_def kill_interrupted_def andthen_Inr_iff)
qed

lemma exception_handler_kills:
  assumes "exception_handler bus blank number regs c0 c2 (v, s, d) = Inr (v1, s1, d1)"
  shows "\<exists>m. kthread_kill_current (s\<lparr>memory := m\<rparr>) = Inr s1"
proof -
  have "only_memory s (v, s, d)" using only_memory_self [of s v "memory s" d] by simp
  moreover have "kills s (\<lambda>y.
     andthen (say bus blank (ascii (''Exception=%02x'' @ [CHR 0x0A])) [number] y) (\<lambda>x1.
     andthen (say bus blank (ascii (''eflags=%0.8x cs=%0.8x eip=%0.8x error=%0.8x'' @ [CHR 0x0A]))
       [r_eflags regs, r_cs regs, r_eip regs, r_error regs] x1) (\<lambda>x2.
     andthen (say bus blank (ascii (''eax=%0.8x ebx=%0.8x ecx=%0.8x edx=%0.8x'' @ [CHR 0x0A]))
       [r_eax regs, r_ebx regs, r_ecx regs, r_edx regs] x2) (\<lambda>x3.
     andthen (say bus blank (ascii (''edi=%0.8x esi=%0.8x ebp=%0.8x esp=%0.8x'' @ [CHR 0x0A]))
       [r_edi regs, r_esi regs, r_ebp regs, r_esp regs] x3) (\<lambda>x4.
     andthen (say bus blank (ascii (''cr0=%0.8x cr1=%0.8x cr2=%0.8x cr3=%0.8x cr4=%0.8x'' @ [CHR 0x0A]))
       [c0, 0, c2, cr3 (memory s), 0] x4) (\<lambda>x5.
     andthen (print_stack_trace bus blank regs x5) kill_interrupted))))))"
    by (intro kills_say kills_trace)
  ultimately show ?thesis using assms unfolding kills_def exception_handler_def by simp
qed

lemma page_fault_handler_kills:
  assumes "handle_page_fault cr2_reg (memory s) = Inr (Kill_Current m0)"
    and "page_fault_handler bus blank cr2_reg regs (v, s, d) = Inr (v1, s1, d1)"
  shows "\<exists>m. kthread_kill_current (s\<lparr>memory := m\<rparr>) = Inr s1"
proof -
  have k: "kills s (\<lambda>y. andthen (say bus blank (ascii (''Page Fault'' @ [CHR 0x0A] @ ''cr2: %0.8x'' @ [CHR 0x0A] @
      ''eip: %0.8x'' @ [CHR 0x0A] @ ''error: %0.8x'' @ [CHR 0x0A])) [cr2_reg, r_eip regs, r_error regs] y)
    (\<lambda>x1. andthen (print_stack_trace bus blank regs x1) kill_interrupted))"
    by (intro kills_say kills_trace)
  show ?thesis
    using k [unfolded kills_def, rule_format, OF only_memory_self [of s v m0 d], of v1 s1 d1] assms
    unfolding page_fault_handler_def by simp
qed


text \<open>Without paging, as before \<^verbatim>\<open>kmemory_virtual_setup\<close>, every character finds its place.\<close>

lemma bare_access:
  assumes "\<not> paging s"
  shows "\<exists>v. rd8 s a = Inr v" "\<exists>v. rd16 s a = Inr v" "\<exists>v. rd32 s a = Inr v"
    "\<exists>s'. wr8 a b s = Inr s' \<and> \<not> paging s'" "\<exists>s'. wr16 a h s = Inr s' \<and> \<not> paging s'"
    "\<exists>s'. wr32 a w s = Inr s' \<and> \<not> paging s'"
  using assms by (simp_all add: rd8_def rd16_def rd32_def wr8_def wr16_def wr32_def phys_def translate_def)

lemma bare_movs:
  assumes "\<And>s a. \<not> paging s \<Longrightarrow> \<exists>v. rd s a = Inr v" "\<And>s a v. \<not> paging s \<Longrightarrow> \<exists>s'. wr a v s = Inr s' \<and> \<not> paging s'"
    and "\<not> paging s"
  shows "\<exists>di1 si1 s'. rep_movs rd wr width n di si s = Inr (di1, si1, s') \<and> \<not> paging s'"
  using assms(3)
proof (induction n arbitrary: di si s)
  case (Suc n)
  obtain v where "rd s si = Inr v" using assms(1) Suc.prems by blast
  moreover obtain s1 where "wr di v s = Inr s1" "\<not> paging s1" using assms(2) Suc.prems by blast
  ultimately show ?case using Suc.IH [of s1 "di + width" "si + width"] by simp
qed simp

lemma bare_copy: "\<not> paging s \<Longrightarrow> \<exists>s'. kmemory_virtual_copy di si len s = Inr (di, s') \<and> \<not> paging s'"
proof -
  assume p: "\<not> paging s"
  obtain d1 i1 s1 where 1: "rep_movs rd32 wr32 4 (unat (len div 4)) di si s = Inr (d1, i1, s1)" "\<not> paging s1"
    using bare_movs [of rd32 wr32, OF bare_access(3,6) p] by blast
  obtain d2 i2 s2 where 2: "rep_movs rd16 wr16 2 (if len AND 0x02 \<noteq> 0 then 1 else 0) d1 i1 s1 = Inr (d2, i2, s2)" "\<not> paging s2"
    using bare_movs [of rd16 wr16, OF bare_access(2,5) 1(2)] by blast
  obtain d3 i3 s3 where 3: "rep_movs rd8 wr8 1 (if len AND 0x01 \<noteq> 0 then 1 else 0) d2 i2 s2 = Inr (d3, i3, s3)" "\<not> paging s3"
    using bare_movs [of rd8 wr8, OF bare_access(1,4) 2(2)] by blast
  show ?thesis using 1(1) 2(1) 3 unfolding kmemory_virtual_copy_def by simp
qed

lemma bare_char: "\<not> paging m \<Longrightarrow> \<exists>v1 m1 d1. raw_char bus blank c (v, m, d) = Inr (v1, m1, d1) \<and> \<not> paging m1 \<and> kprintf_spinlock v1 = kprintf_spinlock v"
proof -
  assume p: "\<not> paging m"
  obtain v1 m1 where 1: "(if c = 0x0A then Inr (v\<lparr>video_next := video_next v div 160 * 160 + 160\<rparr>, m)
      else andthen (kmemory_linear_write_kuint8 (video_memory v + video_next v) c m) (\<lambda>m1.
        Inr (v\<lparr>video_next := video_next v + 2\<rparr>, m1))) = Inr (v1, m1)"
    "\<not> paging m1" "kprintf_spinlock v1 = kprintf_spinlock v"
    using p bare_access(4) [OF p, of "video_memory v + video_next v" c]
    by (cases "c = 0x0A") (auto simp: kmemory_linear_write_kuint8_def)
  let ?v2 = "v1\<lparr>video_next := 3840\<rparr>"
  obtain m2 where 2: "kmemory_virtual_copy (video_memory ?v2) (video_memory ?v2 + 160) 3840 m1 = Inr (video_memory ?v2, m2)" "\<not> paging m2"
    using bare_copy [OF 1(2)] by blast
  obtain m3 where 3: "kmemory_virtual_copy (video_memory ?v2 + video_next ?v2) blank 160 m2 = Inr (video_memory ?v2 + video_next ?v2, m3)" "\<not> paging m3"
    using bare_copy [OF 2(2)] by blast
  show ?thesis unfolding raw_char_def Let_def split_conv 1(1) using 1(2,3) 2 3 by simp
qed

lemma bare_print: "\<not> paging m \<Longrightarrow> \<exists>v1 m1 d1. raw_print bus blank cs (v, m, d) = Inr (v1, m1, d1) \<and> \<not> paging m1 \<and> kprintf_spinlock v1 = kprintf_spinlock v"
proof (induction cs arbitrary: v m d)
  case (Cons c cs)
  obtain v1 m1 d1 where "raw_char bus blank c (v, m, d) = Inr (v1, m1, d1)" "\<not> paging m1" "kprintf_spinlock v1 = kprintf_spinlock v"
    using bare_char [OF Cons.prems, of bus blank c v d] by auto
  then show ?case using Cons.IH [of m1 v1 d1] Cons.prems by auto
qed simp

lemma bare_bytes: "\<not> paging m \<Longrightarrow> \<exists>m1. store_bytes a bs m = Inr m1 \<and> \<not> paging m1"
proof (induction bs arbitrary: a m)
  case (Cons b bs)
  obtain m1 where "wr8 a b m = Inr m1" "\<not> paging m1" using bare_access(4) [OF Cons.prems] by blast
  then show ?case using Cons.IH [of m1 "a + 1"] by (simp add: store_byte_def)
qed simp

lemma bare_say:
  assumes "\<not> paging (memory s)" "\<not> bit (kprintf_spinlock v) 31"
    and "list_all item_ok items" "fmt = concat (map item_format items)" "ws = concat (map item_args items)"
  shows "\<exists>v1 m1 d1. say bus blank fmt ws (v, s, d) = Inr (v1, s\<lparr>memory := m1\<rparr>, d1) \<and> \<not> paging m1 \<and> \<not> bit (kprintf_spinlock v1) 31"
proof -
  let ?m = "memory s"
  obtain k where k: "kspinlock_lock_irqsave \<lparr>lock_word = kprintf_spinlock v, irqsave = 0, eflags = eflags_reg ?m\<rparr> = Inr k"
    using lock_irqsave_free [OF assms(2)] by blast
  obtain out where out: "kvsprintf (\<lambda>_. []) fmt (given ws (\<lambda>_. 0)) = Inr out"
    using format_loop_items [OF assms(3)] unfolding assms(4,5) kvsprintf_def by fastforce
  obtain m1 where m1: "store_bytes (kprintf_buffer v) (snd out @ [0]) (?m\<lparr>eflags_reg := eflags k\<rparr>) = Inr m1" "\<not> paging m1"
    using bare_bytes [of "?m\<lparr>eflags_reg := eflags k\<rparr>"] assms(1) by auto
  obtain v2 m2 d2 where r: "raw_print bus blank (snd out @ [0]) (v\<lparr>kprintf_spinlock := lock_word k\<rparr>, m1, d) = Inr (v2, m2, d2)" "\<not> paging m2"
    using bare_print [OF m1(2), of bus blank "snd out @ [0]" "v\<lparr>kprintf_spinlock := lock_word k\<rparr>" d] by auto
  have u: "\<not> bit (lock_word (kspinlock_unlock_irqrestore l)) 31" for l
    by (simp add: kspinlock_unlock_irqrestore_def bit_unset_bit_iff)
  let ?u = "kspinlock_unlock_irqrestore \<lparr>lock_word = kprintf_spinlock v2, irqsave = irqsave k, eflags = eflags_reg m2\<rparr>"
  have "say bus blank fmt ws (v, s, d) = Inr (v2\<lparr>kprintf_spinlock := lock_word ?u\<rparr>, s\<lparr>memory := m2\<lparr>eflags_reg := eflags ?u\<rparr>\<rparr>, d2)"
    using k out m1 r by (simp add: say_def kprintf_def kvprintf_def Let_def split_beta)
  moreover have "\<not> paging (m2\<lparr>eflags_reg := eflags ?u\<rparr>)" using r(2) by simp
  moreover have "\<not> bit (kprintf_spinlock (v2\<lparr>kprintf_spinlock := lock_word ?u\<rparr>)) 31" using u by simp
  ultimately show ?thesis by (intro exI conjI)
qed

text \<open>A fault at \<open>0x9000\<close> on a machine without pages, in a routine without frames.\<close>

definition no_frames :: processor_regs where
  "no_frames = \<lparr>r_esp = 0, r_ebp = 0, r_esi = 0, r_edi = 0, r_edx = 0, r_ecx = 0, r_ebx = 0, r_eax = 0,
     r_error = 2, r_eip = 0x1234, r_cs = 0x10, r_eflags = 0x202\<rparr>"

definition text_screen :: console where
  "text_screen = \<lparr>video_memory = 0xB8000, video_next = 0, kprintf_buffer = 0x7000, kprintf_spinlock = 0\<rparr>"

lemma bare_fault: "handle_page_fault 0x9000 bare_machine = Inr (Kill_Current bare_machine)"
proof -
  have "rd32 (bare_machine\<lparr>kmemory_spinlock := set_bit 31 0\<rparr>) (directory_slot bare_machine 0x9000) = Inr 0"
    by (simp add: rd32_def rd8_def phys_def translate_def bare_machine_def directory_slot_def
      dir_index_def word_of_bytes_def)
  moreover have "bare_machine\<lparr>kmemory_spinlock := kspinlock_unlock (set_bit 31 0)\<rparr> = bare_machine"
    by (simp add: bare_machine_def kspinlock_unlock_def)
  ultimately show ?thesis
    by (simp add: handle_page_fault_def kspinlock_lock_eq Let_def directory_slot_def bare_machine_def)
qed


end
