(* ===== verification/Kinterface.thy ===== *)
theory Kinterface
  imports Atomic
begin

text \<open>
  The interface a module is given: \<^verbatim>\<open>struct kinterface\<close> of \<^verbatim>\<open>include/kinterface.h\<close>, the table
  \<^verbatim>\<open>_kinterface\<close> of \<^verbatim>\<open>arch/ia32/internal.c\<close> that fills it by position, and the routines of
  \<^verbatim>\<open>internal.c\<close>. A function is its name.
\<close>

section \<open>The two lists\<close>

text \<open>The fields of \<^verbatim>\<open>struct kinterface\<close>, in the order of their declarations: the kernel's own, and from the
  linear memory on.\<close>

definition kernel_fields :: "string list" where
  "kernel_fields =
   [''kinterface_check_version'', ''kinterface_kernel_info'', ''kmodule_get'', ''kmodule_free'',
     ''katomic_get'', ''katomic_set'', ''katomic_inc'', ''katomic_dec'', ''katomic_add'', ''katomic_sub'',
     ''katomic_inc_and_test'', ''katomic_dec_and_test'', ''katomic_compare'',
     ''katomic_compare_and_set_if_equal'', ''katomic_mask_set'', ''katomic_mask_clear'',
     ''katomic_bit_get'', ''katomic_bit_set'', ''katomic_bit_reset'', ''katomic_bit_test_and_set'',
     ''katomic_bit_test_and_reset'', ''kprintf'', ''kvprintf'', ''kvsprintf'', ''kirq_assign_irq'',
     ''kirq_unassign_irq'', ''kirq_enable_irq'', ''kirq_disable_irq'', ''kirq_enable_all'',
     ''kirq_disable_all'', ''kioport_in_kuint'', ''kioport_in_kuint8'', ''kioport_in_kuint16'',
     ''kioport_in_kuint32'', ''kioport_in_kuint64'', ''kioport_out_kuint'', ''kioport_out_kuint8'',
     ''kioport_out_kuint16'', ''kioport_out_kuint32'', ''kioport_out_kuint64'', ''kioport_in_kuint_array'',
     ''kioport_in_kuint8_array'', ''kioport_in_kuint16_array'', ''kioport_in_kuint32_array'',
     ''kioport_in_kuint64_array'', ''kioport_out_kuint_array'', ''kioport_out_kuint8_array'',
     ''kioport_out_kuint16_array'', ''kioport_out_kuint32_array'', ''kioport_out_kuint64_array'',
     ''kspinlock_lock'', ''kspinlock_unlock'', ''kspinlock_lock_irqsave'', ''kspinlock_unlock_irqrestore'',
     ''krwlock_read_lock'', ''krwlock_read_unlock'', ''krwlock_write_lock'', ''krwlock_write_unlock'',
     ''kthread_create'', ''kthread_current'', ''kthread_yield'', ''kthread_kill'', ''kthread_suspend'',
     ''kthread_resume'', ''kthread_sleep'', ''kthread_priority_set'', ''kthread_priority_get'',
     ''kthread_key_set'', ''kthread_key_get'', ''ktime_get'', ''ktime_set'', ''ktimer_add'',
     ''ktimer_remove'']"

definition memory_fields :: "string list" where
  "memory_fields =
   [''kmemory_linear_page_allocate'', ''kmemory_linear_page_unallocate'', ''kmemory_linear_page_map'',
     ''kmemory_linear_page_unmap'', ''kmemory_linear_read_kuint'', ''kmemory_linear_read_kuint8'',
     ''kmemory_linear_read_kuint16'', ''kmemory_linear_read_kuint32'', ''kmemory_linear_read_kuint64'',
     ''kmemory_linear_write_kuint'', ''kmemory_linear_write_kuint8'', ''kmemory_linear_write_kuint16'',
     ''kmemory_linear_write_kuint32'', ''kmemory_linear_write_kuint64'',
     ''kmemory_linear_read_kuint_array'', ''kmemory_linear_read_kuint8_array'',
     ''kmemory_linear_read_kuint16_array'', ''kmemory_linear_read_kuint32_array'',
     ''kmemory_linear_read_kuint64_array'', ''kmemory_linear_write_kuint_array'',
     ''kmemory_linear_write_kuint8_array'', ''kmemory_linear_write_kuint16_array'',
     ''kmemory_linear_write_kuint32_array'', ''kmemory_linear_write_kuint64_array'',
     ''kmemory_virtual_page_allocate'', ''kmemory_virtual_page_unallocate'', ''kmemory_virtual_copy'',
     ''kmemory_virtual_fill'', ''kprocessor_flags_save'', ''kprocessor_flags_restore'',
     ''kprocessor_byteswap_kuint'', ''kprocessor_byteswap_kuint8'', ''kprocessor_byteswap_kuint16'',
     ''kprocessor_byteswap_kuint32'', ''kprocessor_byteswap_kuint64'', ''kmutex_create'',
     ''kmutex_destroy'', ''kmutex_lock'', ''kmutex_unlock'', ''kmutex_test'', ''kcondition_create'',
     ''kcondition_destroy'', ''kcondition_signal'', ''kcondition_broadcast'', ''kcondition_wait'',
     ''kcondition_timedwait'']"

definition kinterface_fields :: "string list" where
  "kinterface_fields = kernel_fields @ memory_fields"

text \<open>The initialiser of \<^verbatim>\<open>_kinterface\<close>.\<close>

definition kernel_table :: "string list" where
  "kernel_table =
   [''kinterface_check_version'', ''kinterface_kernel_info'', ''kmodule_get'', ''kmodule_free'',
     ''katomic_get'', ''katomic_set'', ''katomic_inc'', ''katomic_dec'', ''katomic_add'', ''katomic_sub'',
     ''katomic_dec_and_test'', ''katomic_inc_and_test'', ''katomic_compare'',
     ''katomic_compare_and_set_if_equal'', ''katomic_mask_set'', ''katomic_mask_clear'',
     ''katomic_bit_get'', ''katomic_bit_set'', ''katomic_bit_reset'', ''katomic_bit_test_and_set'',
     ''katomic_bit_test_and_reset'', ''kprintf'', ''kvprintf'', ''kvsprintf'', ''kirq_assign_irq'',
     ''kirq_unassign_irq'', ''kirq_enable_irq'', ''kirq_disable_irq'', ''kirq_enable_all'',
     ''kirq_disable_all'', ''kioport_in_kuint'', ''kioport_in_kuint8'', ''kioport_in_kuint16'',
     ''kioport_in_kuint32'', ''kioport_in_kuint64'', ''kioport_out_kuint'', ''kioport_out_kuint8'',
     ''kioport_out_kuint16'', ''kioport_out_kuint32'', ''kioport_out_kuint64'', ''kioport_in_kuint_array'',
     ''kioport_in_kuint8_array'', ''kioport_in_kuint16_array'', ''kioport_in_kuint32_array'',
     ''kioport_in_kuint64_array'', ''kioport_out_kuint_array'', ''kioport_out_kuint8_array'',
     ''kioport_out_kuint16_array'', ''kioport_out_kuint32_array'', ''kioport_out_kuint64_array'',
     ''kspinlock_lock'', ''kspinlock_unlock'', ''kspinlock_lock_irqsave'', ''kspinlock_unlock_irqrestore'',
     ''krwlock_read_lock'', ''krwlock_read_unlock'', ''krwlock_write_lock'', ''krwlock_write_unlock'',
     ''kthread_create'', ''kthread_current'', ''kthread_yield'', ''kthread_kill'', ''kthread_suspend'',
     ''kthread_resume'', ''kthread_sleep'', ''kthread_priority_set'', ''kthread_priority_get'',
     ''kthread_key_set'', ''kthread_key_get'', ''ktime_get'', ''ktime_set'', ''ktimer_add'',
     ''ktimer_remove'']"

definition memory_table :: "string list" where
  "memory_table =
   [''kmemory_linear_page_allocate'', ''kmemory_linear_page_unallocate'', ''kmemory_linear_page_map'',
     ''kmemory_linear_page_unmap'', ''kmemory_linear_read_kuint'', ''kmemory_linear_read_kuint8'',
     ''kmemory_linear_read_kuint16'', ''kmemory_linear_read_kuint32'', ''kmemory_linear_read_kuint64'',
     ''kmemory_linear_write_kuint'', ''kmemory_linear_write_kuint8'', ''kmemory_linear_write_kuint16'',
     ''kmemory_linear_write_kuint32'', ''kmemory_linear_write_kuint64'',
     ''kmemory_linear_read_kuint_array'', ''kmemory_linear_read_kuint8_array'',
     ''kmemory_linear_read_kuint16_array'', ''kmemory_linear_read_kuint32_array'',
     ''kmemory_linear_read_kuint64_array'', ''kmemory_linear_write_kuint_array'',
     ''kmemory_linear_write_kuint8_array'', ''kmemory_linear_write_kuint16_array'',
     ''kmemory_linear_write_kuint32_array'', ''kmemory_linear_write_kuint64_array'',
     ''kmemory_virtual_page_allocate'', ''kmemory_virtual_page_unallocate'', ''kmemory_virtual_copy'',
     ''kmemory_virtual_fill'', ''kprocessor_flags_save'', ''kprocessor_flags_restore'',
     ''kprocessor_byteswap_kuint'', ''kprocessor_byteswap_kuint8'', ''kprocessor_byteswap_kuint16'',
     ''kprocessor_byteswap_kuint32'', ''kprocessor_byteswap_kuint64'', ''kmutex_create'',
     ''kmutex_destroy'', ''kmutex_lock'', ''kmutex_unlock'', ''kmutex_test'', ''kcondition_create'',
     ''kcondition_destroy'', ''kcondition_signal'', ''kcondition_broadcast'', ''kcondition_wait'',
     ''kcondition_timedwait'']"

definition kinterface_table :: "string list" where
  "kinterface_table = kernel_table @ memory_table"

text \<open>What a module reaches through a field: C initialises the fields by position.\<close>

definition reached :: "string \<Rightarrow> string option" where
  "reached f = map_of (zip kinterface_fields kinterface_table) f"

section \<open>Versions and information\<close>

definition kinterface_check_version :: "u32 \<Rightarrow> u32 \<Rightarrow> u32" where
  "kinterface_check_version interface_version kernel_version =
     (if interface_version = 0 \<and> kernel_version = 0 then 1 else 0)"

definition kernel_info :: "string list" where
  "kernel_info = [''kernel_name=RJK'', ''kernel_version=0.0.0.0'',
     ''kernel_contact=Robert Fitzsimons <robfitz@273k.net>'', ''kernel_license=GPL'']"

definition kinterface_kernel_info :: "string list" where
  "kinterface_kernel_info = kernel_info"

section \<open>The table against the interface\<close>

lemmas interface_defs = kinterface_fields_def kernel_fields_def memory_fields_def
  kinterface_table_def kernel_table_def memory_table_def

lemma interface_lengths: "length kinterface_fields = length kinterface_table"
  by (simp add: interface_defs)

lemma interface_table_swapped:
  "kinterface_table = map (\<lambda>f. if f = ''katomic_inc_and_test'' then ''katomic_dec_and_test''
     else if f = ''katomic_dec_and_test'' then ''katomic_inc_and_test'' else f) kinterface_fields"
  by (simp add: interface_defs)

lemma map_of_zip_map: "f \<in> set xs \<Longrightarrow> map_of (zip xs (map g xs)) f = Some (g f)"
  by (induction xs) auto

text \<open>
  C38: the table fills the interface. Every field is set, and to the routine of its own name, with one
  exception: the routines that increment and that decrement with a test are exchanged, so that a module
  that counts up through \<^verbatim>\<open>katomic_inc_and_test\<close> counts down.
\<close>
theorem interface_reaches_routines:
  "length kinterface_fields = length kinterface_table \<and>
   (\<forall>f\<in>set kinterface_fields - {''katomic_inc_and_test'', ''katomic_dec_and_test''}. reached f = Some f) \<and>
   reached ''katomic_inc_and_test'' = Some ''katomic_dec_and_test'' \<and>
   reached ''katomic_dec_and_test'' = Some ''katomic_inc_and_test''"
proof -
  have "''katomic_inc_and_test'' \<in> set kinterface_fields" "''katomic_dec_and_test'' \<in> set kinterface_fields"
    by (simp_all add: interface_defs)
  then show ?thesis
    using interface_lengths by (auto simp: reached_def interface_table_swapped map_of_zip_map)
qed

theorem interface_reaches_routines_witness:
  "reached ''kthread_create'' = Some ''kthread_create'' \<and> reached ''katomic_inc_and_test'' \<noteq> Some ''katomic_inc_and_test''"
proof -
  have "''kthread_create'' \<in> set kinterface_fields - {''katomic_inc_and_test'', ''katomic_dec_and_test''}"
    by (simp add: interface_defs)
  then show ?thesis using interface_reaches_routines by auto
qed

end
