(* ===== verification/Layout.thy ===== *)
theory Layout
  imports Prelude
begin

text \<open>
  The layout of the structures that other programs write: the boot loader's of
  \<^verbatim>\<open>arch/ia32/include/internal.h\<close> and the executable's of \<^verbatim>\<open>elf32.h\<close>. The compiler places a field at the next
  multiple of its alignment, which on ia32 is that of its elements but at most 4, and 1 in a packed
  structure.
\<close>

section \<open>Structures\<close>

text \<open>The fields by name, with the size of their elements and the number of these.\<close>

type_synonym fields = "(string \<times> nat \<times> nat) list"

definition align_up :: "nat \<Rightarrow> nat \<Rightarrow> nat" where
  "align_up a n = (n + a - 1) div a * a"

text \<open>\<open>most\<close> is the greatest alignment a field can have.\<close>

fun place :: "nat \<Rightarrow> nat \<Rightarrow> fields \<Rightarrow> (string \<times> nat) list" where
  "place most at [] = []"
| "place most at ((f, sz, n) # fs) =
     (let start = align_up (min most sz) at in (f, start) # place most (start + sz * n) fs)"

fun end_of :: "nat \<Rightarrow> nat \<Rightarrow> fields \<Rightarrow> nat" where
  "end_of most at [] = at"
| "end_of most at ((f, sz, n) # fs) = end_of most (align_up (min most sz) at + sz * n) fs"

definition struct_size :: "nat \<Rightarrow> fields \<Rightarrow> nat" where
  "struct_size most fs = align_up (fold (\<lambda>(f, sz, n) a. max a (min most sz)) fs 1) (end_of most 0 fs)"

definition offset_of :: "nat \<Rightarrow> fields \<Rightarrow> string \<Rightarrow> nat" where
  "offset_of most fs f = the (map_of (place most 0 fs) f)"

section \<open>The boot loader's structures\<close>

definition multiboot_info :: fields where
  "multiboot_info =
     [(''flags'', 4, 1), (''mem_lower'', 4, 1), (''mem_upper'', 4, 1), (''boot_device'', 4, 1), (''cmdline'', 4, 1),
      (''mods_count'', 4, 1), (''mods_addr'', 4, 1), (''syms_0'', 4, 1), (''syms_1'', 4, 1), (''syms_2'', 4, 1),
      (''syms_3'', 4, 1), (''mmap_length'', 4, 1), (''mmap_addr'', 4, 1), (''drives_length'', 4, 1),
      (''drives_addr'', 4, 1), (''config_table'', 4, 1), (''boot_loader_name'', 4, 1), (''apm_table'', 4, 1),
      (''vbe_control_info'', 4, 1), (''vbe_mode_info'', 4, 1), (''vbe_mode'', 2, 1), (''vbe_interface_seg'', 2, 1),
      (''vbe_interface_off'', 2, 1), (''vbe_interface_len'', 2, 1), (''framebuffer_addr'', 8, 1),
      (''framebuffer_pitch'', 4, 1), (''framebuffer_width'', 4, 1), (''framebuffer_height'', 4, 1),
      (''framebuffer_bpp'', 1, 1), (''framebuffer_type'', 1, 1), (''color_info'', 1, 6)]"

definition multiboot_mod :: fields where
  "multiboot_mod = [(''mod_start'', 4, 1), (''mod_end'', 4, 1), (''string'', 4, 1), (''reserved'', 4, 1)]"

text \<open>This one is packed.\<close>

definition multiboot_mmap :: fields where
  "multiboot_mmap = [(''size'', 4, 1), (''base_addr'', 8, 1), (''length'', 8, 1), (''type'', 4, 1)]"

section \<open>Executables\<close>

definition elf32_header :: fields where
  "elf32_header =
     [(''e_ident'', 1, 16), (''e_type'', 2, 1), (''e_machine'', 2, 1), (''e_version'', 4, 1), (''e_entry'', 4, 1),
      (''e_phoff'', 4, 1), (''e_shoff'', 4, 1), (''e_flags'', 4, 1), (''e_ehsize'', 2, 1), (''e_phentsize'', 2, 1),
      (''e_phnum'', 2, 1), (''e_shentsize'', 2, 1), (''e_shnum'', 2, 1), (''e_ststrndx'', 2, 1)]"

definition elf32_program_header :: fields where
  "elf32_program_header =
     [(''p_type'', 4, 1), (''p_offset'', 4, 1), (''p_vaddr'', 4, 1), (''p_paddr'', 4, 1), (''p_filesz'', 4, 1),
      (''p_memsz'', 4, 1), (''p_flags'', 4, 1), (''p_align'', 4, 1)]"

abbreviation (input) EI_MAG0 :: u32 where "EI_MAG0 \<equiv> 0"
abbreviation (input) EI_MAG1 :: u32 where "EI_MAG1 \<equiv> 1"
abbreviation (input) EI_MAG2 :: u32 where "EI_MAG2 \<equiv> 2"
abbreviation (input) EI_MAG3 :: u32 where "EI_MAG3 \<equiv> 3"
abbreviation (input) EI_CLASS :: u32 where "EI_CLASS \<equiv> 4"
abbreviation (input) EI_DATA :: u32 where "EI_DATA \<equiv> 5"
abbreviation (input) EI_VERSION :: u32 where "EI_VERSION \<equiv> 6"
abbreviation (input) ET_EXEC :: u16 where "ET_EXEC \<equiv> 2"
abbreviation (input) EM_386 :: u16 where "EM_386 \<equiv> 3"
abbreviation (input) ELFCLASS32 :: u8 where "ELFCLASS32 \<equiv> 1"
abbreviation (input) ELFDATA2LSB :: u8 where "ELFDATA2LSB \<equiv> 1"
abbreviation (input) EV_CURRENT :: "'a::len word" where "EV_CURRENT \<equiv> 1"
abbreviation (input) PT_LOAD :: u32 where "PT_LOAD \<equiv> 1"

text \<open>Where a field starts, as what is added to the structure's address, and the size in bytes.\<close>

definition field :: "fields \<Rightarrow> string \<Rightarrow> u32" where
  "field fs f = word_of_nat (offset_of 4 fs f)"

definition bytes_of :: "fields \<Rightarrow> u32" where
  "bytes_of fs = word_of_nat (struct_size 4 fs)"

section \<open>The offsets in use\<close>

lemma multiboot_offsets:
  "offset_of 4 multiboot_info ''flags'' = 0" "offset_of 4 multiboot_info ''mem_lower'' = 4"
  "offset_of 4 multiboot_info ''mem_upper'' = 8" "offset_of 4 multiboot_info ''mods_count'' = 20"
  "offset_of 4 multiboot_info ''mods_addr'' = 24" "struct_size 4 multiboot_info = 116"
  "offset_of 4 multiboot_mod ''mod_start'' = 0" "offset_of 4 multiboot_mod ''mod_end'' = 4"
  "struct_size 4 multiboot_mod = 16"
  by code_simp+

lemma elf_offsets:
  "offset_of 4 elf32_header ''e_ident'' = 0" "offset_of 4 elf32_header ''e_type'' = 16"
  "offset_of 4 elf32_header ''e_machine'' = 18" "offset_of 4 elf32_header ''e_version'' = 20"
  "offset_of 4 elf32_header ''e_entry'' = 24" "offset_of 4 elf32_header ''e_phoff'' = 28"
  "offset_of 4 elf32_header ''e_phentsize'' = 42" "offset_of 4 elf32_header ''e_phnum'' = 44"
  "offset_of 4 elf32_program_header ''p_type'' = 0" "offset_of 4 elf32_program_header ''p_offset'' = 4"
  "offset_of 4 elf32_program_header ''p_vaddr'' = 8" "offset_of 4 elf32_program_header ''p_filesz'' = 16"
  "offset_of 4 elf32_program_header ''p_memsz'' = 20"
  by code_simp+

text \<open>The sizes the formats prescribe; the 64 bit fields of the packed memory map are not aligned.\<close>

lemma format_sizes:
  "struct_size 4 elf32_header = 52" "struct_size 4 elf32_program_header = 32"
  "struct_size 1 multiboot_mmap = 24" "offset_of 1 multiboot_mmap ''base_addr'' = 4"
  by code_simp+

lemmas layout [simp] = field_def bytes_of_def multiboot_offsets elf_offsets

end
