(* ===== verification/Boot.thy ===== *)
theory Boot
  imports Timer Irq Printf Condition Kinterface Layout
begin

unbundle bit_operations_syntax

text \<open>
  \<^verbatim>\<open>arch/ia32/init.c\<close>, \<^verbatim>\<open>arch/ia32/module.c\<close> and \<^verbatim>\<open>read_elf\<close> of \<^verbatim>\<open>arch/ia32/memory.c\<close>: how the kernel
  comes up from what the boot loader left in memory, and how its modules are found and loaded.
\<close>

section \<open>The boot loader's data\<close>

text \<open>The fields of \<^verbatim>\<open>struct multiboot_info\<close> and \<^verbatim>\<open>struct multiboot_mod\<close> in use, by address.\<close>

abbreviation (input) mb_flags :: "u32 \<Rightarrow> u32" where "mb_flags a \<equiv> a + field multiboot_info ''flags''"
abbreviation (input) mb_mem_lower :: "u32 \<Rightarrow> u32" where "mb_mem_lower a \<equiv> a + field multiboot_info ''mem_lower''"
abbreviation (input) mb_mem_upper :: "u32 \<Rightarrow> u32" where "mb_mem_upper a \<equiv> a + field multiboot_info ''mem_upper''"
abbreviation (input) mb_mods_count :: "u32 \<Rightarrow> u32" where "mb_mods_count a \<equiv> a + field multiboot_info ''mods_count''"
abbreviation (input) mb_mods_addr :: "u32 \<Rightarrow> u32" where "mb_mods_addr a \<equiv> a + field multiboot_info ''mods_addr''"
abbreviation (input) mod_start :: "u32 \<Rightarrow> u32" where "mod_start a \<equiv> a + field multiboot_mod ''mod_start''"
abbreviation (input) mod_end :: "u32 \<Rightarrow> u32" where "mod_end a \<equiv> a + field multiboot_mod ''mod_end''"
abbreviation (input) mb_size :: u32 where "mb_size \<equiv> bytes_of multiboot_info"
abbreviation (input) mod_size :: u32 where "mod_size \<equiv> bytes_of multiboot_mod"

text \<open>The same for an executable's headers.\<close>

abbreviation (input) ehdr :: "string \<Rightarrow> u32 \<Rightarrow> u32" where "ehdr f a \<equiv> a + field elf32_header f"
abbreviation (input) phdr :: "string \<Rightarrow> u32 \<Rightarrow> u32" where "phdr f a \<equiv> a + field elf32_program_header f"

text \<open>\<^verbatim>\<open>module.c\<close>: the result, and \<open>*data\<close> and \<open>*length\<close> where they are set.\<close>

definition kmodule_get :: "u32 \<Rightarrow> u32 \<Rightarrow> kmem \<Rightarrow> stop + (u32 \<times> (u32 \<times> u32) option)" where
  "kmodule_get mb index s =
     andthen (rd32 s (mb_mods_addr mb)) (\<lambda>mods.
     andthen (rd32 s (mb_mods_count mb)) (\<lambda>count.
     if index < count then
       andthen (rd32 s (mod_start (mods + mod_size * index))) (\<lambda>a.
       andthen (rd32 s (mod_end (mods + mod_size * index))) (\<lambda>b. Inr (index + 1, Some (a, b - a))))
     else Inr (0, None)))"

definition kmodule_free :: "kmem \<Rightarrow> kmem" where
  "kmodule_free s = s"

section \<open>Loading an executable\<close>

text \<open>The conjunction of the header's tests, each of which reads the header.\<close>

primrec all_hold :: "(stop + bool) list \<Rightarrow> stop + bool" where
  "all_hold [] = Inr True"
| "all_hold (t # ts) = andthen t (\<lambda>b. if b then all_hold ts else Inr False)"

definition is8 :: "kmem \<Rightarrow> u32 \<Rightarrow> u8 \<Rightarrow> stop + bool" where
  "is8 s a v = andthen (rd8 s a) (\<lambda>x. Inr (x = v))"

definition is16 :: "kmem \<Rightarrow> u32 \<Rightarrow> u16 \<Rightarrow> stop + bool" where
  "is16 s a v = andthen (rd16 s a) (\<lambda>x. Inr (x = v))"

definition elf_valid :: "u32 \<Rightarrow> kmem \<Rightarrow> stop + bool" where
  "elf_valid buffer s = all_hold
     [is8 s (ehdr ''e_ident'' buffer + EI_MAG0) 0x7F, is8 s (ehdr ''e_ident'' buffer + EI_MAG1) 0x45,
      is8 s (ehdr ''e_ident'' buffer + EI_MAG2) 0x4C, is8 s (ehdr ''e_ident'' buffer + EI_MAG3) 0x46,
      is8 s (ehdr ''e_ident'' buffer + EI_CLASS) ELFCLASS32, is8 s (ehdr ''e_ident'' buffer + EI_DATA) ELFDATA2LSB,
      is8 s (ehdr ''e_ident'' buffer + EI_VERSION) EV_CURRENT,
      is16 s (ehdr ''e_type'' buffer) ET_EXEC, is16 s (ehdr ''e_machine'' buffer) EM_386,
      andthen (rd32 s (ehdr ''e_version'' buffer)) (\<lambda>v. Inr (v = EV_CURRENT)),
      andthen (rd32 s (ehdr ''e_entry'' buffer)) (\<lambda>v. Inr (0 < v)),
      andthen (rd32 s (ehdr ''e_phoff'' buffer)) (\<lambda>v. Inr (0 < v))]"

text \<open>The address of program header \<open>i\<close>.\<close>

definition elf_ph :: "u32 \<Rightarrow> u32 \<Rightarrow> kmem \<Rightarrow> stop + u32" where
  "elf_ph buffer i s =
     andthen (rd32 s (ehdr ''e_phoff'' buffer)) (\<lambda>phoff.
     andthen (rd16 s (ehdr ''e_phentsize'' buffer)) (\<lambda>phentsize. Inr (buffer + phoff + i * ucast phentsize)))"

text \<open>The pages of a segment, mapped and cleared one by one.\<close>

primrec elf_pages :: "nat \<Rightarrow> u32 \<Rightarrow> u32 \<Rightarrow> kmem \<Rightarrow> stop + kmem" where
  "elf_pages 0 vaddr laddr s = Inr s"
| "elf_pages (Suc n) vaddr laddr s =
     andthen (set_virtual_entry vaddr laddr (VIRTUAL_ALLOCATED OR VIRTUAL_READWRITE OR VIRTUAL_USERSUPER) s) (\<lambda>s1.
     andthen (set_linear_entry vaddr laddr LINEAR_ALLOCATED s1) (\<lambda>s2.
     andthen (clear_pages vaddr 1 s2) (\<lambda>s3.
       elf_pages n (vaddr + KPAGESIZE) (laddr + KPAGESIZE) s3)))"

definition elf_map_segment :: "u32 \<Rightarrow> kmem \<Rightarrow> stop + kmem" where
  "elf_map_segment ph s =
     andthen (rd32 s (phdr ''p_type'' ph)) (\<lambda>p_type.
     if p_type = PT_LOAD then
       andthen (rd32 s (phdr ''p_vaddr'' ph)) (\<lambda>p_vaddr.
       andthen (rd32 s (phdr ''p_memsz'' ph)) (\<lambda>p_memsz.
       let start = page_base p_vaddr;
           limit = page_base (p_vaddr + p_memsz - 1) + KPAGESIZE;
           count = (limit - start) div KPAGESIZE
       in andthen (get_free_pages count ZONE_NORMAL s) (\<lambda>(address, s1).
          if address \<noteq> 0 then elf_pages (unat count) start address s1 else Inr s1)))
     else Inr s)"

definition elf_copy_segment :: "u32 \<Rightarrow> u32 \<Rightarrow> kmem \<Rightarrow> stop + kmem" where
  "elf_copy_segment buffer ph s =
     andthen (rd32 s (phdr ''p_type'' ph)) (\<lambda>p_type.
     if p_type = PT_LOAD then
       andthen (rd32 s (phdr ''p_offset'' ph)) (\<lambda>p_offset.
       andthen (rd32 s (phdr ''p_vaddr'' ph)) (\<lambda>p_vaddr.
       andthen (rd32 s (phdr ''p_filesz'' ph)) (\<lambda>p_filesz.
       andthen (kmemory_virtual_copy p_vaddr (buffer + p_offset) p_filesz s) (\<lambda>(d, s1). Inr s1))))
     else Inr s)"

text \<open>A loop over the program headers; their number is read again before every turn.\<close>

definition elf_segments :: "u32 \<Rightarrow> (u32 \<Rightarrow> kmem \<Rightarrow> stop + kmem) \<Rightarrow> kmem \<Rightarrow> stop + kmem" where
  "elf_segments buffer segment s =
     iterate (\<lambda>(i, s).
       andthen (rd16 s (ehdr ''e_phnum'' buffer)) (\<lambda>phnum.
       if i < ucast phnum then
         andthen (elf_ph buffer i s) (\<lambda>ph. andthen (segment ph s) (\<lambda>s1. Inr (Inl (i + 1, s1))))
       else Inr (Inr s))) (0, s)"

text \<open>The result, the new value of \<open>*entry\<close>, and the state.\<close>

definition read_elf :: "u32 \<Rightarrow> u32 \<Rightarrow> kmem \<Rightarrow> stop + (u32 \<times> u32 \<times> kmem)" where
  "read_elf buffer entry s =
     andthen (elf_valid buffer s) (\<lambda>valid.
     if valid then
       andthen (elf_segments buffer elf_map_segment s) (\<lambda>s1.
       andthen (elf_segments buffer (elf_copy_segment buffer) s1) (\<lambda>s2.
       let s3 = tlb_invalidate s2
       in andthen (rd32 s3 (ehdr ''e_entry'' buffer)) (\<lambda>e. Inr (0, e, s3))))
     else Inr (1, entry, s))"

section \<open>Coming up\<close>

definition kmax :: "u32 \<Rightarrow> u32 \<Rightarrow> u32" where
  "kmax a b = (if a > b then a else b)"

text \<open>The loop of \<^verbatim>\<open>setup\<close> that looks for the end of the last module.\<close>

primrec mods_limit :: "nat \<Rightarrow> u32 \<Rightarrow> u32 \<Rightarrow> kmem \<Rightarrow> stop + u32" where
  "mods_limit 0 m kernel_max s = Inr kernel_max"
| "mods_limit (Suc n) m kernel_max s =
     andthen (rd32 s (mod_end m)) (\<lambda>e. mods_limit n (m + mod_size) (kmax kernel_max e) s)"

primrec block_mods :: "nat \<Rightarrow> u32 \<Rightarrow> kmem \<Rightarrow> stop + kmem" where
  "block_mods 0 m s = Inr s"
| "block_mods (Suc n) m s =
     andthen (rd32 s (mod_start m)) (\<lambda>a. andthen (rd32 s (mod_end m)) (\<lambda>b.
     andthen (linear_block a b s) (\<lambda>s1. block_mods n (m + mod_size) s1)))"

text \<open>
  \<open>image_start\<close> and \<open>image_end\<close> are \<^verbatim>\<open>&_start\<close> and \<^verbatim>\<open>&_end\<close>. \<^verbatim>\<open>mods_array + sizeof(struct multiboot_mod)\<close>
  counts in modules, and so adds 16 of them. The message before the endless loop is left out.
\<close>

definition kernel_setup :: "u32 \<Rightarrow> u32 \<Rightarrow> thread \<Rightarrow> u32 \<Rightarrow> sched \<Rightarrow> stop + (u32 \<times> sched)" where
  "kernel_setup image_start image_end junk mb s =
     (let m = memory s; kernel_max0 = kmax (kmax 0 image_end) (mb + mb_size) in
     andthen (rd32 m (mb_flags mb)) (\<lambda>flags.
     if flags AND 1 = 0 then Inl Spins
     else andthen (rd32 m (mb_mem_lower mb)) (\<lambda>lower.
     andthen (rd32 m (mb_mem_upper mb)) (\<lambda>upper.
     andthen (rd32 m (mb_mods_count mb)) (\<lambda>count.
     andthen (rd32 m (mb_mods_addr mb)) (\<lambda>mods.
     let has_mods = flags AND 8 \<noteq> 0 \<and> count \<noteq> 0 in
     andthen (if has_mods then mods_limit (unat count) mods (kmax kernel_max0 (mods + 16 * mod_size)) m
         else Inr kernel_max0) (\<lambda>kernel_max.
     andthen (kmemory_linear_setup (lower * 1024) (upper * 1024 + 1024 * 1024) kernel_max m) (\<lambda>m1.
     andthen (linear_block image_start image_end m1) (\<lambda>m2.
     andthen (linear_block mb (mb + mb_size) m2) (\<lambda>m3.
     andthen (if has_mods then andthen (linear_block mods (mods + mod_size * count) m3) (block_mods (unat count) mods)
         else Inr m3) (\<lambda>m4.
     andthen (kmemory_virtual_setup m4) (\<lambda>m5.
       kthread_setup junk (s\<lparr>memory := m5\<rparr>)))))))))))))"

text \<open>The loop of \<^verbatim>\<open>init\<close> over the modules: it is left at the first result that is not 0.\<close>

definition load_modules_turn :: "u32 \<Rightarrow> u32 \<Rightarrow> u32 \<times> u32 \<times> kmem \<Rightarrow>
    stop + ((u32 \<times> u32 \<times> kmem) + (u32 \<times> kmem))" where
  "load_modules_turn mb mods = (\<lambda>(i, entry, s).
     andthen (rd32 s (mb_mods_count mb)) (\<lambda>count.
     if i < count then
       andthen (rd32 s (mod_start (mods + mod_size * i))) (\<lambda>a.
       andthen (read_elf a entry s) (\<lambda>(rc, entry1, s1).
         if rc \<noteq> 0 then Inr (Inr (entry1, s1)) else Inr (Inl (i + 1, entry1, s1))))
     else Inr (Inr (entry, s))))"

definition load_modules :: "u32 \<Rightarrow> u32 \<Rightarrow> kmem \<Rightarrow> stop + (u32 \<times> kmem)" where
  "load_modules mb entry s =
     andthen (rd32 s (mb_flags mb)) (\<lambda>flags.
     andthen (rd32 s (mb_mods_count mb)) (\<lambda>count.
     if flags AND 8 \<noteq> 0 \<and> count \<noteq> 0 then
       andthen (rd32 s (mb_mods_addr mb)) (\<lambda>mods. iterate (load_modules_turn mb mods) (0, entry, s))
     else Inr (entry, s)))"

text \<open>
  The whole machine for \<^verbatim>\<open>init\<close>: the screen, the interrupts, the threads with the clock and the memory,
  the devices, and \<^verbatim>\<open>entry\<close>. The constants are the addresses of functions and of \<^verbatim>\<open>blank_line\<close>.
\<close>

record 'd kernel =
  kconsole :: console
  kirqs :: irqs
  ksched :: sched
  kdev :: 'd
  kentry :: u32

record symbols =
  blank_line :: u32
  sym_kill_current :: u32
  sym_rtc_irq_handler :: u32
  sym_timer_thread :: u32
  sym_start_module :: u32
  sym_idle :: u32

definition init_console :: "symbols \<Rightarrow> 'd kernel \<Rightarrow> stop + 'd kernel" where
  "init_console y k =
     andthen (kprintf_init (blank_line y) (kconsole k, memory (ksched k))) (\<lambda>(v, m).
       Inr (k\<lparr>kconsole := v, ksched := (ksched k)\<lparr>memory := m\<rparr>\<rparr>))"

definition init_irqs :: "'d bus \<Rightarrow> 'd kernel \<Rightarrow> 'd kernel" where
  "init_irqs bus k = (let (q, d) = kirq_init bus (kirqs k, kdev k) in k\<lparr>kirqs := q, kdev := d\<rparr>)"

text \<open>\<^verbatim>\<open>ktime_init\<close> with its last statement, the assignment of the clock's handler.\<close>

definition init_time :: "'d bus \<Rightarrow> symbols \<Rightarrow> 'd kernel \<Rightarrow> stop + 'd kernel" where
  "init_time bus y k =
     andthen (ktime_init bus (sclock (ksched k), kdev k)) (\<lambda>(c, d).
     andthen (kirq_assign_irq bus 8 (sym_rtc_irq_handler y) (kirqs k, d)) (\<lambda>(rc, q, d1).
       Inr (k\<lparr>ksched := (ksched k)\<lparr>sclock := c\<rparr>, kirqs := q, kdev := d1\<rparr>)))"

definition init_thread :: "symbols \<Rightarrow> u32 \<Rightarrow> 'd kernel \<Rightarrow> stop + 'd kernel" where
  "init_thread y function k =
     andthen (kthread_create (sym_kill_current y) function 0 0 (ksched k)) (\<lambda>(tid, s). Inr (k\<lparr>ksched := s\<rparr>))"

text \<open>
  \<^verbatim>\<open>init\<close>. Each \<^verbatim>\<open>kthread_create\<close> switches to the new thread, and what follows it is done when the boot
  thread is resumed. \<open>message\<close> is the missing entry point's.
\<close>

definition kernel_init :: "'d bus \<Rightarrow> symbols \<Rightarrow> u8 list \<Rightarrow> u32 \<Rightarrow> 'd kernel \<Rightarrow> stop + 'd kernel" where
  "kernel_init bus y message mb k =
     andthen (init_console y k) (\<lambda>k1.
     andthen (init_time bus y (init_irqs bus k1)) (\<lambda>k2.
     andthen (andthen (ktimer_init (sym_timer_thread y) (sym_kill_current y) (ksched k2)) (\<lambda>(tid, s).
       Inr (k2\<lparr>ksched := s\<rparr>))) (\<lambda>k3.
     let m = memory (ksched k3);
         m3 = m\<lparr>eflags_reg := kirq_enable_all (eflags_reg m)\<rparr>
     in andthen (load_modules mb (kentry k3) m3) (\<lambda>(e, m4).
        let k4 = k3\<lparr>kentry := e, ksched := (ksched k3)\<lparr>memory := m4\<rparr>\<rparr>
        in andthen (if kentry k4 \<noteq> 0 then init_thread y (sym_start_module y) k4
           else andthen (kprintf bus (blank_line y) (\<lambda>_. []) message (\<lambda>_. 0)
               (kconsole k4, memory (ksched k4), kdev k4)) (\<lambda>(count, v, m5, d).
             Inr (k4\<lparr>kconsole := v, ksched := (ksched k4)\<lparr>memory := m5\<rparr>, kdev := d\<rparr>))) (\<lambda>k5.
           init_thread y (sym_idle y) k5)))))"

section \<open>Which module is started\<close>

lemma read_elf_invalid: "elf_valid buffer s = Inr False \<Longrightarrow> read_elf buffer entry s = Inr (1, entry, s)"
  by (simp add: read_elf_def)

lemma read_elf_valid: "read_elf buffer entry s = Inr (rc, e, s1) \<Longrightarrow> rc = 0 \<longleftrightarrow> elf_valid buffer s = Inr True"
  by (auto simp: read_elf_def andthen_Inr_iff Let_def split: if_splits)

text \<open>The first \<open>n\<close> modules are executables, and loading them all leads to \<open>e'\<close> and \<open>s'\<close>.\<close>

inductive loaded :: "u32 \<Rightarrow> u32 \<Rightarrow> u32 \<Rightarrow> kmem \<Rightarrow> u32 \<Rightarrow> u32 \<Rightarrow> kmem \<Rightarrow> bool" for mb mods e s where
  none: "loaded mb mods e s 0 e s"
| another: "loaded mb mods e s n e1 s1 \<Longrightarrow> rd32 s1 (mb_mods_count mb) = Inr count \<Longrightarrow> n < count \<Longrightarrow>
    rd32 s1 (mod_start (mods + mod_size * n)) = Inr a \<Longrightarrow> read_elf a e1 s1 = Inr (0, e2, s2) \<Longrightarrow>
    loaded mb mods e s (n + 1) e2 s2"

lemma load_modules_loaded:
  "loaded mb mods e s n e1 s1 \<Longrightarrow>
    iterate (load_modules_turn mb mods) (0, e, s) = iterate (load_modules_turn mb mods) (n, e1, s1)"
proof (induction rule: loaded.induct)
  case (another n e1 s1 count a e2 s2)
  then have "load_modules_turn mb mods (n, e1, s1) = Inr (Inl (n + 1, e2, s2))"
    by (simp add: load_modules_turn_def)
  then have "iterate (load_modules_turn mb mods) (n, e1, s1) = iterate (load_modules_turn mb mods) (n + 1, e2, s2)"
    by (rule iterate_go)
  with another.IH show ?case by simp
qed simp

lemma loaded_none: "loaded mb mods e s n e1 s1 \<Longrightarrow> n = 0 \<Longrightarrow> e1 = e \<and> s1 = s"
proof (induction rule: loaded.induct)
  case (another n e1 s1 count a e2 s2)
  from another.prems have "n = - 1" by (metis add.inverse_unique add.commute)
  with \<open>n < count\<close> have False by simp
  then show ?case ..
qed simp


text \<open>One module that is no executable.\<close>

definition one_module :: kmem where
  "one_module = one_page\<lparr>ram := store32 (store32 (store32 (store32 (\<lambda>_. 0) 0x1000 9) 0x1014 1) 0x1018 0x2000) 0x2000 0x3000\<rparr>"


end
