(* ===== verification/Module.thy ===== *)
theory Module
  imports Report Kinterface Screen
begin

unbundle bit_operations_syntax

text \<open>
  \<^verbatim>\<open>module/main.c\<close>: the example module, which prints what the kernel says about itself and some numbers
  through the interface.
\<close>

section \<open>Long doubles on the stack\<close>

text \<open>The three words of a long double, the first bit of the significand at the top.\<close>

fun kfloat_words :: "kfloat \<Rightarrow> u32 list" where
  "kfloat_words (Finite m e) =
     (let k = 64 - bitlen \<bar>m\<bar>; significand = \<bar>m\<bar> * 2 ^ nat k
      in if m = 0 then [0, 0, 0]
         else [word_of_int significand, word_of_int (significand div 2 ^ 32),
           word_of_int (e - k + 16446) OR (if m < 0 then 0x8000 else 0)])"
| "kfloat_words (Infinite neg) = [0, 0x80000000, if neg then 0xFFFF else 0x7FFF]"
| "kfloat_words Not_A_Number = [0, 0xC0000000, 0x7FFF]"

text \<open>A quotient, rounded as in \<open>divided_by_ten\<close>: 130 further bits and one for the remainder.\<close>

fun divided :: "kfloat \<Rightarrow> kfloat \<Rightarrow> kfloat" where
  "divided (Finite m e) (Finite m' e') =
     (let q = \<bar>m\<bar> * 2 ^ 130 div \<bar>m'\<bar>; r = \<bar>m\<bar> * 2 ^ 130 mod \<bar>m'\<bar>
      in rounded (sgn m * sgn m' * (2 * q + (if r \<noteq> 0 then 1 else 0))) (e - e' - 131))"
| "divided x y = Not_A_Number"

section \<open>The module\<close>

text \<open>The doubles nearest to the constants 12434384.4243 and 1244.42.\<close>

definition module_fu :: kfloat where
  "module_fu = Finite 834457413254067 (- 26)"

definition module_fv :: kfloat where
  "module_fv = Finite 684127129918505 (- 39)"

text \<open>The calls of \<^verbatim>\<open>kprintf\<close> in their order: a format, the words of its arguments, and the string they name.\<close>

definition info_calls :: "(u8 list \<times> u32 list \<times> u8 list) list" where
  "info_calls = map (\<lambda>line. (ascii (''%s'' @ [CHR 0x0A]), [1], ascii line)) kinterface_kernel_info"

definition float_call :: "kfloat \<Rightarrow> kfloat \<Rightarrow> kfloat \<Rightarrow> u8 list \<times> u32 list \<times> u8 list" where
  "float_call fu fv fr = (ascii (''%f %f %f'' @ [CHR 0x0A]), kfloat_words fu @ kfloat_words fv @ kfloat_words fr, [])"

definition float_calls :: "(u8 list \<times> u32 list \<times> u8 list) list" where
  "float_calls =
     (let zero = Finite 0 0; fr = divided module_fu module_fv
      in [float_call zero zero zero, float_call module_fu zero zero, float_call module_fu module_fv zero,
          float_call module_fu module_fv fr])"

definition number_calls :: "(u8 list \<times> u32 list \<times> u8 list) list" where
  "number_calls =
     [(ascii (''12345678901234567890'' @ [CHR 0x0A]), [], []), (ascii (''%#0.8hd'' @ [CHR 0x0A]), [- 123], []),
      (ascii (''%#0.8ho'' @ [CHR 0x0A]), [- 123], []), (ascii (''%#0.8hx'' @ [CHR 0x0A]), [- 123], [])]"

definition module_print :: "'d bus \<Rightarrow> u32 \<Rightarrow> u8 list \<times> u32 list \<times> u8 list \<Rightarrow> console \<times> kmem \<times> 'd \<Rightarrow>
    stop + (console \<times> kmem \<times> 'd)" where
  "module_print bus blank = (\<lambda>(fmt, ws, str) x.
     andthen (kprintf bus blank (\<lambda>_. str) fmt (given ws (\<lambda>_. 0)) x) (\<lambda>(count, x1). Inr x1))"

text \<open>\<^verbatim>\<open>_start\<close>, compiled for the given versions: its result, and what the calls leave behind.\<close>

definition module_start :: "'d bus \<Rightarrow> u32 \<Rightarrow> u32 \<Rightarrow> u32 \<Rightarrow> console \<times> kmem \<times> 'd \<Rightarrow> stop + (u32 \<times> console \<times> kmem \<times> 'd)" where
  "module_start bus blank interface_version kernel_version x =
     (if kinterface_check_version interface_version kernel_version = 0 then Inr (1, x)
      else andthen (each (module_print bus blank) (info_calls @ float_calls @ number_calls) x) (\<lambda>x1. Inr (0, x1)))"

section \<open>The threads of \<^verbatim>\<open>init\<close>\<close>

text \<open>\<^verbatim>\<open>start_module\<close>, with the code at \<^verbatim>\<open>entry\<close> as a parameter; and \<^verbatim>\<open>idle\<close>, which only waits.\<close>

definition start_module :: "'d bus \<Rightarrow> u32 \<Rightarrow> (console \<times> kmem \<times> 'd \<Rightarrow> stop + (u32 \<times> console \<times> kmem \<times> 'd)) \<Rightarrow>
    console \<times> kmem \<times> 'd \<Rightarrow> stop + (console \<times> kmem \<times> 'd)" where
  "start_module bus blank start x =
     andthen (start x) (\<lambda>(rc, x1).
       if rc \<noteq> 0 then module_print bus blank (ascii (''Failed to start module!'' @ [CHR 0x0A]), [], []) x1
       else Inr x1)"

definition idle :: "'s \<Rightarrow> stop + 's" where
  "idle s = iterate (\<lambda>s. Inr (Inl s)) s"

lemma idle_spins: "idle s = Inl Spins"
  unfolding idle_def by (rule iterate_spins [of "\<lambda>_. True"]) auto

section \<open>What it prints\<close>

text \<open>The text of a call, of which \<^verbatim>\<open>kprintf\<close> prints the characters.\<close>

definition prints :: "u8 list \<times> u32 list \<times> u8 list \<Rightarrow> string \<Rightarrow> bool" where
  "prints = (\<lambda>(fmt, ws, str) text.
     kvsprintf (\<lambda>_. str) fmt (given ws (\<lambda>_. 0)) = Inr (word_of_nat (length text), ascii text))"

lemma ascii_append: "ascii (s @ t) = ascii s @ ascii t"
  by (simp add: ascii_def)

lemma length_ascii [simp]: "length (ascii s) = length s"
  by (simp add: ascii_def)

lemma ascii_char: "(word_of_nat (of_char c) :: u8) = word_of_nat (of_char c') \<longleftrightarrow> c = c'"
proof
  assume *: "(word_of_nat (of_char c) :: u8) = word_of_nat (of_char c')"
  have "of_char c < (256 :: nat)" "of_char c' < (256 :: nat)" by (rule nat_of_char_less_256)+
  then have "of_char c = (of_char c' :: nat)"
    using arg_cong [OF *, of unat] by (simp add: unat_of_nat_small)
  then show "c = c'" unfolding of_char_eq_iff .
qed simp

lemma ascii_zero: "(word_of_nat (of_char c) :: u8) = 0 \<longleftrightarrow> c = CHR 0x00"
  using ascii_char [of c "CHR 0x00"] by simp

lemma ascii_newline: "(word_of_nat (of_char c) :: u8) = 0x0A \<longleftrightarrow> c = CHR 0x0A"
  using ascii_char [of c "CHR 0x0A"] by simp

lemma prints_items:
  assumes "list_all item_ok items" "fmt = concat (map item_format items)" "ws = concat (map item_args items)"
    and "concat (map (item_output (\<lambda>_. str)) items) = ascii text"
  shows "prints (fmt, ws, str) text"
  using assms by (simp add: prints_def kvsprintf_def format_loop_items)

lemma float_item:
  assumes "write_number_kfloat (kfloat_of (w0, w1, w2)) 0 = Inr (ascii text)"
  shows "item_output str (Flt False 0 (w0, w1, w2)) = ascii text \<and> item_format (Flt False 0 (w0, w1, w2)) = ascii ''%f''"
  using assms by (simp add: directive_def ascii_def)

lemma module_words:
  "kfloat_words module_fu = [2666315776, 3183202412, 16406]"
  "kfloat_words module_fv = [3607773184, 2609737891, 16393]"
  "kfloat_words (divided module_fu module_fv) = [1464141409, 2619372294, 16396]"
  by code_simp+

text \<open>The numbers on the stack, and what is printed of them.\<close>

lemma module_kfloats:
  "kfloat_of (0, 0, 0) = Finite 0 (- 16445)"
  "kfloat_of (2666315776, 3183202412, 16406) = Finite 13671750258754633728 (- 40)"
  "kfloat_of (3607773184, 2609737891, 16393) = Finite 11208738896584785920 (- 53)"
  "kfloat_of (1464141409, 2619372294, 16396) = Finite 11250118340242638433 (- 50)"
  by (simp_all add: kfloat_of_def)

lemma zero_digits:
  assumes "e < 0"
  shows "times_ten (Finite 0 e) = Finite 0 e" "to_kuint (Finite 0 e) = 0" "minus_kuint (Finite 0 e) 0 = Finite 0 e"
    "at_least_one (Finite 0 e) = False"
  using assms by (simp_all add: rounded_def round_sig_def Let_def whole_part_def bitlen_eq_zero_iff)

lemma zero_text:
  assumes "e < 0"
  shows "write_number_kfloat (Finite 0 e) 0 = Inr (ascii ''0.000000'')"
proof -
  let ?six = "Suc (Suc (Suc (Suc (Suc (Suc 0)))))"
  have "iterate scale_turn (Finite 0 e, 0) = Inr (Finite 0 e, 0)"
    using zero_digits [OF assms] by (intro iterate_leave) (simp add: scale_turn_def)
  moreover have "(case after_turns ?six digits_turn (Finite 0 e, 0, 6, False, []) of (z, c, d, w, out) \<Rightarrow>
      c = - 1 \<and> d = 0 \<and> out = ascii ''0.000000'')"
    by (simp add: digits_turn_def Let_def zero_digits [OF assms] ascii_def
      del: times_ten.simps to_kuint.simps minus_kuint.simps)
  then have "iterate digits_turn (Finite 0 e, 0, 6, False, []) = Inr (ascii ''0.000000'')"
    using iterate_after_turns [of digits_turn ?six "(Finite 0 e, 0, 6, False, [])"]
    by (auto simp: digits_turn_end simp del: after_turns.simps split: prod.splits)
  ultimately show ?thesis by (simp add: write_number_kfloat_def places_of_def)
qed

lemma module_number_texts:
  "write_number_kfloat (Finite 13671750258754633728 (- 40)) 0 = Inr (ascii ''12434384.424300'')"
  "write_number_kfloat (Finite 11208738896584785920 (- 53)) 0 = Inr (ascii ''1244.420000'')"
  "write_number_kfloat (Finite 11250118340242638433 (- 50)) 0 = Inr (ascii ''9992.112328'')"
  by code_simp+

lemma float_call_prints:
  assumes "kfloat_words x = [x0, x1, x2]" "write_number_kfloat (kfloat_of (x0, x1, x2)) 0 = Inr (ascii tx)"
    "kfloat_words y = [y0, y1, y2]" "write_number_kfloat (kfloat_of (y0, y1, y2)) 0 = Inr (ascii ty)"
    "kfloat_words z = [z0, z1, z2]" "write_number_kfloat (kfloat_of (z0, z1, z2)) 0 = Inr (ascii tz)"
  shows "prints (float_call x y z) (tx @ '' '' @ ty @ '' '' @ tz @ [CHR 0x0A])"
proof -
  have fin: "\<nexists>neg. kfloat_of ws = Infinite neg" if "write_number_kfloat (kfloat_of ws) 0 = Inr t" for ws t
    using that printed_kfloat [of ws 0] by (auto split: if_splits)
  let ?items = "[Flt False 0 (x0, x1, x2), Text (ascii '' ''), Flt False 0 (y0, y1, y2), Text (ascii '' ''),
    Flt False 0 (z0, z1, z2), Text (ascii [CHR 0x0A])]"
  show ?thesis unfolding float_call_def
  proof (rule prints_items [of ?items])
    show "list_all item_ok ?items" using fin [OF assms(2)] fin [OF assms(4)] fin [OF assms(6)] by (simp add: ascii_def)
  qed (use assms float_item in \<open>simp_all add: ascii_append ascii_def directive_def\<close>)
qed

lemma float_calls_print:
  "list_all2 prints float_calls
     [''0.000000 0.000000 0.000000'' @ [CHR 0x0A], ''12434384.424300 0.000000 0.000000'' @ [CHR 0x0A],
      ''12434384.424300 1244.420000 0.000000'' @ [CHR 0x0A], ''12434384.424300 1244.420000 9992.112328'' @ [CHR 0x0A]]"
proof -
  have zero: "kfloat_words (Finite 0 0) = [0, 0, 0]" "write_number_kfloat (kfloat_of (0, 0, 0)) 0 = Inr (ascii ''0.000000'')"
    by (simp_all add: module_kfloats zero_text)
  note n = module_number_texts [folded module_kfloats]
  note fu = module_words(1) n(1) and fv = module_words(2) n(2) and fr = module_words(3) n(3)
  show ?thesis
    using float_call_prints [OF zero zero zero] float_call_prints [OF fu zero zero]
      float_call_prints [OF fu fv zero] float_call_prints [OF fu fv fr]
    by (simp add: float_calls_def Let_def)
qed

lemma info_calls_print: "list_all2 prints info_calls (map (\<lambda>line. line @ [CHR 0x0A]) kinterface_kernel_info)"
proof -
  have "prints (ascii (''%s'' @ [CHR 0x0A]), [1], ascii line) (line @ [CHR 0x0A])" if "CHR 0x00 \<notin> set line" for line
  proof (rule prints_items [of "[Str 1, Text (ascii [CHR 0x0A])]"])
  qed (use that in \<open>auto simp: ascii_def write_string_def ascii_zero\<close>)
  moreover have "\<forall>line\<in>set kinterface_kernel_info. CHR 0x00 \<notin> set line"
    by (simp add: kinterface_kernel_info_def kernel_info_def)
  ultimately show ?thesis by (auto simp: info_calls_def list.rel_map intro!: list.rel_refl_strong)
qed

text \<open>A directive behind which only the end of the line comes.\<close>

lemma prints_directive:
  assumes "parse_directive c fmt = (flags, width, c1, [0x0A])" "c \<noteq> 0"
    and "convert (\<lambda>_. str) flags width c1 (given ws (\<lambda>_. 0)) = Some (Inr (ascii text, args))"
  shows "prints (0x25 # c # fmt, ws, str) (text @ [CHR 0x0A])"
proof -
  have "format_loop (\<lambda>_. str) [0x0A] args = Inr (ascii [CHR 0x0A])"
    using format_loop_items [of "[Text [0x0A]]"] by (simp add: ascii_def)
  then show ?thesis
    using format_loop_directive [OF assms(2,1,3)] by (simp add: prints_def kvsprintf_def ascii_append)
qed

lemma hash_directive:
  "parse_directive 0x23 [0x30, 0x2E, 0x38, 0x68, 0x64, 0x0A] = (0x320, 8, 0x64, [0x0A])"
  "parse_directive 0x23 [0x30, 0x2E, 0x38, 0x68, 0x6F, 0x0A] = (0x320, 8, 0x6F, [0x0A])"
  "parse_directive 0x23 [0x30, 0x2E, 0x38, 0x68, 0x78, 0x0A] = (0x320, 8, 0x78, [0x0A])"
  by code_simp+

lemma hash_convert:
  "convert str 0x320 8 0x64 (given [- 123] args) = Some (Inr (ascii ''-00000123'', args))"
  "convert str 0x320 8 0x6F (given [- 123] args) = Some (Inr (ascii ''00177605'', args))"
  "convert str 0x320 8 0x78 (given [- 123] args) = Some (Inr (ascii ''0x0000ff85'', args))"
proof -
  have "write_number_kuint32 (- 123) 0x320 8 = ascii ''-00000123''"
    "write_number_kuint32 (- 123) 0x1B20 8 = ascii ''00177605''"
    "write_number_kuint32 (- 123) 0x2B20 8 = ascii ''0x0000ff85''"
    by code_simp+
  then show "convert str 0x320 8 0x64 (given [- 123] args) = Some (Inr (ascii ''-00000123'', args))"
    "convert str 0x320 8 0x6F (given [- 123] args) = Some (Inr (ascii ''00177605'', args))"
    "convert str 0x320 8 0x78 (given [- 123] args) = Some (Inr (ascii ''0x0000ff85'', args))"
    by (simp_all add: convert_def specifier_flags_def Let_def)
qed

lemma number_calls_print:
  "list_all2 prints number_calls
     [''12345678901234567890'' @ [CHR 0x0A], ''-00000123'' @ [CHR 0x0A], ''00177605'' @ [CHR 0x0A], ''0x0000ff85'' @ [CHR 0x0A]]"
proof -
  have "prints (ascii (''12345678901234567890'' @ [CHR 0x0A]), [], []) (''12345678901234567890'' @ [CHR 0x0A])"
    by (rule prints_items [of "[Text (ascii (''12345678901234567890'' @ [CHR 0x0A]))]"]) (simp_all add: ascii_def)
  then show ?thesis
    using prints_directive [OF hash_directive(1) _ hash_convert(1), of "[]"]
      prints_directive [OF hash_directive(2) _ hash_convert(2), of "[]"]
      prints_directive [OF hash_directive(3) _ hash_convert(3), of "[]"]
    by (simp add: number_calls_def ascii_def)
qed

section \<open>What there is to see\<close>

lemma text_of_ascii: "CHR 0x00 \<notin> set str \<Longrightarrow> text_of (ascii str) = ascii str"
  by (auto simp: text_of_def takeWhile_eq_all_conv ascii_def ascii_zero)

lemma to_port_append: "to_port bus (xs @ ys) d = to_port bus ys (to_port bus xs d)"
  by (simp add: to_port_def)

lemma module_print_shown:
  assumes "console_ok A f blank v m rows" "prints call str" "length str < 4096" "CHR 0x00 \<notin> set str"
  shows "\<exists>v' m'. module_print bus blank call (v, m, d) = Inr (v', m', to_port bus (ascii str) d) \<and>
    console_ok A f blank v' m' (fold typed (ascii str) rows)"
proof -
  obtain fmt ws s where call: "call = (fmt, ws, s)" by (cases call)
  have out: "kvsprintf (\<lambda>_. s) fmt (given ws (\<lambda>_. 0)) = Inr (word_of_nat (length str), ascii str)"
    using assms(2) by (simp add: prints_def call)
  show ?thesis using kprintf_shown [OF assms(1) out, of bus d] assms(3) text_of_ascii [OF assms(4)]
    by (auto simp: module_print_def call)
qed

lemma module_prints_shown:
  assumes "list_all2 prints calls strs" "\<forall>str\<in>set strs. length str < 4096 \<and> CHR 0x00 \<notin> set str"
    and "console_ok A f blank v m rows"
  shows "\<exists>v' m'. each (module_print bus blank) calls (v, m, d) = Inr (v', m', to_port bus (ascii (concat strs)) d) \<and>
    console_ok A f blank v' m' (fold typed (ascii (concat strs)) rows)"
  using assms
proof (induction calls strs arbitrary: v m d rows rule: list_all2_induct)
  case Nil
  then show ?case by (auto simp: ascii_def to_port_def)
next
  case (Cons call calls str strs)
  have short: "length str < 4096" "CHR 0x00 \<notin> set str" using Cons.prems(1) by simp_all
  obtain v1 m1 where 1: "module_print bus blank call (v, m, d) = Inr (v1, m1, to_port bus (ascii str) d)"
    "console_ok A f blank v1 m1 (fold typed (ascii str) rows)"
    using module_print_shown [OF Cons.prems(2) Cons.hyps(1) short, of bus d] by blast
  show ?case using Cons.IH [OF _ 1(2), of "to_port bus (ascii str) d"] Cons.prems(1) 1(1)
    by (auto simp: ascii_append to_port_append)
qed

definition module_lines :: "string list" where
  "module_lines = kernel_info @
     [''0.000000 0.000000 0.000000'', ''12434384.424300 0.000000 0.000000'', ''12434384.424300 1244.420000 0.000000'',
      ''12434384.424300 1244.420000 9992.112328'', ''12345678901234567890'', ''-00000123'', ''00177605'', ''0x0000ff85'']"

definition lines_text :: "string list \<Rightarrow> u8 list" where
  "lines_text lines = ascii (concat (map (\<lambda>line. line @ [CHR 0x0A]) lines))"

lemma typed_line:
  "length (r @ line) < 80 \<Longrightarrow> 0x0A \<notin> set line \<Longrightarrow> fold typed line (rows @ [r]) = rows @ [r @ line]"
proof (induction line arbitrary: r)
  case (Cons c line)
  then have "typed c (rows @ [r]) = rows @ [r @ [c]]" by (simp add: typed_def)
  then show ?case using Cons.IH [of "r @ [c]"] Cons.prems by simp
qed simp

lemma typed_lines:
  "\<forall>line\<in>set lines. length line < 80 \<and> CHR 0x0A \<notin> set line \<Longrightarrow>
   fold typed (lines_text lines) (rows @ [[]]) = rows @ map ascii lines @ [[]]"
proof (induction lines arbitrary: rows)
  case Nil
  then show ?case by (simp add: lines_text_def ascii_def)
next
  case (Cons line lines)
  have "0x0A \<notin> set (ascii line)" using Cons.prems by (auto simp: ascii_def ascii_newline dest: sym)
  then have "fold typed (ascii line) (rows @ [[]]) = rows @ [ascii line]"
    using typed_line [of "[]" "ascii line" rows] Cons.prems by simp
  moreover have "typed 0x0A (rows @ [ascii line]) = (rows @ [ascii line]) @ [[]]" by (simp add: typed_def)
  moreover have "lines_text (line # lines) = ascii line @ 0x0A # lines_text lines"
    by (simp add: lines_text_def ascii_def)
  ultimately show ?case using Cons.IH [of "rows @ [ascii line]"] Cons.prems by simp
qed

lemma module_calls_print:
  "list_all2 prints (info_calls @ float_calls @ number_calls) (map (\<lambda>line. line @ [CHR 0x0A]) module_lines)"
  using list_all2_appendI [OF info_calls_print list_all2_appendI [OF float_calls_print number_calls_print]]
  by (simp add: module_lines_def kinterface_kernel_info_def)

lemma module_lines_short: "\<forall>str\<in>set (map (\<lambda>line. line @ [CHR 0x0A]) module_lines). length str < 4096 \<and> CHR 0x00 \<notin> set str"
  by (simp add: module_lines_def kernel_info_def)

lemma failure_prints: "prints (ascii (''Failed to start module!'' @ [CHR 0x0A]), [], []) (''Failed to start module!'' @ [CHR 0x0A])"
  by (rule prints_items [of "[Text (ascii (''Failed to start module!'' @ [CHR 0x0A]))]"]) (simp_all add: ascii_def)

text \<open>
  C15: the whole way from the example module to the screen. \<^verbatim>\<open>start_module\<close> with the module's \<^verbatim>\<open>_start\<close>
  returns. Compiled for versions the kernel has, the module leaves on the terminal and at the debug port the
  four lines of the kernel's information, the three numbers as they become known, the digits, and -123 as a
  short in base 10, 8 and 16; compiled for others it prints nothing itself and the kernel says so.
\<close>
theorem module_shows_its_lines:
  assumes "console_ok A f blank v m (rows @ [[]])"
    and "lines = (if interface_version = 0 \<and> kernel_version = 0 then module_lines else [''Failed to start module!''])"
  shows "\<exists>v' m'. start_module bus blank (module_start bus blank interface_version kernel_version) (v, m, d) =
      Inr (v', m', to_port bus (lines_text lines) d) \<and>
    console_ok A f blank v' m' (rows @ map ascii lines @ [[]])"
proof -
  have "\<forall>line\<in>set lines. length line < 80 \<and> CHR 0x0A \<notin> set line"
    using assms(2) by (simp add: module_lines_def kernel_info_def)
  note typed = typed_lines [OF this, of rows]
  show ?thesis
  proof (cases "interface_version = 0 \<and> kernel_version = 0")
    case True
    then show ?thesis
      using module_prints_shown [OF module_calls_print module_lines_short assms(1), of bus d] assms(2) typed
      by (auto simp: start_module_def module_start_def kinterface_check_version_def lines_text_def)
  next
    case False
    then show ?thesis using module_print_shown [OF assms(1) failure_prints, of bus d] assms(2) typed
      by (auto simp: start_module_def module_start_def kinterface_check_version_def lines_text_def)
  qed
qed

theorem module_shows_its_lines_witness:
  "\<exists>v' m'. start_module log_bus 0x4000 (module_start log_bus 0x4000 0 0) (new_console, bare_machine, []) =
      Inr (v', m', lines_text module_lines) \<and>
    console_ok UNIV (\<lambda>a. a) 0x4000 v' m' (map ascii module_lines @ [[]])"
proof -
  have ok: "console_ok UNIV (\<lambda>a. a) 0x4000 new_console bare_machine ([] @ [[]])" using new_console_ok by simp
  have lines: "module_lines = (if (0 :: u32) = 0 \<and> (0 :: u32) = 0 then module_lines else [''Failed to start module!''])" by simp
  show ?thesis using module_shows_its_lines [OF ok lines, of log_bus "[]"] by simp
qed

end
