(* ===== verification/Spec2Isabelle.thy ===== *)
theory Spec2Isabelle
  imports Atomic Spinlock Rwlock Vmalloc Ioport Processor Time Thread Calls Mutex Condition Timer Irq
    Preempt Numbers Kfloat Printf Screen Report Kinterface Layout Boot Module
begin

text \<open>
  The RJK kernel for ia32: a model of its C code, under \<^verbatim>\<open>src/arch/ia32\<close> with the interface of
  \<^verbatim>\<open>src/include\<close>, and what it does.

  The program. RJK is a small kernel for one processor. The boot loader's data leads to page tables and
  a first thread (\<^verbatim>\<open>setup\<close>), which starts the devices and the modules (\<^verbatim>\<open>init\<close>). Interrupts arrive at
  \<^verbatim>\<open>handle_irq\<close>; the clock's handler asks for a switch of threads; \<^verbatim>\<open>thread_switch\<close> goes round a ring.
  Locks, mutexes and condition variables serve the threads, the memory manager gives out frames and
  pages, and \<^verbatim>\<open>kprintf\<close> reports. Modules use all of it through one table of functions.

  How it is modelled. Integers keep their width as words, signed comparisons are \<open>sint\<close>. A routine is a
  function of the state it works on; it returns \<open>Inr\<close>, or \<open>Inl\<close> where it is stopped: by a page fault, an
  invalid opcode, or an endless loop (\<open>Spins\<close>). Loops that may not end are \<open>partial_function\<close>s and
  \<open>iterate\<close>; no fuel is used anywhere, and \<open>Spins\<close> is the proved value of a loop that does not return.
  Assembly is modelled by its documented effect on registers, flags and memory; devices are a \<open>bus\<close>
  parameter, and laws on a device (\<open>pic_contract\<close>) are hypotheses which a model of the chip fulfils.
  Where a routine gives up the processor in its middle, it is cut into turns, each of which is one
  uninterrupted stretch; the several threads of a lock are a step relation over the turns.

  The theories, from the bottom up.
  \<^item> \<open>Prelude\<close>: words, sequencing of routines that may stop, loops, counting of threads.
  \<^item> \<open>Atomic\<close> (\<^verbatim>\<open>atomic.c\<close>): read-modify-write routines; which of them report wrongly, clobber their
    word or cannot run at all.
  \<^item> \<open>Spinlock\<close> (\<^verbatim>\<open>spinlock.c\<close>): the contract of a lock as a locale with two interpretations; mutual
    exclusion of any number of threads; interrupts restored.
  \<^item> \<open>Rwlock\<close> (\<^verbatim>\<open>rwlock.c\<close>): an abstract lock refined by the word; exclusion with one writer, and a run
    that breaks it with two.
  \<^item> \<open>Machine\<close>: byte memory, words in it, the processor's page walk.
  \<^item> \<open>Frames\<close>, \<open>Paging\<close>, \<open>Vmalloc\<close> (\<^verbatim>\<open>memory.c\<close>): zones and frames; page tables, their invariant, linear
    allocation and the page fault handler; the lists of virtual pages, copy and fill.
  \<^item> \<open>Ioport\<close> (\<^verbatim>\<open>ioport.c\<close>), \<open>Processor\<close> (\<^verbatim>\<open>processor.c\<close>): port transfers, byte orders.
  \<^item> \<open>Time\<close> (\<^verbatim>\<open>time.c\<close>): the calendar of the clock chip, its interrupt, the time of day.
  \<^item> \<open>Thread\<close> (\<^verbatim>\<open>thread.c\<close>): the ring of threads as paths through \<^verbatim>\<open>next\<close>; the scheduler's choice, turns
    of ready threads, contexts kept over switches, killed and new threads, threads that are not found.
  \<^item> \<open>Calls\<close>: a type of the whole thread system, kept by every routine of \<^verbatim>\<open>thread.c\<close> from \<^verbatim>\<open>kthread_setup\<close> on,
    in any order, by rule induction over the system's calls.
  \<^item> \<open>Mutex\<close> (\<^verbatim>\<open>mutex.c\<close>), \<open>Condition\<close> (\<^verbatim>\<open>condition.c\<close>): what is left of exclusion over the atomic
    routines as they are; the entries of a condition as a queue.
  \<^item> \<open>Timer\<close> (\<^verbatim>\<open>timer.c\<close>): the list of timers refines insertion into a sorted list.
  \<^item> \<open>Irq\<close> (\<^verbatim>\<open>irq.c\<close>): the cached mask and the mask registers of two 8259A; interrupts without handler.
  \<^item> \<open>Preempt\<close>: \<open>Irq\<close>, \<open>Time\<close> and \<open>Thread\<close> together. The clock's interrupts refine time slices: a queue of
    threads with their contexts, which is turned at every twelfth interrupt.
  \<^item> \<open>Numbers\<close>, \<open>Kfloat\<close>, \<open>Printf\<close> (\<^verbatim>\<open>printf.c\<close>): numbers that fit their array and read back; numbers with a
    point, over long doubles with the rounding of the x87 unit, exact where no rounding happens, and the
    digits lost where it does; formats against a rendering item by item; the screen and its cursor.
  \<^item> \<open>Screen\<close>: \<^verbatim>\<open>kprintf\<close> refines a terminal that keeps every row it ever got, of which the last 25 are to be
    seen, through any window of mapped memory that holds screen, blank line and buffer.
  \<^item> \<open>Report\<close> (\<^verbatim>\<open>print_stack_trace\<close>, \<^verbatim>\<open>handle_exception\<close>, \<^verbatim>\<open>handle_page_fault\<close>, \<^verbatim>\<open>print_page_table\<close>): the reports,
    and the end of a thread that faults, over \<open>Printf\<close>, \<open>Paging\<close>, \<open>Irq\<close> and \<open>Thread\<close> together.
  \<^item> \<open>Kinterface\<close> (\<^verbatim>\<open>internal.c\<close>, \<^verbatim>\<open>kinterface.h\<close>): the table of functions against the interface.
  \<^item> \<open>Layout\<close> (\<^verbatim>\<open>internal.h\<close>, \<^verbatim>\<open>elf32.h\<close>): where the compiler places the fields of the structures that come from
    outside.
  \<^item> \<open>Boot\<close> (\<^verbatim>\<open>init.c\<close>, \<^verbatim>\<open>module.c\<close>, \<^verbatim>\<open>read_elf\<close>): the whole way up, and which module is started.
  \<^item> \<open>Module\<close> (\<^verbatim>\<open>module/main.c\<close>, \<^verbatim>\<open>start_module\<close>, \<^verbatim>\<open>idle\<close>): the example module, the threads of
    \<^verbatim>\<open>init\<close>, and the lines that stand on the screen after them.

  Data in memory is modelled where the code keeps it when its layout matters (page tables, lists of
  pages, boot data, executables, buffers); threads, timers, mutexes and conditions are records under
  their addresses, so that following a pointer to nothing is a page fault.

  A long double is a significand and an exponent, without bounds on the exponent: none of the operations
  on a number from the stack leaves the range of the x87 format.

  Not modelled. \<^verbatim>\<open>entry.S\<close> and \<^verbatim>\<open>start.S\<close> are assembly. Of the C code: the branches for \<^verbatim>\<open>CPU == 386\<close> are
  not compiled; the linear array routines of \<^verbatim>\<open>memory.c\<close> expand to an assembler comment.
\<close>

end
